(* ===== verification/Prelude.thy ===== *)
theory Prelude
  imports Main "HOL-Library.Word"
begin

text \<open>
  Shared vocabulary of the development: pointers, the ways a run of the code can stop
  (failed \<open>ASSERT\<close>, access through a bad pointer, bad \<open>delete\<close>, halting), the result
  type of every operation, sequencing of results, and the collections of simplification
  rules the component theories add to.
\<close>

section \<open>Pointers\<close>

text \<open>
  A pointer is a number, \<open>NULL\<close> is 0. Each struct type has a heap of its own (a partial
  map from pointers to records), and \<open>new\<close> returns an address that was never returned
  before, so an access through a dangling pointer is always noticed.
\<close>

type_synonym ptr = nat

abbreviation NULL :: ptr where "NULL \<equiv> 0"

section \<open>Results and errors\<close>

text \<open>
  \<open>AssertionFailed f n\<close>: the \<open>ASSERT\<close> macro of \<open>utility.h\<close> aborts at line \<open>n\<close> of file
  \<open>f\<close>. \<open>BadPointer p\<close>: an access through \<open>NULL\<close> or a dangling pointer (undefined in C++).
  \<open>BadIndex i\<close>: a read at index \<open>i\<close> past the end of a string.
  \<open>BadDelete\<close>: \<open>delete\<close> of something \<open>new\<close> did not return. \<open>Halted\<close>: the machine was
  switched off because nothing can ever run again. \<open>NoFrame\<close>: the bottom procedure of a
  thread returned.
\<close>

datatype error =
    AssertionFailed string nat
  | BadPointer ptr
  | BadIndex nat
  | BadDelete
  | Halted
  | NoFrame

type_synonym 'a result = "error + 'a"

definition bindE :: "'e + 'a \<Rightarrow> ('a \<Rightarrow> 'e + 'b) \<Rightarrow> 'e + 'b" where
  "bindE m f = (case m of Inl e \<Rightarrow> Inl e | Inr x \<Rightarrow> f x)"

lemma bindE_simps [simp]:
  "bindE (Inl e) f = Inl e"
  "bindE (Inr x) f = f x"
  by (simp_all add: bindE_def)

lemma bindE_eq_Inr: "bindE m f = Inr y \<longleftrightarrow> (\<exists>x. m = Inr x \<and> f x = Inr y)"
  by (cases m) simp_all

lemma bindE_eq_Inl: "bindE m f = Inl e \<longleftrightarrow> m = Inl e \<or> (\<exists>x. m = Inr x \<and> f x = Inl e)"
  by (cases m) auto

lemma bindE_cong [fundef_cong]:
  "m = m' \<Longrightarrow> (\<And>x. m' = Inr x \<Longrightarrow> f x = f' x) \<Longrightarrow> bindE m f = bindE m' f'"
  by (cases m') simp_all

definition deref :: "(ptr \<Rightarrow> 'a option) \<Rightarrow> ptr \<Rightarrow> 'a result" where
  "deref m p = (case m p of None \<Rightarrow> Inl (BadPointer p) | Some x \<Rightarrow> Inr x)"

lemma deref_simps [simp]:
  "m p = Some x \<Longrightarrow> deref m p = Inr x"
  "m p = None \<Longrightarrow> deref m p = Inl (BadPointer p)"
  by (simp_all add: deref_def)

lemma deref_eq_Inr [simp]: "deref m p = Inr x \<longleftrightarrow> m p = Some x"
  by (simp add: deref_def split: option.splits)

lemma deref_eq_Inl: "deref m p = Inl e \<longleftrightarrow> m p = None \<and> e = BadPointer p"
  by (auto simp: deref_def split: option.splits)

definition assertE :: "string \<Rightarrow> nat \<Rightarrow> bool \<Rightarrow> unit result" where
  "assertE file line c = (if c then Inr () else Inl (AssertionFailed file line))"

lemma assertE_simps [simp]:
  "c \<Longrightarrow> assertE file line c = Inr ()"
  "\<not> c \<Longrightarrow> assertE file line c = Inl (AssertionFailed file line)"
  by (simp_all add: assertE_def)

lemma assertE_eq_Inr [simp]: "assertE file line c = Inr u \<longleftrightarrow> c"
  by (simp add: assertE_def)

named_theorems run_simps \<open>definitions unfolded to evaluate the machine on concrete input\<close>

end
