(* ===== verification/SwitchConstants.thy ===== *)
theory SwitchConstants
  imports Prelude
begin

text \<open>
  \<open>switch.h\<close>: for each supported host, the byte offset of every saved register from the
  start of the \<open>Thread\<close> object, and the indices into \<open>machineState\<close> of the five values
  \<open>Thread::StackAllocate\<close> plants there for \<open>ThreadRoot\<close>.
\<close>

datatype host = HOST_MIPS | HOST_SPARC | HOST_SNAKE | HOST_i386

section \<open>Register offsets\<close>

datatype mips_reg = M_SP | M_S0 | M_S1 | M_S2 | M_S3 | M_S4 | M_S5 | M_S6 | M_S7 | M_FP | M_PC

fun mips_offset :: "mips_reg \<Rightarrow> nat" where
  "mips_offset M_SP = 0"
| "mips_offset M_S0 = 4"
| "mips_offset M_S1 = 8"
| "mips_offset M_S2 = 12"
| "mips_offset M_S3 = 16"
| "mips_offset M_S4 = 20"
| "mips_offset M_S5 = 24"
| "mips_offset M_S6 = 28"
| "mips_offset M_S7 = 32"
| "mips_offset M_FP = 36"
| "mips_offset M_PC = 40"

datatype sparc_reg = R_I0 | R_I1 | R_I2 | R_I3 | R_I4 | R_I5 | R_I6 | R_I7

fun sparc_offset :: "sparc_reg \<Rightarrow> nat" where
  "sparc_offset R_I0 = 4"
| "sparc_offset R_I1 = 8"
| "sparc_offset R_I2 = 12"
| "sparc_offset R_I3 = 16"
| "sparc_offset R_I4 = 20"
| "sparc_offset R_I5 = 24"
| "sparc_offset R_I6 = 28"
| "sparc_offset R_I7 = 32"

text \<open>The HP PA-RISC saves \<open>S0\<close> to \<open>S15\<close>, \<open>SP\<close> and \<open>PC\<close>.\<close>

datatype snake_reg = H_SP | H_S nat | H_PC

fun snake_offset :: "snake_reg \<Rightarrow> nat" where
  "snake_offset H_SP = 0"
| "snake_offset (H_S i) = 4 + 4 * i"
| "snake_offset H_PC = 68"

datatype i386_reg = X_ESP | X_EAX | X_EBX | X_ECX | X_EDX | X_EBP | X_ESI | X_EDI | X_PC

fun i386_offset :: "i386_reg \<Rightarrow> nat" where
  "i386_offset X_ESP = 0"
| "i386_offset X_EAX = 4"
| "i386_offset X_EBX = 8"
| "i386_offset X_ECX = 12"
| "i386_offset X_EDX = 16"
| "i386_offset X_EBP = 20"
| "i386_offset X_ESI = 24"
| "i386_offset X_EDI = 28"
| "i386_offset X_PC = 32"

section \<open>Indices into machineState\<close>

record planted =
  pc_index :: nat
  initial_pc_index :: nat
  initial_arg_index :: nat
  when_done_index :: nat
  startup_index :: nat

definition mips_indices :: planted where
  "mips_indices =
     \<lparr>pc_index = mips_offset M_PC div 4 - 1,
      initial_pc_index = mips_offset M_S0 div 4 - 1,
      initial_arg_index = mips_offset M_S1 div 4 - 1,
      when_done_index = mips_offset M_S2 div 4 - 1,
      startup_index = mips_offset M_S3 div 4 - 1\<rparr>"

definition sparc_indices :: planted where
  "sparc_indices =
     \<lparr>pc_index = sparc_offset R_I7 div 4 - 1,
      initial_pc_index = sparc_offset R_I0 div 4 - 1,
      initial_arg_index = sparc_offset R_I1 div 4 - 1,
      when_done_index = sparc_offset R_I2 div 4 - 1,
      startup_index = sparc_offset R_I3 div 4 - 1\<rparr>"

definition snake_indices :: planted where
  "snake_indices =
     \<lparr>pc_index = snake_offset H_PC div 4 - 1,
      initial_pc_index = snake_offset (H_S 0) div 4 - 1,
      initial_arg_index = snake_offset (H_S 1) div 4 - 1,
      when_done_index = snake_offset (H_S 2) div 4 - 1,
      startup_index = snake_offset (H_S 3) div 4 - 1\<rparr>"

definition i386_indices :: planted where
  "i386_indices =
     \<lparr>pc_index = i386_offset X_PC div 4 - 1,
      initial_pc_index = i386_offset X_ESI div 4 - 1,
      initial_arg_index = i386_offset X_EDX div 4 - 1,
      when_done_index = i386_offset X_EDI div 4 - 1,
      startup_index = i386_offset X_ECX div 4 - 1\<rparr>"

fun planted_indices :: "host \<Rightarrow> planted" where
  "planted_indices HOST_MIPS = mips_indices"
| "planted_indices HOST_SPARC = sparc_indices"
| "planted_indices HOST_SNAKE = snake_indices"
| "planted_indices HOST_i386 = i386_indices"

definition PCState :: "host \<Rightarrow> nat" where
  "PCState hst = pc_index (planted_indices hst)"

definition InitialPCState :: "host \<Rightarrow> nat" where
  "InitialPCState hst = initial_pc_index (planted_indices hst)"

definition InitialArgState :: "host \<Rightarrow> nat" where
  "InitialArgState hst = initial_arg_index (planted_indices hst)"

definition WhenDonePCState :: "host \<Rightarrow> nat" where
  "WhenDonePCState hst = when_done_index (planted_indices hst)"

definition StartupPCState :: "host \<Rightarrow> nat" where
  "StartupPCState hst = startup_index (planted_indices hst)"

lemmas indices_defs [simp] = mips_indices_def sparc_indices_def snake_indices_def i386_indices_def

lemma state_index_simps [simp]:
  "PCState HOST_MIPS = pc_index mips_indices" "PCState HOST_SPARC = pc_index sparc_indices" "PCState HOST_SNAKE = pc_index snake_indices" "PCState HOST_i386 = pc_index i386_indices"
  "InitialPCState HOST_MIPS = initial_pc_index mips_indices" "InitialPCState HOST_SPARC = initial_pc_index sparc_indices" "InitialPCState HOST_SNAKE = initial_pc_index snake_indices" "InitialPCState HOST_i386 = initial_pc_index i386_indices"
  "InitialArgState HOST_MIPS = initial_arg_index mips_indices" "InitialArgState HOST_SPARC = initial_arg_index sparc_indices" "InitialArgState HOST_SNAKE = initial_arg_index snake_indices" "InitialArgState HOST_i386 = initial_arg_index i386_indices"
  "WhenDonePCState HOST_MIPS = when_done_index mips_indices" "WhenDonePCState HOST_SPARC = when_done_index sparc_indices" "WhenDonePCState HOST_SNAKE = when_done_index snake_indices" "WhenDonePCState HOST_i386 = when_done_index i386_indices"
  "StartupPCState HOST_MIPS = startup_index mips_indices" "StartupPCState HOST_SPARC = startup_index sparc_indices" "StartupPCState HOST_SNAKE = startup_index snake_indices" "StartupPCState HOST_i386 = startup_index i386_indices"
  by (simp_all add: PCState_def InitialPCState_def InitialArgState_def WhenDonePCState_def StartupPCState_def)

text \<open>\<open>#define MachineStateSize 18\<close> and \<open>#define StackSize (4 * 1024)\<close> of \<open>thread.h\<close>.\<close>

definition MachineStateSize :: nat where
  "MachineStateSize = 18"

definition StackSize :: nat where
  "StackSize = 4 * 1024"

definition state_indices :: "host \<Rightarrow> nat list" where
  "state_indices hst =
     [PCState hst, StartupPCState hst, InitialPCState hst, InitialArgState hst, WhenDonePCState hst]"

lemma state_indices_distinct: "distinct (state_indices hst)"
  by (cases hst) (simp_all add: state_indices_def)

lemma state_indices_bound: "\<forall>i \<in> set (state_indices hst). i < MachineStateSize"
  by (cases hst) (simp_all add: state_indices_def MachineStateSize_def)

lemma state_indices_neq:
  "InitialPCState hst \<noteq> StartupPCState hst" "InitialArgState hst \<noteq> StartupPCState hst"
  "WhenDonePCState hst \<noteq> StartupPCState hst" "InitialArgState hst \<noteq> InitialPCState hst"
  "WhenDonePCState hst \<noteq> InitialPCState hst" "WhenDonePCState hst \<noteq> InitialArgState hst"
  by (cases hst; simp)+

end
