(* ===== verification/NachosList.thy ===== *)
theory NachosList
  imports Prelude
begin

text \<open>
  \<open>list.h\<close> and \<open>list.cc\<close>: singly linked lists of \<open>void *\<close> items with a sort key, as records
  in a heap. The operations are translated pointer by pointer: every field access goes
  through \<open>deref\<close>, so a dangling or \<open>NULL\<close> access is an error value and not a silent default.
\<close>

section \<open>Data: list elements, list objects and the heap\<close>

record ListElement =
  elem_next :: ptr
  elem_key :: int
  elem_item :: ptr

record ListObj =
  list_first :: ptr
  list_last :: ptr

text \<open>
  \<open>elems\<close> and \<open>listobjs\<close> are the live \<open>ListElement\<close>s and \<open>List\<close> objects; \<open>fresh\<close> is the
  next address that \<open>new\<close> returns.
\<close>

record lheap =
  elems :: "ptr \<Rightarrow> ListElement option"
  listobjs :: "ptr \<Rightarrow> ListObj option"
  fresh :: ptr

definition empty_heap :: lheap where
  "empty_heap = \<lparr>elems = Map.empty, listobjs = Map.empty, fresh = 1\<rparr>"

definition alloc :: "lheap \<Rightarrow> ptr \<times> lheap" where
  "alloc h = (fresh h, h\<lparr>fresh := Suc (fresh h)\<rparr>)"

section \<open>Field writes\<close>

definition set_next :: "ptr \<Rightarrow> ptr \<Rightarrow> lheap \<Rightarrow> lheap result" where
  "set_next p v h = bindE (deref (elems h) p)
     (\<lambda>e. Inr (h\<lparr>elems := (elems h)(p \<mapsto> e\<lparr>elem_next := v\<rparr>)\<rparr>))"

definition set_first :: "ptr \<Rightarrow> ptr \<Rightarrow> lheap \<Rightarrow> lheap result" where
  "set_first l v h = bindE (deref (listobjs h) l)
     (\<lambda>L. Inr (h\<lparr>listobjs := (listobjs h)(l \<mapsto> L\<lparr>list_first := v\<rparr>)\<rparr>))"

definition set_last :: "ptr \<Rightarrow> ptr \<Rightarrow> lheap \<Rightarrow> lheap result" where
  "set_last l v h = bindE (deref (listobjs h) l)
     (\<lambda>L. Inr (h\<lparr>listobjs := (listobjs h)(l \<mapsto> L\<lparr>list_last := v\<rparr>)\<rparr>))"

definition delete_elem :: "ptr \<Rightarrow> lheap \<Rightarrow> lheap result" where
  "delete_elem p h = bindE (deref (elems h) p)
     (\<lambda>_. Inr (h\<lparr>elems := (elems h)(p := None)\<rparr>))"

section \<open>The operations of list.cc\<close>

definition new_ListElement :: "ptr \<Rightarrow> int \<Rightarrow> lheap \<Rightarrow> ptr \<times> lheap" where
  "new_ListElement itemPtr sortKey h =
     (let (p, h1) = alloc h
      in (p, h1\<lparr>elems := (elems h1)(p \<mapsto>
           \<lparr>elem_next = NULL, elem_key = sortKey, elem_item = itemPtr\<rparr>)\<rparr>))"

definition new_List :: "lheap \<Rightarrow> ptr \<times> lheap" where
  "new_List h =
     (let (p, h1) = alloc h
      in (p, h1\<lparr>listobjs := (listobjs h1)(p \<mapsto> \<lparr>list_first = NULL, list_last = NULL\<rparr>)\<rparr>))"

definition List_IsEmpty :: "ptr \<Rightarrow> lheap \<Rightarrow> bool result" where
  "List_IsEmpty l h = bindE (deref (listobjs h) l)
     (\<lambda>L. if list_first L = NULL then Inr True else Inr False)"

definition List_Append :: "ptr \<Rightarrow> ptr \<Rightarrow> lheap \<Rightarrow> lheap result" where
  "List_Append l itm h =
     (let (element, h) = new_ListElement itm 0 h
      in bindE (List_IsEmpty l h) (\<lambda>isempty.
         if isempty then
           bindE (set_first l element h) (\<lambda>h.
           set_last l element h)
         else
           bindE (deref (listobjs h) l) (\<lambda>L.
           bindE (set_next (list_last L) element h) (\<lambda>h.
           set_last l element h))))"

definition List_Prepend :: "ptr \<Rightarrow> ptr \<Rightarrow> lheap \<Rightarrow> lheap result" where
  "List_Prepend l itm h =
     (let (element, h) = new_ListElement itm 0 h
      in bindE (List_IsEmpty l h) (\<lambda>isempty.
         if isempty then
           bindE (set_first l element h) (\<lambda>h.
           set_last l element h)
         else
           bindE (deref (listobjs h) l) (\<lambda>L.
           bindE (set_next element (list_first L) h) (\<lambda>h.
           set_first l element h))))"

text \<open>
  \<open>keyPtr\<close> is \<open>None\<close> for a \<open>NULL\<close> argument and \<open>Some v\<close> for a location that holds \<open>v\<close>;
  the result is the removed item, the location's contents afterwards and the new heap.
\<close>

definition List_SortedRemove :: "ptr \<Rightarrow> int option \<Rightarrow> lheap \<Rightarrow> (ptr \<times> int option \<times> lheap) result" where
  "List_SortedRemove l keyPtr h =
     bindE (deref (listobjs h) l) (\<lambda>L.
     let element = list_first L
     in bindE (List_IsEmpty l h) (\<lambda>isempty.
        if isempty then Inr (NULL, keyPtr, h)
        else
          bindE (deref (elems h) (list_first L)) (\<lambda>e.
          let thing = elem_item e
          in bindE (if list_first L = list_last L
                    then bindE (set_first l NULL h) (\<lambda>h. set_last l NULL h)
                    else bindE (deref (elems h) element) (\<lambda>e. set_first l (elem_next e) h)) (\<lambda>h.
             bindE (if keyPtr \<noteq> None
                    then bindE (deref (elems h) element) (\<lambda>e. Inr (Some (elem_key e)))
                    else Inr None) (\<lambda>keyPtr.
             bindE (delete_elem element h) (\<lambda>h.
             Inr (thing, keyPtr, h)))))))"

definition List_Remove :: "ptr \<Rightarrow> lheap \<Rightarrow> (ptr \<times> lheap) result" where
  "List_Remove l h = bindE (List_SortedRemove l None h) (\<lambda>(thing, _, h). Inr (thing, h))"

text \<open>
  The loops of \<open>SortedInsert\<close>, \<open>Mapcar\<close> and the destructor need not end on an ill-formed
  list; \<open>None\<close> is "does not return".
\<close>

partial_function (option) SortedInsert_loop ::
    "ptr \<Rightarrow> int \<Rightarrow> ptr \<Rightarrow> ptr \<Rightarrow> lheap \<Rightarrow> lheap result option" where
  "SortedInsert_loop l sortKey element pt h =
     (case deref (elems h) pt of Inl err \<Rightarrow> Some (Inl err)
      | Inr e \<Rightarrow>
        if elem_next e \<noteq> NULL then
          (case deref (elems h) (elem_next e) of Inl err \<Rightarrow> Some (Inl err)
           | Inr n \<Rightarrow>
             if sortKey < elem_key n then
               Some (bindE (set_next element (elem_next e) h) (\<lambda>h. set_next pt element h))
             else SortedInsert_loop l sortKey element (elem_next e) h)
        else
          Some (bindE (deref (listobjs h) l) (\<lambda>L.
                bindE (set_next (list_last L) element h) (\<lambda>h.
                set_last l element h))))"

definition List_SortedInsert :: "ptr \<Rightarrow> ptr \<Rightarrow> int \<Rightarrow> lheap \<Rightarrow> lheap result option" where
  "List_SortedInsert l itm sortKey h =
     (let (element, h) = new_ListElement itm sortKey h
      in case List_IsEmpty l h of Inl err \<Rightarrow> Some (Inl err)
         | Inr isempty \<Rightarrow>
           if isempty then
             Some (bindE (set_first l element h) (\<lambda>h. set_last l element h))
           else
             (case bindE (deref (listobjs h) l) (\<lambda>L. deref (elems h) (list_first L)) of
                Inl err \<Rightarrow> Some (Inl err)
              | Inr f \<Rightarrow>
                if sortKey < elem_key f then
                  Some (bindE (deref (listobjs h) l) (\<lambda>L.
                        bindE (set_next element (list_first L) h) (\<lambda>h.
                        set_first l element h)))
                else
                  (case deref (listobjs h) l of Inl err \<Rightarrow> Some (Inl err)
                   | Inr L \<Rightarrow> SortedInsert_loop l sortKey element (list_first L) h)))"

partial_function (option) Mapcar_loop ::
    "(ptr \<Rightarrow> lheap \<times> 's \<Rightarrow> (lheap \<times> 's) result) \<Rightarrow> ptr \<Rightarrow> lheap \<times> 's \<Rightarrow> (lheap \<times> 's) result option" where
  "Mapcar_loop func pt s =
     (if pt \<noteq> NULL then
        (case bindE (deref (elems (fst s)) pt) (\<lambda>e. func (elem_item e) s) of
           Inl err \<Rightarrow> Some (Inl err)
         | Inr s' \<Rightarrow>
           (case deref (elems (fst s')) pt of Inl err \<Rightarrow> Some (Inl err)
            | Inr e \<Rightarrow> Mapcar_loop func (elem_next e) s'))
      else Some (Inr s))"

definition List_Mapcar ::
    "ptr \<Rightarrow> (ptr \<Rightarrow> lheap \<times> 's \<Rightarrow> (lheap \<times> 's) result) \<Rightarrow> lheap \<times> 's \<Rightarrow> (lheap \<times> 's) result option" where
  "List_Mapcar l func s =
     (case deref (listobjs (fst s)) l of Inl err \<Rightarrow> Some (Inl err)
      | Inr L \<Rightarrow> Mapcar_loop func (list_first L) s)"

partial_function (option) List_destructor :: "ptr \<Rightarrow> lheap \<Rightarrow> lheap result option" where
  "List_destructor l h =
     (case List_Remove l h of Inl err \<Rightarrow> Some (Inl err)
      | Inr (thing, h') \<Rightarrow> if thing \<noteq> NULL then List_destructor l h' else Some (Inr h'))"

text \<open>\<open>delete list\<close>: the destructor runs, then the \<open>List\<close> object itself is freed.\<close>

definition delete_List :: "ptr \<Rightarrow> lheap \<Rightarrow> lheap result option" where
  "delete_List l h =
     (case List_destructor l h of
        None \<Rightarrow> None
      | Some (Inl err) \<Rightarrow> Some (Inl err)
      | Some (Inr h') \<Rightarrow> Some (Inr (h'\<lparr>listobjs := (listobjs h')(l := None)\<rparr>)))"

end
