(* ===== verification/ListSpec.thy ===== *)
theory ListSpec
  imports NachosList "HOL-Library.Multiset"
begin

text \<open>
  What the heap lists of \<open>NachosList\<close> stand for: every live \<open>List\<close> object denotes a HOL list
  of entries (key and item). \<open>heap_ok\<close> is the well-formedness invariant of the whole heap
  (lists are disjoint, acyclic, end in \<open>NULL\<close>, \<open>last\<close> points to the last element, and
  every live element is on some list), and each operation is shown to keep it and to act on
  the entries as its comment in \<open>list.cc\<close> says.
\<close>

section \<open>Paths in the heap\<close>

primrec seg :: "(ptr \<Rightarrow> ListElement option) \<Rightarrow> ptr \<Rightarrow> ptr list \<Rightarrow> ptr \<Rightarrow> bool" where
  "seg E p [] q \<longleftrightarrow> p = q"
| "seg E p (a # as) q \<longleftrightarrow> p = a \<and> a \<noteq> NULL \<and>
     (case E a of None \<Rightarrow> False | Some e \<Rightarrow> seg E (elem_next e) as q)"

definition head_of :: "ptr list \<Rightarrow> ptr" where
  "head_of ps = (case ps of [] \<Rightarrow> NULL | p # _ \<Rightarrow> p)"

definition last_of :: "ptr list \<Rightarrow> ptr" where
  "last_of ps = (if ps = [] then NULL else last ps)"

lemma head_of_simps [simp]: "head_of [] = NULL" "head_of (p # ps) = p"
  by (simp_all add: head_of_def)

lemma last_of_simps [simp]: "last_of [] = NULL" "ps \<noteq> [] \<Longrightarrow> last_of ps = last ps"
  by (simp_all add: last_of_def)

lemma seg_append: "seg E p (as @ bs) q \<longleftrightarrow> (\<exists>r. seg E p as r \<and> seg E r bs q)"
  by (induction as arbitrary: p) (auto split: option.splits)

lemma seg_upd [simp]: "u \<notin> set as \<Longrightarrow> seg (E(u := x)) p as q = seg E p as q"
  by (induction as arbitrary: p) (auto split: option.splits)

lemma seg_head: "seg E p ps NULL \<Longrightarrow> p = head_of ps"
  by (cases ps) auto

lemma seg_dom: "seg E p ps q \<Longrightarrow> a \<in> set ps \<Longrightarrow> a \<noteq> NULL \<and> (\<exists>e. E a = Some e)"
  by (induction ps arbitrary: p) (auto split: option.splits)

lemma seg_unique: "seg E p as NULL \<Longrightarrow> seg E p bs NULL \<Longrightarrow> as = bs"
proof (induction as arbitrary: p bs)
  case Nil
  then show ?case by (cases bs) auto
next
  case (Cons a as)
  then show ?case by (cases bs) (auto split: option.splits)
qed

lemma seg_distinct: "seg E p as NULL \<Longrightarrow> distinct as"
proof (induction as arbitrary: p)
  case Nil
  show ?case by simp
next
  case (Cons a as)
  then obtain e where e: "E a = Some e" "seg E (elem_next e) as NULL" "a \<noteq> NULL"
    by (auto split: option.splits)
  have "a \<notin> set as"
  proof
    assume "a \<in> set as"
    then obtain us vs where as: "as = us @ a # vs" by (auto simp: in_set_conv_decomp)
    with e have "seg E a (a # vs) NULL" by (auto simp: seg_append split: option.splits)
    moreover from e have "seg E a (a # as) NULL" by simp
    ultimately have "a # vs = a # as" by (rule seg_unique)
    with as show False by simp
  qed
  with Cons.IH e(2) show ?case by simp
qed

lemma seg_next:
  assumes "seg E p (as @ a # bs) NULL" and "E a = Some e"
  shows "elem_next e = head_of bs"
  using assms by (auto simp: seg_append dest: seg_head split: option.splits)

section \<open>What a list object denotes\<close>

fun walk :: "nat \<Rightarrow> (ptr \<Rightarrow> ListElement option) \<Rightarrow> ptr \<Rightarrow> ptr list" where
  "walk 0 E p = []"
| "walk (Suc n) E p =
     (if p = NULL then []
      else case E p of None \<Rightarrow> [] | Some e \<Rightarrow> p # walk n E (elem_next e))"

definition nodes :: "lheap \<Rightarrow> ptr \<Rightarrow> ptr list" where
  "nodes h l = (case listobjs h l of None \<Rightarrow> []
                | Some L \<Rightarrow> walk (fresh h) (elems h) (list_first L))"

definition entry :: "lheap \<Rightarrow> ptr \<Rightarrow> int \<times> ptr" where
  "entry h p = (case elems h p of None \<Rightarrow> (0, NULL) | Some e \<Rightarrow> (elem_key e, elem_item e))"

definition entries :: "lheap \<Rightarrow> ptr \<Rightarrow> (int \<times> ptr) list" where
  "entries h l = map (entry h) (nodes h l)"

definition items :: "lheap \<Rightarrow> ptr \<Rightarrow> ptr list" where
  "items h l = map snd (entries h l)"

definition live_list :: "lheap \<Rightarrow> ptr \<Rightarrow> bool" where
  "live_list h l \<longleftrightarrow> listobjs h l \<noteq> None"

lemma walk_seg: "seg E p ps NULL \<Longrightarrow> length ps \<le> n \<Longrightarrow> walk n E p = ps"
proof (induction ps arbitrary: p n)
  case Nil
  then show ?case by (cases n) auto
next
  case (Cons a ps)
  then show ?case by (cases n) (auto split: option.splits)
qed

section \<open>Well-formed heaps\<close>

definition list_at :: "lheap \<Rightarrow> ListObj \<Rightarrow> ptr list \<Rightarrow> bool" where
  "list_at h L ps \<longleftrightarrow> seg (elems h) (list_first L) ps NULL \<and> list_last L = last_of ps"

definition rep :: "lheap \<Rightarrow> (ptr \<Rightarrow> ptr list) \<Rightarrow> bool" where
  "rep h N \<longleftrightarrow> 0 < fresh h \<and>
     (\<forall>l L. listobjs h l = Some L \<longrightarrow> l \<noteq> NULL \<and> l < fresh h \<and> list_at h L (N l)) \<and>
     (\<forall>l. listobjs h l = None \<longrightarrow> N l = []) \<and>
     (\<forall>l l'. l \<noteq> l' \<longrightarrow> set (N l) \<inter> set (N l') = {}) \<and>
     (\<forall>p. elems h p \<noteq> None \<longleftrightarrow> (\<exists>l. p \<in> set (N l))) \<and>
     (\<forall>p. elems h p \<noteq> None \<longrightarrow> p < fresh h)"

definition heap_ok :: "lheap \<Rightarrow> bool" where
  "heap_ok h \<longleftrightarrow> rep h (nodes h)"

lemma repD:
  assumes "rep h N"
  shows "0 < fresh h"
    and "listobjs h l = Some L \<Longrightarrow> l \<noteq> NULL"
    and "listobjs h l = Some L \<Longrightarrow> l < fresh h"
    and "listobjs h l = Some L \<Longrightarrow> seg (elems h) (list_first L) (N l) NULL"
    and "listobjs h l = Some L \<Longrightarrow> list_last L = last_of (N l)"
    and "listobjs h l = None \<Longrightarrow> N l = []"
    and "l \<noteq> l' \<Longrightarrow> p \<in> set (N l) \<Longrightarrow> p \<notin> set (N l')"
    and "elems h p \<noteq> None \<longleftrightarrow> (\<exists>l. p \<in> set (N l))"
    and "elems h p \<noteq> None \<Longrightarrow> p < fresh h"
  using assms unfolding rep_def list_at_def by blast+

lemma rep_nodes_fresh:
  assumes "rep h N" and "p \<in> set (N l)"
  shows "p < fresh h" and "p \<noteq> NULL" and "\<exists>e. elems h p = Some e"
proof -
  have live: "elems h p \<noteq> None" using repD(8) [OF assms(1)] assms(2) by blast
  with assms(1) show "p < fresh h" by (rule repD(9))
  from live show "\<exists>e. elems h p = Some e" by auto
  from assms have "listobjs h l \<noteq> None" by (auto dest: repD(6))
  then obtain L where "listobjs h l = Some L" by auto
  with assms show "p \<noteq> NULL" by (auto dest: repD(4) seg_dom)
qed

lemma rep_nodes: "rep h N \<Longrightarrow> nodes h = N"
proof
  fix l assume rep: "rep h N"
  show "nodes h l = N l"
  proof (cases "listobjs h l")
    case None
    with rep show ?thesis by (simp add: nodes_def repD(6))
  next
    case (Some L)
    with rep have seg: "seg (elems h) (list_first L) (N l) NULL" by (rule repD(4))
    have "set (N l) \<subseteq> {..<fresh h}" using rep by (auto dest: rep_nodes_fresh)
    then have "card (set (N l)) \<le> fresh h" using card_mono [of "{..<fresh h}"] by force
    then have "length (N l) \<le> fresh h" using seg_distinct [OF seg] by (simp add: distinct_card)
    with Some seg show ?thesis by (simp add: nodes_def walk_seg)
  qed
qed

lemma rep_heap_ok: "rep h N \<Longrightarrow> heap_ok h"
  by (simp add: heap_ok_def rep_nodes)

lemma heap_ok_empty [simp]: "heap_ok empty_heap"
  by (rule rep_heap_ok [where N = "\<lambda>_. []"]) (simp add: rep_def empty_heap_def)

section \<open>Inserting one element\<close>

text \<open>
  All three insertions put one new element between a prefix \<open>xs\<close> and a suffix \<open>ys\<close> of the
  list. \<open>splice\<close> is that heap, written out once.
\<close>

definition splice :: "lheap \<Rightarrow> ptr \<Rightarrow> ptr list \<Rightarrow> ptr list \<Rightarrow> ptr \<Rightarrow> int \<Rightarrow> lheap" where
  "splice h l xs ys itm k =
     (let p = fresh h;
          E = (elems h)(p \<mapsto> \<lparr>elem_next = head_of ys, elem_key = k, elem_item = itm\<rparr>)
      in h\<lparr>elems := (if xs = [] then E
                     else E(last xs \<mapsto> (the (elems h (last xs)))\<lparr>elem_next := p\<rparr>)),
           listobjs := (listobjs h)(l \<mapsto> \<lparr>list_first = head_of (xs @ p # ys),
                                          list_last = last_of (xs @ p # ys)\<rparr>),
           fresh := Suc (fresh h)\<rparr>)"

lemma seg_splice:
  assumes seg: "seg E f (xs @ ys) NULL" and new: "p \<notin> set (xs @ ys)" "p \<noteq> NULL"
  shows "seg (if xs = [] then E(p \<mapsto> n\<lparr>elem_next := head_of ys\<rparr>)
              else E(p \<mapsto> n\<lparr>elem_next := head_of ys\<rparr>, last xs \<mapsto> (the (E (last xs)))\<lparr>elem_next := p\<rparr>))
             (head_of (xs @ p # ys)) (xs @ p # ys) NULL"
proof (cases xs rule: rev_cases)
  case Nil
  with seg new show ?thesis by (auto dest: seg_head)
next
  case (snoc as a)
  from seg_distinct [OF seg] have dist: "distinct (as @ a # ys)" by (simp add: snoc)
  from seg snoc have "seg E f (as @ a # ys) NULL" by simp
  then obtain e where as: "seg E f as a" and a: "a \<noteq> NULL" "E a = Some e"
    and ys: "seg E (elem_next e) ys NULL"
    by (auto simp: seg_append split: option.splits)
  have f: "head_of (as @ a # p # ys) = f" using as by (cases as) simp_all
  have "head_of ys = elem_next e" using ys by (auto dest: seg_head)
  then show ?thesis
    using dist new a as ys by (auto simp: f snoc seg_append)
qed

lemma rep_splice:
  assumes rep: "rep h N" and l: "listobjs h l = Some L" and N: "N l = xs @ ys"
  shows "rep (splice h l xs ys itm k) (N(l := xs @ fresh h # ys))"
proof -
  let ?p = "fresh h" and ?h = "splice h l xs ys itm k" and ?N = "N(l := xs @ fresh h # ys)"
  have seg: "seg (elems h) (list_first L) (xs @ ys) NULL" using repD(4) [OF rep l] N by simp
  have new: "\<And>m. ?p \<notin> set (N m)" using rep by (auto dest: rep_nodes_fresh(1))
  have p0: "?p \<noteq> NULL" using repD(1) [OF rep] by simp
  have ins: "seg (elems ?h) (head_of (xs @ ?p # ys)) (xs @ ?p # ys) NULL"
    using seg_splice [OF seg, of ?p "\<lparr>elem_next = NULL, elem_key = k, elem_item = itm\<rparr>"] new [of l] p0 N
    by (cases "xs = []") (simp_all add: splice_def Let_def)
  have lastN: "xs \<noteq> [] \<Longrightarrow> last xs \<in> set (N l)" using N by simp
  have other: "seg (elems ?h) f (N m) NULL = seg (elems h) f (N m) NULL" if "m \<noteq> l" for m f
    using that new [of m] lastN repD(7) [OF rep, of l m "last xs"]
    by (auto simp: splice_def Let_def)
  have dom: "elems ?h q \<noteq> None \<longleftrightarrow> elems h q \<noteq> None \<or> q = ?p" for q
    using rep_nodes_fresh(3) [OF rep lastN] by (auto simp: splice_def Let_def)
  have objs: "listobjs ?h = (listobjs h)(l \<mapsto> \<lparr>list_first = head_of (xs @ ?p # ys), list_last = last_of (xs @ ?p # ys)\<rparr>)"
    and fr: "fresh ?h = Suc ?p" by (simp_all add: splice_def Let_def)
  have setN: "set (?N m) = (if m = l then insert ?p (set (N m)) else set (N m))" for m
    using N by auto
  have mem: "(\<exists>m. q \<in> set (?N m)) \<longleftrightarrow> (\<exists>m. q \<in> set (N m)) \<or> q = ?p" for q
    unfolding setN by auto
  show ?thesis
    unfolding rep_def
  proof (intro conjI allI impI)
    show "0 < fresh ?h" by (simp add: fr)
  next
    fix m M assume "listobjs ?h m = Some M"
    then show "m \<noteq> NULL" "m < fresh ?h" "list_at ?h M (?N m)"
      using rep l ins other by (auto simp: objs fr list_at_def repD(4,5) less_SucI
          dest: repD(2,3) split: if_splits)
  next
    fix m assume "listobjs ?h m = None"
    then show "?N m = []" using rep by (auto simp: objs repD(6) split: if_splits)
  next
    fix m m' :: ptr assume "m \<noteq> m'"
    then show "set (?N m) \<inter> set (?N m') = {}"
      unfolding setN using new repD(7) [OF rep] by (auto simp: disjoint_iff)
  next
    fix q show "elems ?h q \<noteq> None \<longleftrightarrow> (\<exists>m. q \<in> set (?N m))"
      unfolding dom mem using repD(8) [OF rep] by blast
  next
    fix q assume "elems ?h q \<noteq> None"
    then have "elems h q \<noteq> None \<or> q = ?p" unfolding dom .
    then show "q < fresh ?h" using repD(9) [OF rep, of q] by (auto simp: fr)
  qed
qed


section \<open>Removing the first element\<close>

definition behead :: "lheap \<Rightarrow> ptr \<Rightarrow> ptr list \<Rightarrow> lheap" where
  "behead h l ps =
     h\<lparr>elems := (elems h)(hd ps := None),
       listobjs := (listobjs h)(l \<mapsto> \<lparr>list_first = head_of (tl ps), list_last = last_of (tl ps)\<rparr>)\<rparr>"

lemma rep_behead:
  assumes rep: "rep h N" and l: "listobjs h l = Some L" and N: "N l = p # ps"
  shows "rep (behead h l (N l)) (N(l := ps))"
proof -
  let ?h = "behead h l (N l)" and ?N = "N(l := ps)"
  have seg: "seg (elems h) (list_first L) (p # ps) NULL" using repD(4) [OF rep l] N by simp
  then obtain e where e: "elems h p = Some e" "seg (elems h) (elem_next e) ps NULL"
    by (auto split: option.splits)
  have p: "p \<notin> set ps" "seg (elems h) (head_of ps) ps NULL"
    using seg_distinct [OF seg] e(2) seg_head [OF e(2)] by auto
  have other: "p \<notin> set (N m)" if "m \<noteq> l" for m using that repD(7) [OF rep, of l m p] N by auto
  have setN: "set (?N m) = set (N m) - {p}" for m
    using p N other [of m] by auto
  have objs: "listobjs ?h = (listobjs h)(l \<mapsto> \<lparr>list_first = head_of ps, list_last = last_of ps\<rparr>)"
    and el: "elems ?h = (elems h)(p := None)" and fr: "fresh ?h = fresh h"
    by (simp_all add: behead_def N)
  show ?thesis
    unfolding rep_def
  proof (intro conjI allI impI)
    show "0 < fresh ?h" using repD(1) [OF rep] by (simp add: fr)
  next
    fix m M assume "listobjs ?h m = Some M"
    then show "m \<noteq> NULL" "m < fresh ?h" "list_at ?h M (?N m)"
      using rep l p other by (auto simp: objs fr el list_at_def repD(4,5)
          dest: repD(2,3) split: if_splits)
  next
    fix m assume "listobjs ?h m = None"
    then show "?N m = []" using rep by (auto simp: objs repD(6) split: if_splits)
  next
    fix m m' :: ptr assume "m \<noteq> m'"
    then show "set (?N m) \<inter> set (?N m') = {}"
      unfolding setN using repD(7) [OF rep] by (auto simp: disjoint_iff)
  next
    fix q show "elems ?h q \<noteq> None \<longleftrightarrow> (\<exists>m. q \<in> set (?N m))"
      unfolding setN el using repD(8) [OF rep, of q] by auto
  next
    fix q assume "elems ?h q \<noteq> None"
    then show "q < fresh ?h" using repD(9) [OF rep, of q] by (auto simp: fr el split: if_splits)
  qed
qed

section \<open>The operations are these heaps\<close>

lemma alloc_simps [simp]:
  "new_ListElement x k h =
     (fresh h, h\<lparr>elems := (elems h)(fresh h \<mapsto> \<lparr>elem_next = NULL, elem_key = k, elem_item = x\<rparr>),
                 fresh := Suc (fresh h)\<rparr>)"
  by (simp add: new_ListElement_def alloc_def)

lemma List_IsEmpty_rep:
  assumes rep: "rep h N" and l: "listobjs h l = Some L"
  shows "List_IsEmpty l h = Inr (N l = [])"
proof -
  have "(list_first L = NULL) = (N l = [])"
    using repD(4) [OF rep l] by (cases "N l") auto
  then show ?thesis using l by (auto simp: List_IsEmpty_def)
qed

lemma rep_ends:
  assumes rep: "rep h N" and l: "listobjs h l = Some L"
  shows "list_first L = head_of (N l)" and "list_last L = last_of (N l)"
  using repD(4,5) [OF rep l] by (auto dest: seg_head)

lemma ListObj_upd [simp]:
  "L\<lparr>list_first := a, list_last := b\<rparr> = \<lparr>list_first = a, list_last = b\<rparr>"
  "L\<lparr>list_first := a\<rparr> = \<lparr>list_first = a, list_last = list_last L\<rparr>"
  "L\<lparr>list_last := b\<rparr> = \<lparr>list_first = list_first L, list_last = b\<rparr>" for L :: ListObj
  by (cases L, simp)+

text \<open>\<open>IsEmpty\<close> does not look at the allocator or at the elements.\<close>

lemma List_IsEmpty_frame [simp]:
  "List_IsEmpty l (h\<lparr>elems := E, fresh := n\<rparr>) = List_IsEmpty l h"
  by (simp add: List_IsEmpty_def)

lemma List_Append_rep:
  assumes rep: "rep h N" and l: "listobjs h l = Some L"
  shows "List_Append l x h = Inr (splice h l (N l) [] x 0)"
proof (cases "N l = []")
  case True
  then show ?thesis using l
    by (simp add: List_Append_def List_IsEmpty_rep [OF rep l] set_first_def set_last_def splice_def Let_def)
next
  case False
  have "last (N l) \<in> set (N l)" using False by simp
  then obtain e where e: "elems h (last (N l)) = Some e" and ne: "last (N l) \<noteq> fresh h"
    using rep_nodes_fresh(1,3) [OF rep, of "last (N l)" l] by auto
  have "\<exists>p ps. N l = p # ps" using False by (cases "N l") auto
  then show ?thesis using l False e ne
    by (auto simp: List_Append_def List_IsEmpty_rep [OF rep l] set_next_def set_last_def splice_def
        rep_ends [OF rep l] Let_def intro!: lheap.equality)
qed

lemma List_Prepend_rep:
  assumes rep: "rep h N" and l: "listobjs h l = Some L"
  shows "List_Prepend l x h = Inr (splice h l [] (N l) x 0)"
proof (cases "N l = []")
  case True
  then show ?thesis using l
    by (simp add: List_Prepend_def List_IsEmpty_rep [OF rep l] set_first_def set_last_def splice_def Let_def)
next
  case False
  then show ?thesis using l
    by (auto simp: List_Prepend_def List_IsEmpty_rep [OF rep l] set_next_def set_first_def splice_def
        rep_ends [OF rep l] Let_def intro!: lheap.equality)
qed

lemma List_SortedRemove_rep:
  assumes rep: "rep h N" and l: "listobjs h l = Some L"
  shows "List_SortedRemove l kp h =
     (case N l of [] \<Rightarrow> Inr (NULL, kp, h)
      | p # ps \<Rightarrow> Inr (snd (entry h p), if kp = None then None else Some (fst (entry h p)),
                      behead h l (N l)))"
proof (cases "N l")
  case Nil
  then show ?thesis using l by (simp add: List_SortedRemove_def List_IsEmpty_rep [OF rep l])
next
  case (Cons p ps)
  have seg: "seg (elems h) p (p # ps) NULL" using repD(4) [OF rep l] Cons by simp
  then obtain e where e: "elems h p = Some e" "elem_next e = head_of ps"
    by (auto split: option.splits dest: seg_head)
  have "p \<notin> set ps" using seg_distinct [OF seg] by simp
  then have "p = last_of (p # ps) \<longleftrightarrow> ps = []" by (cases ps rule: rev_cases) auto
  then show ?thesis using l e Cons rep_ends [OF rep l]
    by (auto simp: List_SortedRemove_def List_IsEmpty_rep [OF rep l] set_first_def set_last_def
        delete_elem_def behead_def entry_def intro!: lheap.equality)
qed


section \<open>Sorted insertion\<close>

lemma SortedInsert_loop_rep:
  assumes rep: "rep h N" and l: "listobjs h l = Some L"
    and N: "N l = xs @ q # ys"
    and small: "\<forall>r \<in> set (xs @ [q]). fst (entry h r) \<le> k"
  shows "SortedInsert_loop l k (fresh h) q (snd (new_ListElement x k h)) =
     Some (Inr (splice h l (takeWhile (\<lambda>r. fst (entry h r) \<le> k) (N l))
                           (dropWhile (\<lambda>r. fst (entry h r) \<le> k) (N l)) x k))"
  using N small
proof (induction ys arbitrary: xs q)
  case Nil
  have seg: "seg (elems h) (list_first L) (xs @ [q]) NULL" using repD(4) [OF rep l] Nil(1) by simp
  obtain e where e: "elems h q = Some e" "q \<noteq> fresh h"
    using rep_nodes_fresh(1,3) [OF rep, of q l] Nil(1) by auto
  have "elem_next e = NULL" using seg_next [OF seg e(1)] by simp
  moreover have "takeWhile (\<lambda>r. fst (entry h r) \<le> k) (N l) = xs @ [q]"
    "dropWhile (\<lambda>r. fst (entry h r) \<le> k) (N l) = []"
    using Nil by (auto simp: takeWhile_eq_all_conv)
  ultimately show ?case using l e Nil(1) rep_ends [OF rep l]
    by (subst SortedInsert_loop.simps)
       (cases xs; simp add: set_next_def set_last_def splice_def Let_def)
next
  case (Cons y ys)
  let ?P = "\<lambda>r. fst (entry h r) \<le> k"
  have seg: "seg (elems h) (list_first L) (xs @ q # y # ys) NULL"
    using repD(4) [OF rep l] Cons.prems(1) by simp
  obtain e where e: "elems h q = Some e" "q \<noteq> fresh h"
    using rep_nodes_fresh(1,3) [OF rep, of q l] Cons.prems(1) by auto
  obtain n where n: "elems h y = Some n" "y \<noteq> fresh h" "y \<noteq> NULL"
    using rep_nodes_fresh [OF rep, of y l] Cons.prems(1) by auto
  have next_q: "elem_next e = y" using seg_next [OF seg e(1)] by simp
  show ?case
  proof (cases "k < elem_key n")
    case True
    then have "takeWhile ?P (N l) = xs @ [q]" "dropWhile ?P (N l) = y # ys"
      using Cons.prems n(1) by (auto simp: takeWhile_append dropWhile_append entry_def)
    moreover have "(listobjs h)(l \<mapsto> \<lparr>list_first = head_of (xs @ q # fresh h # y # ys),
        list_last = last (y # ys)\<rparr>) = listobjs h"
      using rep_ends [OF rep l] Cons.prems(1) l by (cases xs; cases L) (auto simp: fun_upd_idem)
    ultimately show ?thesis using l e n next_q True
      by (subst SortedInsert_loop.simps)
         (auto simp: set_next_def splice_def Let_def intro!: lheap.equality)
  next
    case False
    have "\<forall>r \<in> set ((xs @ [q]) @ [y]). fst (entry h r) \<le> k"
      using Cons.prems(2) False n(1) by (auto simp: entry_def)
    with Cons.IH [of "xs @ [q]" y] Cons.prems(1) False e n next_q show ?thesis
      by (subst SortedInsert_loop.simps) simp
  qed
qed

lemma List_SortedInsert_rep:
  assumes rep: "rep h N" and l: "listobjs h l = Some L"
  shows "List_SortedInsert l x k h =
     Some (Inr (splice h l (takeWhile (\<lambda>r. fst (entry h r) \<le> k) (N l))
                           (dropWhile (\<lambda>r. fst (entry h r) \<le> k) (N l)) x k))"
proof (cases "N l")
  case Nil
  then show ?thesis using l
    by (simp add: List_SortedInsert_def List_IsEmpty_rep [OF rep l] set_first_def set_last_def
        splice_def Let_def)
next
  case (Cons q ys)
  obtain e where e: "elems h q = Some e" "q \<noteq> fresh h"
    using rep_nodes_fresh(1,3) [OF rep, of q l] Cons by auto
  have first: "list_first L = q" and last: "list_last L = last (q # ys)"
    using rep_ends [OF rep l] Cons by simp_all
  show ?thesis
  proof (cases "k < elem_key e")
    case True
    then show ?thesis using l e Cons first last
      by (auto simp: List_SortedInsert_def List_IsEmpty_rep [OF rep l] set_next_def set_first_def
          splice_def entry_def Let_def intro!: lheap.equality)
  next
    case False
    then have "\<forall>r \<in> set ([] @ [q]). fst (entry h r) \<le> k" using e by (simp add: entry_def)
    from SortedInsert_loop_rep [OF rep l _ this, of ys x] Cons
    show ?thesis using False l e first
      by (simp add: List_SortedInsert_def List_IsEmpty_rep [OF rep l])
  qed
qed


section \<open>Effect on the denoted lists\<close>

text \<open>
  \<open>lists_of h\<close> is the abstract state: for every live \<open>List\<close> object its entries. It is what
  the other components know of a heap.
\<close>

definition lists_of :: "lheap \<Rightarrow> ptr \<Rightarrow> (int \<times> ptr) list option" where
  "lists_of h l = (if live_list h l then Some (entries h l) else None)"

definition kinsert :: "int \<Rightarrow> ptr \<Rightarrow> (int \<times> ptr) list \<Rightarrow> (int \<times> ptr) list" where
  "kinsert k x es = takeWhile (\<lambda>e. fst e \<le> k) es @ (k, x) # dropWhile (\<lambda>e. fst e \<le> k) es"

lemma lists_of_SomeD:
  assumes "lists_of h l = Some es"
  obtains L where "listobjs h l = Some L" and "es = map (entry h) (nodes h l)"
  using assms by (auto simp: lists_of_def live_list_def entries_def split: if_splits)

lemma lists_of_live: "lists_of h l = None \<longleftrightarrow> \<not> live_list h l"
  by (simp add: lists_of_def)

lemma entry_splice:
  assumes rep: "rep h N" and N: "N l = xs @ ys" and r: "r \<in> set (N m)"
  shows "entry (splice h l xs ys x k) r = entry h r"
proof -
  have "r \<noteq> fresh h" using rep_nodes_fresh(1) [OF rep r] by simp
  moreover have "\<exists>e. elems h (last xs) = Some e" if "xs \<noteq> []"
    using rep_nodes_fresh(3) [OF rep, of "last xs" l] N that by simp
  ultimately show ?thesis by (auto simp: entry_def splice_def Let_def)
qed

lemma entry_splice_new:
  assumes rep: "rep h N" and N: "N l = xs @ ys"
  shows "entry (splice h l xs ys x k) (fresh h) = (k, x)"
proof -
  have "xs = [] \<or> last xs \<noteq> fresh h"
    using rep_nodes_fresh(1) [OF rep, of "last xs" l] N by (cases xs rule: rev_cases) auto
  then show ?thesis by (auto simp: entry_def splice_def Let_def)
qed

lemma lists_of_splice:
  assumes rep: "rep h N" and l: "listobjs h l = Some L" and N: "N l = xs @ ys"
  shows "lists_of (splice h l xs ys x k) =
     (lists_of h)(l \<mapsto> map (entry h) xs @ (k, x) # map (entry h) ys)"
proof
  fix m
  let ?h = "splice h l xs ys x k"
  note rep' = rep_splice [OF rep l N, of x k]
  have live: "live_list ?h m = live_list h m" for m
    using l by (simp add: live_list_def splice_def Let_def)
  have old: "map (entry ?h) zs = map (entry h) zs" if "set zs \<subseteq> set (N m)" for zs m
    using that entry_splice [OF rep N] by auto
  have "live_list h l" using l by (simp add: live_list_def)
  then show "lists_of ?h m = ((lists_of h)(l \<mapsto> map (entry h) xs @ (k, x) # map (entry h) ys)) m"
    using old [of xs l] old [of ys l] old [of "N m" m] N
    by (auto simp: lists_of_def live entries_def rep_nodes [OF rep] rep_nodes [OF rep']
        entry_splice_new [OF rep N])
qed

lemma lists_of_behead:
  assumes rep: "rep h N" and l: "listobjs h l = Some L" and N: "N l = p # ps"
  shows "lists_of (behead h l (N l)) = (lists_of h)(l \<mapsto> map (entry h) ps)"
proof
  fix m
  let ?h = "behead h l (N l)"
  note rep' = rep_behead [OF rep l N]
  have live: "live_list ?h m = live_list h m" for m
    using l by (simp add: live_list_def behead_def)
  have "distinct (N l)" using repD(4) [OF rep l] by (rule seg_distinct)
  then have "p \<notin> set ps" using N by simp
  moreover have "p \<notin> set (N m)" if "m \<noteq> l" using that repD(7) [OF rep, of l m p] N by auto
  ultimately have old: "map (entry ?h) ps = map (entry h) ps"
    "m \<noteq> l \<Longrightarrow> map (entry ?h) (N m) = map (entry h) (N m)"
    by (auto simp: entry_def behead_def N)
  have "live_list h l" using l by (simp add: live_list_def)
  then show "lists_of ?h m = ((lists_of h)(l \<mapsto> map (entry h) ps)) m"
    using old
    by (auto simp: lists_of_def live entries_def rep_nodes [OF rep] rep_nodes [OF rep'])
qed

lemma fresh_splice [simp]: "fresh (splice h l xs ys x k) = Suc (fresh h)"
  by (simp add: splice_def Let_def)

lemma fresh_behead [simp]: "fresh (behead h l ps) = fresh h"
  by (simp add: behead_def)

lemma Append_spec:
  assumes ok: "heap_ok h" and l: "lists_of h l = Some es"
  shows "\<exists>h'. List_Append l x h = Inr h' \<and> heap_ok h' \<and>
     lists_of h' = (lists_of h)(l \<mapsto> es @ [(0, x)]) \<and> fresh h \<le> fresh h'"
proof -
  from l obtain L where L: "listobjs h l = Some L" and es: "es = map (entry h) (nodes h l)"
    by (rule lists_of_SomeD)
  note rep = ok [unfolded heap_ok_def]
  show ?thesis
    using rep_splice [OF rep L, of "nodes h l" "[]"] lists_of_splice [OF rep L, of "nodes h l" "[]"]
    by (auto simp: List_Append_rep [OF rep L] es intro: rep_heap_ok)
qed

lemma Prepend_spec:
  assumes ok: "heap_ok h" and l: "lists_of h l = Some es"
  shows "\<exists>h'. List_Prepend l x h = Inr h' \<and> heap_ok h' \<and>
     lists_of h' = (lists_of h)(l \<mapsto> (0, x) # es) \<and> fresh h \<le> fresh h'"
proof -
  from l obtain L where L: "listobjs h l = Some L" and es: "es = map (entry h) (nodes h l)"
    by (rule lists_of_SomeD)
  note rep = ok [unfolded heap_ok_def]
  show ?thesis
    using rep_splice [OF rep L, of "[]" "nodes h l"] lists_of_splice [OF rep L, of "[]" "nodes h l"]
    by (auto simp: List_Prepend_rep [OF rep L] es intro: rep_heap_ok)
qed

lemma SortedInsert_spec:
  assumes ok: "heap_ok h" and l: "lists_of h l = Some es"
  shows "\<exists>h'. List_SortedInsert l x k h = Some (Inr h') \<and> heap_ok h' \<and>
     lists_of h' = (lists_of h)(l \<mapsto> kinsert k x es) \<and> fresh h \<le> fresh h'"
proof -
  from l obtain L where L: "listobjs h l = Some L" and es: "es = map (entry h) (nodes h l)"
    by (rule lists_of_SomeD)
  let ?P = "\<lambda>r. fst (entry h r) \<le> k"
  note rep = ok [unfolded heap_ok_def]
  show ?thesis
    using rep_splice [OF rep L, of "takeWhile ?P (nodes h l)" "dropWhile ?P (nodes h l)"]
      lists_of_splice [OF rep L, of "takeWhile ?P (nodes h l)" "dropWhile ?P (nodes h l)"]
    by (auto simp: List_SortedInsert_rep [OF rep L] es kinsert_def takeWhile_map dropWhile_map comp_def
        intro: rep_heap_ok)
qed

lemma SortedRemove_spec:
  assumes ok: "heap_ok h" and l: "lists_of h l = Some (e # es)"
  shows "\<exists>h'. List_SortedRemove l kp h = Inr (snd e, map_option (\<lambda>_. fst e) kp, h') \<and> heap_ok h' \<and>
     lists_of h' = (lists_of h)(l \<mapsto> es) \<and> fresh h' = fresh h"
proof -
  from l obtain L where L: "listobjs h l = Some L" and es: "e # es = map (entry h) (nodes h l)"
    by (rule lists_of_SomeD)
  then obtain p ps where ps: "nodes h l = p # ps" "e = entry h p" "es = map (entry h) ps"
    by (cases "nodes h l") auto
  note rep = ok [unfolded heap_ok_def]
  show ?thesis
    using rep_behead [OF rep L ps(1)] lists_of_behead [OF rep L ps(1)]
    by (cases kp) (auto simp: List_SortedRemove_rep [OF rep L] ps intro: rep_heap_ok)
qed

lemma SortedRemove_empty:
  assumes ok: "heap_ok h" and l: "lists_of h l = Some []"
  shows "List_SortedRemove l kp h = Inr (NULL, kp, h)"
proof -
  from l obtain L where L: "listobjs h l = Some L" and es: "[] = map (entry h) (nodes h l)"
    by (rule lists_of_SomeD)
  then show ?thesis using List_SortedRemove_rep [OF ok [unfolded heap_ok_def] L] by simp
qed

lemma Remove_spec:
  assumes ok: "heap_ok h" and l: "lists_of h l = Some (e # es)"
  shows "\<exists>h'. List_Remove l h = Inr (snd e, h') \<and> heap_ok h' \<and>
     lists_of h' = (lists_of h)(l \<mapsto> es) \<and> fresh h' = fresh h"
  using SortedRemove_spec [OF assms, of None] by (auto simp: List_Remove_def)

lemma Remove_empty:
  "heap_ok h \<Longrightarrow> lists_of h l = Some [] \<Longrightarrow> List_Remove l h = Inr (NULL, h)"
  by (simp add: List_Remove_def SortedRemove_empty)

lemma IsEmpty_spec:
  assumes ok: "heap_ok h" and l: "lists_of h l = Some es"
  shows "List_IsEmpty l h = Inr (es = [])"
proof -
  from l obtain L where L: "listobjs h l = Some L" and es: "es = map (entry h) (nodes h l)"
    by (rule lists_of_SomeD)
  then show ?thesis using List_IsEmpty_rep [OF ok [unfolded heap_ok_def] L] by simp
qed

lemma bad_list_errors:
  assumes "lists_of h l = None"
  shows "List_Append l x h = Inl (BadPointer l)" and "List_Prepend l x h = Inl (BadPointer l)"
    and "List_Remove l h = Inl (BadPointer l)" and "List_IsEmpty l h = Inl (BadPointer l)"
proof -
  have "listobjs h l = None" using assms by (simp add: lists_of_def live_list_def split: if_splits)
  then show "List_Append l x h = Inl (BadPointer l)" "List_Prepend l x h = Inl (BadPointer l)"
    "List_Remove l h = Inl (BadPointer l)" "List_IsEmpty l h = Inl (BadPointer l)"
    by (simp_all add: List_Append_def List_Prepend_def List_Remove_def List_SortedRemove_def
        List_IsEmpty_def)
qed

lemma new_List_spec:
  assumes ok: "heap_ok h" and new: "new_List h = (l, h')"
  shows "heap_ok h'" and "l = fresh h" and "lists_of h l = None"
    and "lists_of h' = (lists_of h)(l \<mapsto> [])" and "fresh h' = Suc (fresh h)"
proof -
  note rep = ok [unfolded heap_ok_def]
  from new have l: "l = fresh h"
    and h': "h' = h\<lparr>fresh := Suc (fresh h), listobjs := (listobjs h)(l \<mapsto> \<lparr>list_first = NULL, list_last = NULL\<rparr>)\<rparr>"
    by (auto simp: new_List_def alloc_def)
  have dead: "listobjs h l = None" using repD(3) [OF rep, of l] l by (cases "listobjs h l") auto
  then have nil: "nodes h l = []" by (simp add: nodes_def)
  have rep': "rep h' (nodes h)"
    using rep nil unfolding rep_def h' list_at_def
    by (auto simp: l less_SucI)
  show "heap_ok h'" using rep' by (rule rep_heap_ok)
  show "l = fresh h" by (rule l)
  show "lists_of h l = None" using dead by (simp add: lists_of_def live_list_def)
  show "fresh h' = Suc (fresh h)" by (simp add: h')
  show "lists_of h' = (lists_of h)(l \<mapsto> [])"
    using rep_nodes [OF rep'] nil
    by (auto simp: lists_of_def live_list_def entries_def entry_def h')
qed

end
