(* ===== verification/ListQueue.thy ===== *)
theory ListQueue
  imports ListSpec
begin

text \<open>
  The contract of \<open>List\<close> that its clients rely on (the ready list of the scheduler and the
  waiting queues of semaphores and locks), as locales: FIFO queues, and their extension by
  sorted insertion. Both are interpreted on the heap lists of \<open>NachosList\<close>. Then the
  destructor and \<open>Mapcar\<close>.
\<close>

section \<open>Clients of a queue\<close>

text \<open>Runs of operations, for any implementation of the operations.\<close>

primrec append_all :: "('x \<Rightarrow> 'h \<Rightarrow> 'h result) \<Rightarrow> 'x list \<Rightarrow> 'h \<Rightarrow> 'h result" where
  "append_all ap [] h = Inr h"
| "append_all ap (x # xs) h = bindE (ap x h) (append_all ap xs)"

primrec remove_many :: "('h \<Rightarrow> ('x \<times> 'h) result) \<Rightarrow> nat \<Rightarrow> 'h \<Rightarrow> ('x list \<times> 'h) result" where
  "remove_many rm 0 h = Inr ([], h)"
| "remove_many rm (Suc n) h =
     bindE (rm h) (\<lambda>(x, h). bindE (remove_many rm n h) (\<lambda>(xs, h). Inr (x # xs, h)))"

section \<open>The FIFO contract\<close>

locale fifo_queues =
  fixes ok :: "'h \<Rightarrow> bool"
    and contents :: "'h \<Rightarrow> ptr \<Rightarrow> (int \<times> ptr) list option"
    and append :: "ptr \<Rightarrow> ptr \<Rightarrow> 'h \<Rightarrow> 'h result"
    and remove :: "ptr \<Rightarrow> 'h \<Rightarrow> (ptr \<times> 'h) result"
  assumes append_step: "ok h \<Longrightarrow> contents h l = Some es \<Longrightarrow>
      \<exists>h'. append l x h = Inr h' \<and> ok h' \<and> contents h' = (contents h)(l \<mapsto> es @ [(0, x)])"
    and remove_step: "ok h \<Longrightarrow> contents h l = Some (e # es) \<Longrightarrow>
      \<exists>h'. remove l h = Inr (snd e, h') \<and> ok h' \<and> contents h' = (contents h)(l \<mapsto> es)"
    and remove_none: "ok h \<Longrightarrow> contents h l = Some [] \<Longrightarrow> remove l h = Inr (NULL, h)"
begin

lemma append_many:
  "ok h \<Longrightarrow> contents h l = Some es \<Longrightarrow>
     \<exists>h'. append_all (append l) xs h = Inr h' \<and> ok h' \<and>
          contents h' = (contents h)(l \<mapsto> es @ map (Pair 0) xs)"
proof (induction xs arbitrary: h es)
  case Nil
  then show ?case by (simp add: map_upd_triv)
next
  case (Cons x xs)
  from append_step [OF Cons.prems, of x] obtain h1
    where h1: "append l x h = Inr h1" "ok h1" "contents h1 = (contents h)(l \<mapsto> es @ [(0, x)])"
    by blast
  from Cons.IH [OF h1(2), of "es @ [(0, x)]"] h1 show ?case by (auto intro!: ext)
qed

lemma drain:
  "ok h \<Longrightarrow> contents h l = Some (es @ rest) \<Longrightarrow>
     \<exists>h'. remove_many (remove l) (length es) h = Inr (map snd es, h') \<and> ok h' \<and>
          contents h' = (contents h)(l \<mapsto> rest)"
proof (induction es arbitrary: h)
  case Nil
  then show ?case by (simp add: map_upd_triv)
next
  case (Cons e es)
  from remove_step [of h l e "es @ rest"] Cons.prems obtain h1
    where h1: "remove l h = Inr (snd e, h1)" "ok h1" "contents h1 = (contents h)(l \<mapsto> es @ rest)"
    by auto
  from Cons.IH [OF h1(2)] h1 show ?case by (auto intro!: ext)
qed

lemma fifo:
  assumes "ok h" and "contents h l = Some []"
  shows "\<exists>h'. bindE (append_all (append l) xs h) (remove_many (remove l) (length xs)) = Inr (xs, h') \<and>
              ok h' \<and> contents h' = contents h"
proof -
  from append_many [OF assms] obtain h1
    where h1: "append_all (append l) xs h = Inr h1" "ok h1" "contents h1 = (contents h)(l \<mapsto> map (Pair 0) xs)"
    by auto
  from drain [OF h1(2), of l "map (Pair 0) xs" "[]"] h1 assms(2) show ?thesis
    by (auto simp: map_upd_triv comp_def)
qed

end

section \<open>The sorted contract\<close>

locale priority_queues = fifo_queues +
  fixes insert :: "ptr \<Rightarrow> ptr \<Rightarrow> int \<Rightarrow> 'a \<Rightarrow> 'a result option"
  assumes insert_step: "ok h \<Longrightarrow> contents h l = Some es \<Longrightarrow>
      \<exists>h'. insert l x k h = Some (Inr h') \<and> ok h' \<and> contents h' = (contents h)(l \<mapsto> kinsert k x es)"

text \<open>Sorted insertion of one entry into the entries themselves.\<close>

lemma set_kinsert [simp]: "set (kinsert k x es) = {(k, x)} \<union> set es"
  by (simp add: kinsert_def) (metis Un_insert_right set_append takeWhile_dropWhile_id)

lemma mset_kinsert [simp]: "mset (kinsert k x es) = add_mset (k, x) (mset es)"
  by (simp add: kinsert_def) (metis mset_append takeWhile_dropWhile_id)

lemma sorted_kinsert:
  assumes "sorted (map fst es)"
  shows "sorted (map fst (kinsert k x es))"
  using assms
proof (induction es)
  case Nil
  then show ?case by (simp add: kinsert_def)
next
  case (Cons e es)
  show ?case
  proof (cases "fst e \<le> k")
    case True
    then have "kinsert k x (e # es) = e # kinsert k x es" by (simp add: kinsert_def)
    with Cons True show ?thesis by auto
  next
    case False
    then have "kinsert k x (e # es) = (k, x) # e # es" by (simp add: kinsert_def)
    with Cons.prems False show ?thesis by fastforce
  qed
qed

lemma filter_kinsert:
  assumes "sorted (map fst es)"
  shows "filter (\<lambda>e. c = fst e) (kinsert k x es) =
         filter (\<lambda>e. c = fst e) es @ (if c = k then [(k, x)] else [])"
  using assms
proof (induction es)
  case Nil
  then show ?case by (simp add: kinsert_def)
next
  case (Cons e es)
  show ?case
  proof (cases "fst e \<le> k")
    case True
    then have "kinsert k x (e # es) = e # kinsert k x es" by (simp add: kinsert_def)
    with Cons show ?thesis by auto
  next
    case False
    then have "kinsert k x (e # es) = (k, x) # e # es" by (simp add: kinsert_def)
    moreover have "filter (\<lambda>d. k = fst d) (e # es) = []"
      using Cons.prems False by (auto simp: filter_empty_conv)
    ultimately show ?thesis by (cases "c = k") simp_all
  qed
qed

lemma kinsert_all_sort_key:
  "fold (\<lambda>(k, x). kinsert k x) kxs [] = sort_key fst kxs"
proof (rule sym, rule properties_for_sort_key)
  have gen: "sorted (map fst es) \<Longrightarrow>
      sorted (map fst (fold (\<lambda>(k, x). kinsert k x) kxs es)) \<and>
      mset (fold (\<lambda>(k, x). kinsert k x) kxs es) = mset es + mset kxs \<and>
      (\<forall>c. filter (\<lambda>e. c = fst e) (fold (\<lambda>(k, x). kinsert k x) kxs es) =
           filter (\<lambda>e. c = fst e) es @ filter (\<lambda>e. c = fst e) kxs)" for es
    by (induction kxs arbitrary: es) (auto simp: sorted_kinsert filter_kinsert)
  show "mset (fold (\<lambda>(k, x). kinsert k x) kxs []) = mset kxs"
    and "sorted (map fst (fold (\<lambda>(k, x). kinsert k x) kxs []))"
    using gen [of "[]"] by simp_all
  show "filter (\<lambda>e. c = fst e) (fold (\<lambda>(k, x). kinsert k x) kxs []) = filter (\<lambda>e. c = fst e) kxs"
    for c using gen [of "[]"] by simp
qed

text \<open>A run of sorted insertions, each of which has to return.\<close>

primrec insert_all :: "(ptr \<Rightarrow> int \<Rightarrow> 'h \<Rightarrow> 'h result option) \<Rightarrow> (int \<times> ptr) list \<Rightarrow> 'h \<Rightarrow> 'h result option" where
  "insert_all ins [] h = Some (Inr h)"
| "insert_all ins (kx # kxs) h =
     (case ins (snd kx) (fst kx) h of
        None \<Rightarrow> None
      | Some (Inl e) \<Rightarrow> Some (Inl e)
      | Some (Inr h') \<Rightarrow> insert_all ins kxs h')"

context priority_queues
begin

lemma insert_many:
  "ok h \<Longrightarrow> contents h l = Some es \<Longrightarrow>
     \<exists>h'. insert_all (insert l) kxs h = Some (Inr h') \<and> ok h' \<and>
          contents h' = (contents h)(l \<mapsto> fold (\<lambda>(k, x). kinsert k x) kxs es)"
proof (induction kxs arbitrary: h es)
  case Nil
  then show ?case by (simp add: map_upd_triv)
next
  case (Cons kx kxs)
  from insert_step [OF Cons.prems, of "snd kx" "fst kx"] obtain h1
    where h1: "insert l (snd kx) (fst kx) h = Some (Inr h1)" "ok h1"
      "contents h1 = (contents h)(l \<mapsto> kinsert (fst kx) (snd kx) es)"
    by blast
  from Cons.IH [OF h1(2), of "kinsert (fst kx) (snd kx) es"] h1 show ?case
    by (auto simp: case_prod_unfold intro!: ext)
qed

lemma priority_sort:
  assumes "ok h" and "contents h l = Some []"
  shows "\<exists>h1 h2. insert_all (insert l) kxs h = Some (Inr h1) \<and>
      remove_many (remove l) (length kxs) h1 = Inr (map snd (sort_key fst kxs), h2) \<and>
      ok h2 \<and> contents h2 = contents h"
proof -
  from insert_many [OF assms, of kxs] obtain h1
    where h1: "insert_all (insert l) kxs h = Some (Inr h1)" "ok h1"
      "contents h1 = (contents h)(l \<mapsto> sort_key fst kxs)"
    by (auto simp: kinsert_all_sort_key)
  from drain [OF h1(2), of l "sort_key fst kxs" "[]"] h1 assms(2) show ?thesis
    by (auto simp: map_upd_triv)
qed

end

section \<open>The heap lists meet both contracts\<close>

interpretation hq: fifo_queues heap_ok lists_of List_Append List_Remove
proof
  fix h l x and es :: "(int \<times> ptr) list"
  assume "heap_ok h" "lists_of h l = Some es"
  from Append_spec [OF this, of x]
  show "\<exists>h'. List_Append l x h = Inr h' \<and> heap_ok h' \<and> lists_of h' = (lists_of h)(l \<mapsto> es @ [(0, x)])"
    by blast
next
  fix h l e and es :: "(int \<times> ptr) list"
  assume "heap_ok h" "lists_of h l = Some (e # es)"
  from Remove_spec [OF this]
  show "\<exists>h'. List_Remove l h = Inr (snd e, h') \<and> heap_ok h' \<and> lists_of h' = (lists_of h)(l \<mapsto> es)"
    by blast
qed (rule Remove_empty)

interpretation pq: priority_queues heap_ok lists_of List_Append List_Remove List_SortedInsert
proof
  fix h l x k and es :: "(int \<times> ptr) list"
  assume "heap_ok h" "lists_of h l = Some es"
  from SortedInsert_spec [OF this, of x k]
  show "\<exists>h'. List_SortedInsert l x k h = Some (Inr h') \<and> heap_ok h' \<and>
      lists_of h' = (lists_of h)(l \<mapsto> kinsert k x es)"
    by blast
qed

section \<open>The destructor and Mapcar\<close>

lemma List_destructor_spec:
  "heap_ok h \<Longrightarrow> lists_of h l = Some es \<Longrightarrow>
     \<exists>h'. List_destructor l h = Some (Inr h') \<and> heap_ok h' \<and>
          lists_of h' = (lists_of h)(l \<mapsto> tl (dropWhile (\<lambda>e. snd e \<noteq> NULL) es)) \<and> fresh h' = fresh h"
proof (induction es arbitrary: h)
  case Nil
  then show ?case by (subst List_destructor.simps) (simp add: Remove_empty map_upd_triv)
next
  case (Cons e es)
  from Remove_spec [OF Cons.prems] obtain h1
    where h1: "List_Remove l h = Inr (snd e, h1)" "heap_ok h1" "lists_of h1 = (lists_of h)(l \<mapsto> es)"
      "fresh h1 = fresh h"
    by blast
  from Cons.IH [OF h1(2)] h1 show ?case
    by (subst List_destructor.simps) (auto intro!: ext)
qed

lemma rep_free_object:
  assumes rep: "rep h N" and l: "N l = []"
  shows "rep (h\<lparr>listobjs := (listobjs h)(l := None)\<rparr>) N"
  using rep l unfolding rep_def list_at_def by auto

lemma delete_List_spec:
  assumes ok: "heap_ok h" and l: "lists_of h l = Some es" and items: "NULL \<notin> snd ` set es"
  shows "\<exists>h'. delete_List l h = Some (Inr h') \<and> heap_ok h' \<and> lists_of h' = (lists_of h)(l := None)"
proof -
  have all: "dropWhile (\<lambda>e. snd e \<noteq> NULL) es = []"
    using items by (force simp: dropWhile_eq_Nil_conv)
  from List_destructor_spec [OF ok l, unfolded all] obtain h1
    where h1: "List_destructor l h = Some (Inr h1)" "heap_ok h1" "lists_of h1 = (lists_of h)(l \<mapsto> [])"
    by auto
  let ?h = "h1\<lparr>listobjs := (listobjs h1)(l := None)\<rparr>"
  note rep = h1(2) [unfolded heap_ok_def]
  have "lists_of h1 l = Some []" using h1(3) by simp
  then have nil: "nodes h1 l = []" by (auto elim: lists_of_SomeD)
  note rep' = rep_free_object [OF rep nil]
  have "lists_of ?h m = ((lists_of h1)(l := None)) m" for m
    by (auto simp: lists_of_def live_list_def entries_def rep_nodes [OF rep'] entry_def)
  then have "lists_of ?h = (lists_of h)(l := None)" using h1(3) by auto
  with h1(1) rep_heap_ok [OF rep'] show ?thesis by (auto simp: delete_List_def)
qed

text \<open>
  A \<open>NULL\<close> item ends the destructor's loop early: the elements behind it stay allocated and
  no list object reaches them any more.
\<close>

lemma delete_List_leak:
  assumes ok: "heap_ok h" and l: "lists_of h l = Some (es @ (k, NULL) # e # rest)"
    and items: "NULL \<notin> snd ` set es"
  shows "\<exists>h' p. delete_List l h = Some (Inr h') \<and> lists_of h' l = None \<and>
     elems h' p \<noteq> None \<and> entry h' p = e \<and> (\<forall>m. p \<notin> set (nodes h' m))"
proof -
  have stop: "dropWhile (\<lambda>e. snd e \<noteq> NULL) (es @ (k, NULL) # e # rest) = (k, NULL) # e # rest"
    using items by (induction es) auto
  from List_destructor_spec [OF ok l, unfolded stop] obtain h1
    where h1: "List_destructor l h = Some (Inr h1)" "heap_ok h1"
      "lists_of h1 = (lists_of h)(l \<mapsto> e # rest)"
    by auto
  let ?h = "h1\<lparr>listobjs := (listobjs h1)(l := None)\<rparr>"
  note rep = h1(2) [unfolded heap_ok_def]
  from h1(3) have "lists_of h1 l = Some (e # rest)" by simp
  then obtain p ps where p: "nodes h1 l = p # ps" "e = entry h1 p"
    by (auto elim!: lists_of_SomeD)
  then have live: "elems h1 p \<noteq> None" using repD(8) [OF rep, of p] by (auto intro: exI [of _ l])
  have "p \<notin> set (nodes ?h m)" for m
  proof (cases "m = l")
    case True
    then show ?thesis by (simp add: nodes_def)
  next
    case False
    then have "nodes ?h m = nodes h1 m" by (simp add: nodes_def split: option.split)
    with False repD(7) [OF rep, of l m p] p show ?thesis by simp
  qed
  moreover have "lists_of ?h l = None" by (simp add: lists_of_def live_list_def)
  ultimately show ?thesis using h1(1) live p
    by (intro exI [of _ ?h] exI [of _ p]) (auto simp: delete_List_def entry_def)
qed

lemma Mapcar_loop_seg:
  "seg (elems h) p ps NULL \<Longrightarrow>
   (\<And>x s. x \<in> (snd \<circ> entry h) ` set ps \<Longrightarrow> func x (h, s) = Inr (h, g x s)) \<Longrightarrow>
     Mapcar_loop func p (h, s) = Some (Inr (h, fold g (map (snd \<circ> entry h) ps) s))"
proof (induction ps arbitrary: p s)
  case Nil
  then show ?case by (subst Mapcar_loop.simps) simp
next
  case (Cons a ps)
  then obtain e where e: "elems h a = Some e" "a \<noteq> NULL" "p = a" "seg (elems h) (elem_next e) ps NULL"
    by (auto split: option.splits)
  then have "snd (entry h a) = elem_item e" by (simp add: entry_def)
  with e Cons.IH [OF e(4)] Cons.prems(2) show ?case
    by (subst Mapcar_loop.simps) (simp add: comp_def)
qed

lemma List_Mapcar_spec:
  assumes ok: "heap_ok h" and l: "lists_of h l = Some es"
    and func: "\<And>x s. x \<in> snd ` set es \<Longrightarrow> func x (h, s) = Inr (h, g x s)"
  shows "List_Mapcar l func (h, s) = Some (Inr (h, fold g (map snd es) s))"
proof -
  from l obtain L where L: "listobjs h l = Some L" and es: "es = map (entry h) (nodes h l)"
    by (rule lists_of_SomeD)
  from repD(4) [OF ok [unfolded heap_ok_def] L]
  have "Mapcar_loop func (list_first L) (h, s) = Some (Inr (h, fold g (map (snd \<circ> entry h) (nodes h l)) s))"
    by (rule Mapcar_loop_seg) (use func es in auto)
  then show ?thesis using L by (simp add: List_Mapcar_def es comp_def)
qed

end
