(* ===== verification/Kernel.thy ===== *)
theory Kernel
  imports SwitchConstants ListQueue
begin

text \<open>
  The kernel's state and the thread system: \<open>thread.h\<close>, \<open>thread.cc\<close>, \<open>scheduler.h\<close> and
  \<open>scheduler.cc\<close>, with the globals of \<open>system.h\<close>.

  A thread that is not running is suspended inside \<open>Scheduler::Run\<close>, at the call of
  \<open>SWITCH\<close>. What is saved there (registers and stack) is, for the C++ code, the list of
  procedure activations to return to; \<open>frames\<close> holds it for each thread, innermost first.
  Every operation below is the code up to its next \<open>SWITCH\<close>; what remains after the switch
  is pushed as a frame and runs when the thread is next dispatched.
\<close>

section \<open>Interface to the machine emulation\<close>

text \<open>
  \<open>interrupt.h\<close> and \<open>sysdep.h\<close> are not in the repository. \<open>'m\<close> is the state of the
  emulated hardware, and \<open>platform\<close> collects what the kernel calls there: \<open>SetLevel\<close>
  returns the old level and sets the new one; \<open>Idle\<close> advances to the next interrupt and
  runs the handlers, which may call \<open>Semaphore::V\<close> (here: the list of semaphores they
  signal), or returns \<open>None\<close> when nothing is pending, in which case the machine halts;
  \<open>AllocBoundedArray\<close> returns a new array of the given number of bytes with arbitrary
  contents (here: its words). \<open>program\<close> is the program text: the statements of the procedure at an address.
\<close>

datatype IntStatus = IntOff | IntOn

type_synonym word32 = "32 word"

section \<open>Data\<close>

datatype ThreadStatus = JUST_CREATED | RUNNING | READY | BLOCKED

text \<open>
  \<open>stackTop\<close> is an index into \<open>stack\<close>; \<open>None\<close> is \<open>NULL\<close> for both. Words that were never
  written (the constructor leaves \<open>machineState\<close> alone) are \<open>None\<close>.
\<close>

record Thread =
  stackTop :: "nat option"
  machineState :: "nat \<Rightarrow> word32 option"
  stack :: "(nat \<Rightarrow> word32 option) option"
  status :: ThreadStatus
  thread_name :: string

datatype cstring = CNull | CLiteral string | CHeap string

record Semaphore =
  sem_name :: string
  sem_value :: word32
  sem_queue :: ptr

record Lock =
  lock_name :: cstring
  held :: word32
  lock_queue :: ptr

record SynchList =
  sl_list :: ptr
  sl_lock :: ptr
  sl_listEmpty :: ptr

text \<open>
  The statements a procedure of the program is made of: the calls into the thread system
  that the test programs and \<open>SynchList\<close> make. \<open>locktest1\<close> is the global of
  \<open>threadtest.cc\<close>.
\<close>

datatype lock_ref = LockAt ptr | Locktest1

datatype stmt =
    Printf string
  | CurrentYield
  | CurrentFinish
  | ForkNew string word32 word32
  | NewLocktest1 string
  | SemP ptr
  | SemV ptr
  | Acquire lock_ref
  | Release lock_ref
  | CondWait ptr lock_ref
  | CondSignal ptr lock_ref
  | CondBroadcast ptr lock_ref
  | SynchAppend ptr ptr
  | SynchRemove ptr
  | SynchMapcar ptr word32
  | ListAppend ptr ptr
  | WaitNonEmpty ptr
  | TakeFirst ptr
  | ListMapcar ptr word32

datatype frame =
    RootF
  | CallF word32 word32
  | CodeF "stmt list"
  | MapcarF word32 ptr
  | MapcarNextF word32 ptr
  | RunF
  | YieldF IntStatus
  | SleepF
  | SemPF ptr IntStatus
  | AcquireF ptr IntStatus

text \<open>
  Events are a log for stating properties; no operation reads it: which thread completed a
  \<open>P\<close> or \<open>V\<close> of a semaphore, acquired or released a lock, or took an item off a list.
\<close>

datatype event =
    EvP ptr ptr
  | EvV ptr
  | EvAcquire ptr ptr
  | EvRelease ptr ptr
  | EvTake ptr ptr

record 'm kernel =
  heap :: lheap
  threads :: "ptr \<Rightarrow> Thread option"
  frames :: "ptr \<Rightarrow> frame list"
  semaphores :: "ptr \<Rightarrow> Semaphore option"
  locks :: "ptr \<Rightarrow> Lock option"
  synchlists :: "ptr \<Rightarrow> SynchList option"
  currentThread :: ptr
  threadToBeDestroyed :: ptr
  readyList :: ptr
  interrupt :: 'm
  locktest1 :: ptr
  printed :: "string list"
  history :: "event list"

record 'm platform =
  host :: host
  SetLevel :: "IntStatus \<Rightarrow> 'm \<Rightarrow> IntStatus \<times> 'm"
  getLevel :: "'m \<Rightarrow> IntStatus"
  Enable :: "'m \<Rightarrow> 'm"
  Idle :: "'m \<Rightarrow> (ptr list \<times> 'm) option"
  AllocBoundedArray :: "nat \<Rightarrow> 'm \<Rightarrow> (nat \<Rightarrow> word32 option) \<times> 'm"
  addr_ThreadRoot :: word32
  addr_InterruptEnable :: word32
  addr_ThreadFinish :: word32
  program :: "word32 \<Rightarrow> word32 \<Rightarrow> stmt list"

section \<open>Small steps on the state\<close>

definition set_level :: "'m platform \<Rightarrow> IntStatus \<Rightarrow> 'm kernel \<Rightarrow> IntStatus \<times> 'm kernel" where
  "set_level pf now k =
     (let (old, m) = SetLevel pf now (interrupt k) in (old, k\<lparr>interrupt := m\<rparr>))"

definition push :: "ptr \<Rightarrow> frame \<Rightarrow> 'm kernel \<Rightarrow> 'm kernel" where
  "push t f k = k\<lparr>frames := (frames k)(t := f # frames k t)\<rparr>"

definition log_event :: "event \<Rightarrow> 'm kernel \<Rightarrow> 'm kernel" where
  "log_event ev k = k\<lparr>history := history k @ [ev]\<rparr>"

definition printf :: "string \<Rightarrow> 'm kernel \<Rightarrow> 'm kernel" where
  "printf s k = k\<lparr>printed := printed k @ [s]\<rparr>"

definition setStatus :: "ptr \<Rightarrow> ThreadStatus \<Rightarrow> 'm kernel \<Rightarrow> 'm kernel result" where
  "setStatus t st k = bindE (deref (threads k) t)
     (\<lambda>T. Inr (k\<lparr>threads := (threads k)(t \<mapsto> T\<lparr>status := st\<rparr>)\<rparr>))"

section \<open>Scheduler\<close>

definition Scheduler_ReadyToRun :: "ptr \<Rightarrow> 'm kernel \<Rightarrow> 'm kernel result" where
  "Scheduler_ReadyToRun thread k =
     bindE (setStatus thread READY k) (\<lambda>k.
     bindE (List_Append (readyList k) thread (heap k)) (\<lambda>h.
     Inr (k\<lparr>heap := h\<rparr>)))"

definition Scheduler_FindNextToRun :: "'m kernel \<Rightarrow> (ptr \<times> 'm kernel) result" where
  "Scheduler_FindNextToRun k =
     bindE (List_Remove (readyList k) (heap k)) (\<lambda>(t, h). Inr (t, k\<lparr>heap := h\<rparr>))"

definition STACK_FENCEPOST :: word32 where
  "STACK_FENCEPOST = 0xdeadbeef"

definition fencepost_index :: "host \<Rightarrow> nat" where
  "fencepost_index hst = (case hst of HOST_SNAKE \<Rightarrow> StackSize - 1 | _ \<Rightarrow> 0)"

definition Thread_CheckOverflow :: "'m platform \<Rightarrow> ptr \<Rightarrow> 'm kernel \<Rightarrow> unit result" where
  "Thread_CheckOverflow pf this k =
     bindE (deref (threads k) this) (\<lambda>T.
     case stack T of
       None \<Rightarrow> Inr ()
     | Some m \<Rightarrow>
         (case host pf of
            HOST_SNAKE \<Rightarrow> assertE ''thread.cc'' 121 (m (StackSize - 1) = Some STACK_FENCEPOST)
          | _ \<Rightarrow> assertE ''thread.cc'' 123 (m 0 = Some STACK_FENCEPOST)))"

text \<open>
  \<open>SWITCH(oldThread, newThread)\<close>: the rest of \<open>Run\<close> is what \<open>oldThread\<close> returns to later;
  execution goes on with the frames of \<open>newThread\<close>, the new \<open>currentThread\<close>.
\<close>

definition SWITCH :: "ptr \<Rightarrow> ptr \<Rightarrow> 'm kernel \<Rightarrow> 'm kernel" where
  "SWITCH oldThread newThread k = push oldThread RunF k"

definition Scheduler_Run :: "'m platform \<Rightarrow> ptr \<Rightarrow> 'm kernel \<Rightarrow> 'm kernel result" where
  "Scheduler_Run pf nextThread k =
     (let oldThread = currentThread k
      in bindE (Thread_CheckOverflow pf oldThread k) (\<lambda>_.
         let k = k\<lparr>currentThread := nextThread\<rparr>
         in bindE (setStatus (currentThread k) RUNNING k) (\<lambda>k.
            Inr (SWITCH oldThread nextThread k))))"

definition delete_Thread :: "ptr \<Rightarrow> 'm kernel \<Rightarrow> 'm kernel result" where
  "delete_Thread this k =
     bindE (deref (threads k) this) (\<lambda>_.
     bindE (assertE ''thread.cc'' 62 (this \<noteq> currentThread k)) (\<lambda>_.
     Inr (k\<lparr>threads := (threads k)(this := None), frames := (frames k)(this := [])\<rparr>)))"

text \<open>The part of \<open>Scheduler::Run\<close> after \<open>SWITCH\<close> returns.\<close>

definition Scheduler_Run_resume :: "'m kernel \<Rightarrow> 'm kernel result" where
  "Scheduler_Run_resume k =
     (if threadToBeDestroyed k \<noteq> NULL
      then bindE (delete_Thread (threadToBeDestroyed k) k) (\<lambda>k.
           Inr (k\<lparr>threadToBeDestroyed := NULL\<rparr>))
      else Inr k)"

section \<open>Thread\<close>

definition new_Thread :: "string \<Rightarrow> 'm kernel \<Rightarrow> ptr \<times> 'm kernel" where
  "new_Thread threadName k =
     (let (t, h) = alloc (heap k)
      in (t, k\<lparr>heap := h,
               threads := (threads k)(t \<mapsto>
                 \<lparr>stackTop = None, machineState = Map.empty, stack = None,
                  status = JUST_CREATED, thread_name = threadName\<rparr>),
               frames := (frames k)(t := [])\<rparr>))"

text \<open>
  The stack pointer and the marker word, per host; on the i386 the address of \<open>ThreadRoot\<close>
  is pushed as the return address of \<open>SWITCH\<close>.
\<close>

definition init_stack ::
    "host \<Rightarrow> word32 \<Rightarrow> (nat \<Rightarrow> word32 option) \<Rightarrow> nat \<times> (nat \<Rightarrow> word32 option)" where
  "init_stack hst root m =
     (case hst of
        HOST_SNAKE \<Rightarrow> (16, m(StackSize - 1 \<mapsto> STACK_FENCEPOST))
      | HOST_SPARC \<Rightarrow> (StackSize - 96, m(0 \<mapsto> STACK_FENCEPOST))
      | HOST_MIPS \<Rightarrow> (StackSize - 4, m(0 \<mapsto> STACK_FENCEPOST))
      | HOST_i386 \<Rightarrow>
          (let top = StackSize - 4; top = top - 1; m = m(top \<mapsto> root)
           in (top, m(0 \<mapsto> STACK_FENCEPOST))))"

definition Thread_StackAllocate ::
    "'m platform \<Rightarrow> ptr \<Rightarrow> word32 \<Rightarrow> word32 \<Rightarrow> 'm kernel \<Rightarrow> 'm kernel result" where
  "Thread_StackAllocate pf this func arg k =
     bindE (deref (threads k) this) (\<lambda>T.
     let (blk, m) = AllocBoundedArray pf (StackSize * 4) (interrupt k);
         (top, blk) = init_stack (host pf) (addr_ThreadRoot pf) blk;
         T = T\<lparr>stackTop := Some top, stack := Some blk,
               machineState := (machineState T)
                 (PCState (host pf) \<mapsto> addr_ThreadRoot pf,
                  StartupPCState (host pf) \<mapsto> addr_InterruptEnable pf,
                  InitialPCState (host pf) \<mapsto> func,
                  InitialArgState (host pf) \<mapsto> arg,
                  WhenDonePCState (host pf) \<mapsto> addr_ThreadFinish pf)\<rparr>
     in Inr (k\<lparr>interrupt := m, threads := (threads k)(this \<mapsto> T),
               frames := (frames k)(this := [RootF])\<rparr>))"

definition Thread_Fork ::
    "'m platform \<Rightarrow> ptr \<Rightarrow> word32 \<Rightarrow> word32 \<Rightarrow> 'm kernel \<Rightarrow> 'm kernel result" where
  "Thread_Fork pf this func arg k =
     bindE (Thread_StackAllocate pf this func arg k) (\<lambda>k.
     let (oldLevel, k) = set_level pf IntOff k
     in bindE (Scheduler_ReadyToRun this k) (\<lambda>k.
        Inr (snd (set_level pf oldLevel k))))"

text \<open>
  \<open>Sleep\<close> up to its loop; the loop is the frame \<open>SleepF\<close>, one iteration of which is
  \<open>Sleep_loop\<close> in theory \<open>Machine\<close> (\<open>Idle\<close> runs interrupt handlers, and these may call
  \<open>Semaphore::V\<close>).
\<close>

definition Thread_Sleep :: "'m platform \<Rightarrow> ptr \<Rightarrow> 'm kernel \<Rightarrow> 'm kernel result" where
  "Thread_Sleep pf this k =
     bindE (assertE ''thread.cc'' 216 (this = currentThread k)) (\<lambda>_.
     bindE (assertE ''thread.cc'' 217 (getLevel pf (interrupt k) = IntOff)) (\<lambda>_.
     bindE (setStatus this BLOCKED k) (\<lambda>k.
     Inr (push this SleepF k))))"

definition Thread_Finish :: "'m platform \<Rightarrow> ptr \<Rightarrow> 'm kernel \<Rightarrow> 'm kernel result" where
  "Thread_Finish pf this k =
     (let k = snd (set_level pf IntOff k)
      in bindE (assertE ''thread.cc'' 147 (this = currentThread k)) (\<lambda>_.
         Thread_Sleep pf this (k\<lparr>threadToBeDestroyed := currentThread k\<rparr>)))"

definition Thread_Yield :: "'m platform \<Rightarrow> ptr \<Rightarrow> 'm kernel \<Rightarrow> 'm kernel result" where
  "Thread_Yield pf this k =
     (let (oldLevel, k) = set_level pf IntOff k
      in bindE (assertE ''thread.cc'' 180 (this = currentThread k)) (\<lambda>_.
         bindE (Scheduler_FindNextToRun k) (\<lambda>(nextThread, k).
         if nextThread \<noteq> NULL then
           bindE (Scheduler_ReadyToRun this k) (\<lambda>k.
           Scheduler_Run pf nextThread (push this (YieldF oldLevel) k))
         else Inr (snd (set_level pf oldLevel k)))))"

text \<open>\<open>ThreadPrint\<close> over the ready list: \<open>Scheduler::Print\<close>.\<close>

definition ThreadPrint ::
    "(ptr \<Rightarrow> Thread option) \<Rightarrow> ptr \<Rightarrow> lheap \<times> string list \<Rightarrow> (lheap \<times> string list) result" where
  "ThreadPrint ts arg s =
     bindE (deref ts arg) (\<lambda>t. Inr (fst s, snd s @ [thread_name t @ '', '']))"

definition Scheduler_Print :: "'m kernel \<Rightarrow> 'm kernel result option" where
  "Scheduler_Print k =
     (let k = printf (''Ready list contents:'' @ [CHR 0x0A]) k
      in case List_Mapcar (readyList k) (ThreadPrint (threads k)) (heap k, printed k) of
           None \<Rightarrow> None
         | Some (Inl e) \<Rightarrow> Some (Inl e)
         | Some (Inr (h, out)) \<Rightarrow> Some (Inr (k\<lparr>heap := h, printed := out\<rparr>)))"

end
