(* ===== verification/Synch.thy ===== *)
theory Synch
  imports Kernel
begin

text \<open>
  \<open>synch.h\<close>, \<open>synch.cc\<close> and \<open>synchlist.cc\<close>: semaphores, locks, condition variables and
  synchronized lists. The \<open>while\<close> loops of \<open>P\<close> and \<open>Acquire\<close> are one test here; when the
  thread has to sleep, the next test is left as the frame \<open>SemPF\<close> or \<open>AcquireF\<close>.
\<close>

section \<open>Semaphores\<close>

definition new_Semaphore :: "string \<Rightarrow> word32 \<Rightarrow> 'm kernel \<Rightarrow> ptr \<times> 'm kernel" where
  "new_Semaphore debugName initialValue k =
     (let (s, h) = alloc (heap k);
          (q, h) = new_List h
      in (s, k\<lparr>heap := h,
               semaphores := (semaphores k)(s \<mapsto>
                 \<lparr>sem_name = debugName, sem_value = initialValue, sem_queue = q\<rparr>)\<rparr>))"

definition delete_Semaphore :: "ptr \<Rightarrow> 'm kernel \<Rightarrow> 'm kernel result option" where
  "delete_Semaphore this k =
     (case deref (semaphores k) this of
        Inl e \<Rightarrow> Some (Inl e)
      | Inr S \<Rightarrow>
          (case delete_List (sem_queue S) (heap k) of
             None \<Rightarrow> None
           | Some (Inl e) \<Rightarrow> Some (Inl e)
           | Some (Inr h) \<Rightarrow>
               Some (Inr (k\<lparr>heap := h, semaphores := (semaphores k)(this := None)\<rparr>))))"

definition Semaphore_P_loop ::
    "'m platform \<Rightarrow> ptr \<Rightarrow> IntStatus \<Rightarrow> 'm kernel \<Rightarrow> 'm kernel result" where
  "Semaphore_P_loop pf this oldLevel k =
     bindE (deref (semaphores k) this) (\<lambda>S.
     if sem_value S = 0 then
       bindE (List_Append (sem_queue S) (currentThread k) (heap k)) (\<lambda>h.
       let k = k\<lparr>heap := h\<rparr>
       in Thread_Sleep pf (currentThread k) (push (currentThread k) (SemPF this oldLevel) k))
     else
       let k = k\<lparr>semaphores := (semaphores k)(this \<mapsto> S\<lparr>sem_value := sem_value S - 1\<rparr>)\<rparr>;
           k = log_event (EvP this (currentThread k)) k
       in Inr (snd (set_level pf oldLevel k)))"

definition Semaphore_P :: "'m platform \<Rightarrow> ptr \<Rightarrow> 'm kernel \<Rightarrow> 'm kernel result" where
  "Semaphore_P pf this k =
     (let (oldLevel, k) = set_level pf IntOff k in Semaphore_P_loop pf this oldLevel k)"

definition Semaphore_V :: "'m platform \<Rightarrow> ptr \<Rightarrow> 'm kernel \<Rightarrow> 'm kernel result" where
  "Semaphore_V pf this k =
     (let (oldLevel, k) = set_level pf IntOff k
      in bindE (deref (semaphores k) this) (\<lambda>S.
         bindE (List_Remove (sem_queue S) (heap k)) (\<lambda>(thread, h).
         let k = k\<lparr>heap := h\<rparr>
         in bindE (if thread \<noteq> NULL then Scheduler_ReadyToRun thread k else Inr k) (\<lambda>k.
            let k = k\<lparr>semaphores := (semaphores k)(this \<mapsto> S\<lparr>sem_value := sem_value S + 1\<rparr>)\<rparr>;
                k = log_event (EvV this) k
            in Inr (snd (set_level pf oldLevel k))))))"

section \<open>Locks\<close>

definition new_Lock :: "cstring \<Rightarrow> 'm kernel \<Rightarrow> ptr \<times> 'm kernel" where
  "new_Lock debugName k =
     (let (l, h) = alloc (heap k);
          (q, h) = new_List h
      in (l, k\<lparr>heap := h,
               locks := (locks k)(l \<mapsto> \<lparr>lock_name = debugName, held = 0, lock_queue = q\<rparr>)\<rparr>))"

text \<open>
  \<open>delete\<close> of a \<open>char*\<close>: nothing for \<open>NULL\<close>, defined for a string from \<open>new\<close>, undefined for
  a literal.
\<close>

definition delete_cstring :: "cstring \<Rightarrow> unit result" where
  "delete_cstring s = (case s of CLiteral _ \<Rightarrow> Inl BadDelete | _ \<Rightarrow> Inr ())"

definition delete_Lock :: "ptr \<Rightarrow> 'm kernel \<Rightarrow> 'm kernel result option" where
  "delete_Lock this k =
     (case bindE (deref (locks k) this) (\<lambda>L. bindE (delete_cstring (lock_name L)) (\<lambda>_. Inr L)) of
        Inl e \<Rightarrow> Some (Inl e)
      | Inr L \<Rightarrow>
          (case delete_List (lock_queue L) (heap k) of
             None \<Rightarrow> None
           | Some (Inl e) \<Rightarrow> Some (Inl e)
           | Some (Inr h) \<Rightarrow> Some (Inr (k\<lparr>heap := h, locks := (locks k)(this := None)\<rparr>))))"

definition Lock_Acquire_loop ::
    "'m platform \<Rightarrow> ptr \<Rightarrow> IntStatus \<Rightarrow> 'm kernel \<Rightarrow> 'm kernel result" where
  "Lock_Acquire_loop pf this oldLevel k =
     bindE (deref (locks k) this) (\<lambda>L.
     if held L \<noteq> 0 then
       bindE (List_Append (lock_queue L) (currentThread k) (heap k)) (\<lambda>h.
       let k = k\<lparr>heap := h\<rparr>
       in Thread_Sleep pf (currentThread k) (push (currentThread k) (AcquireF this oldLevel) k))
     else
       let k = k\<lparr>locks := (locks k)(this \<mapsto> L\<lparr>held := 1\<rparr>)\<rparr>;
           k = log_event (EvAcquire this (currentThread k)) k
       in Inr (snd (set_level pf oldLevel k)))"

definition Lock_Acquire :: "'m platform \<Rightarrow> ptr \<Rightarrow> 'm kernel \<Rightarrow> 'm kernel result" where
  "Lock_Acquire pf this k =
     (let (oldLevel, k) = set_level pf IntOff k in Lock_Acquire_loop pf this oldLevel k)"

definition Lock_Release :: "'m platform \<Rightarrow> ptr \<Rightarrow> 'm kernel \<Rightarrow> 'm kernel result" where
  "Lock_Release pf this k =
     (let (oldLevel, k) = set_level pf IntOff k
      in bindE (deref (locks k) this) (\<lambda>L.
         bindE (List_Remove (lock_queue L) (heap k)) (\<lambda>(thread, h).
         let k = k\<lparr>heap := h\<rparr>
         in bindE (if thread \<noteq> NULL then Scheduler_ReadyToRun thread k else Inr k) (\<lambda>k.
            let k = k\<lparr>locks := (locks k)(this \<mapsto> L\<lparr>held := 0\<rparr>)\<rparr>;
                k = log_event (EvRelease this (currentThread k)) k
            in Inr (snd (set_level pf oldLevel k))))))"

section \<open>Condition variables\<close>

definition new_Condition :: "'m kernel \<Rightarrow> ptr \<times> 'm kernel" where
  "new_Condition k = (let (c, h) = alloc (heap k) in (c, k\<lparr>heap := h\<rparr>))"

text \<open>The destructor is empty.\<close>

definition delete_Condition :: "ptr \<Rightarrow> 'm kernel \<Rightarrow> 'm kernel result" where
  "delete_Condition this k = Inr k"

definition Condition_Wait :: "ptr \<Rightarrow> ptr \<Rightarrow> 'm kernel \<Rightarrow> 'm kernel result" where
  "Condition_Wait this conditionLock k = bindE (assertE ''synch.cc'' 144 False) (\<lambda>_. Inr k)"

definition Condition_Signal :: "ptr \<Rightarrow> ptr \<Rightarrow> 'm kernel \<Rightarrow> 'm kernel result" where
  "Condition_Signal this conditionLock k = Inr k"

definition Condition_Broadcast :: "ptr \<Rightarrow> ptr \<Rightarrow> 'm kernel \<Rightarrow> 'm kernel result" where
  "Condition_Broadcast this conditionLock k = Inr k"

section \<open>Synchronized lists\<close>

definition new_SynchList :: "'m kernel \<Rightarrow> ptr \<times> 'm kernel" where
  "new_SynchList k =
     (let (sl, h) = alloc (heap k);
          (q, h) = new_List h;
          (l, k) = new_Lock (CLiteral ''list lock'') (k\<lparr>heap := h\<rparr>);
          (c, k) = new_Condition k
      in (sl, k\<lparr>synchlists := (synchlists k)(sl \<mapsto>
                  \<lparr>sl_list = q, sl_lock = l, sl_listEmpty = c\<rparr>)\<rparr>))"

definition delete_SynchList :: "ptr \<Rightarrow> 'm kernel \<Rightarrow> 'm kernel result option" where
  "delete_SynchList this k =
     (case deref (synchlists k) this of
        Inl e \<Rightarrow> Some (Inl e)
      | Inr SL \<Rightarrow>
          (case delete_List (sl_list SL) (heap k) of
             None \<Rightarrow> None
           | Some (Inl e) \<Rightarrow> Some (Inl e)
           | Some (Inr h) \<Rightarrow>
               (case delete_Lock (sl_lock SL) (k\<lparr>heap := h\<rparr>) of
                  None \<Rightarrow> None
                | Some (Inl e) \<Rightarrow> Some (Inl e)
                | Some (Inr k) \<Rightarrow>
                    Some (bindE (delete_Condition (sl_listEmpty SL) k) (\<lambda>k.
                      Inr (k\<lparr>synchlists := (synchlists k)(this := None)\<rparr>))))))"

text \<open>
  The bodies of the member functions, as statements; every one of them may be left and
  re-entered at the lock.
\<close>

definition SynchList_Append :: "SynchList \<Rightarrow> ptr \<Rightarrow> ptr \<Rightarrow> stmt list" where
  "SynchList_Append SL this itm =
     [Acquire (LockAt (sl_lock SL)),
      ListAppend this itm,
      CondSignal (sl_listEmpty SL) (LockAt (sl_lock SL)),
      Release (LockAt (sl_lock SL))]"

definition SynchList_Remove :: "SynchList \<Rightarrow> ptr \<Rightarrow> stmt list" where
  "SynchList_Remove SL this =
     [Acquire (LockAt (sl_lock SL)),
      WaitNonEmpty this,
      TakeFirst this,
      Release (LockAt (sl_lock SL))]"

definition SynchList_Mapcar :: "SynchList \<Rightarrow> ptr \<Rightarrow> word32 \<Rightarrow> stmt list" where
  "SynchList_Mapcar SL this func =
     [Acquire (LockAt (sl_lock SL)),
      ListMapcar this func,
      Release (LockAt (sl_lock SL))]"

text \<open>\<open>while (list->IsEmpty()) listEmpty->Wait(lock);\<close>\<close>

definition SynchList_wait :: "ptr \<Rightarrow> 'm kernel \<Rightarrow> 'm kernel result" where
  "SynchList_wait this k =
     bindE (deref (synchlists k) this) (\<lambda>SL.
     bindE (List_IsEmpty (sl_list SL) (heap k)) (\<lambda>isempty.
     if isempty then
       bindE (Condition_Wait (sl_listEmpty SL) (sl_lock SL) k) (\<lambda>k.
       Inr (push (currentThread k) (CodeF [WaitNonEmpty this]) k))
     else Inr k))"

text \<open>\<open>item = list->Remove(); ASSERT(item != NULL);\<close>\<close>

definition SynchList_take :: "ptr \<Rightarrow> 'm kernel \<Rightarrow> 'm kernel result" where
  "SynchList_take this k =
     bindE (deref (synchlists k) this) (\<lambda>SL.
     bindE (List_Remove (sl_list SL) (heap k)) (\<lambda>(itm, h).
     bindE (assertE ''synchlist.cc'' 79 (itm \<noteq> NULL)) (\<lambda>_.
     Inr (log_event (EvTake this itm) (k\<lparr>heap := h\<rparr>)))))"

end
