(* ===== verification/Machine.thy ===== *)
theory Machine
  imports Synch
begin

text \<open>
  Running threads: one step executes the innermost frame of the current thread. A step is
  atomic, since the kernel's operations run with interrupts off between two calls of
  \<open>SWITCH\<close>. \<open>sys_step\<close> adds what the hardware may do between operations when interrupts
  are on: a time slice (\<open>Thread::Yield\<close> on return from the timer interrupt) and device
  handlers that signal a semaphore.
\<close>

section \<open>The statements of a procedure\<close>

fun lock_ptr :: "lock_ref \<Rightarrow> 'm kernel \<Rightarrow> ptr" where
  "lock_ptr (LockAt l) k = l"
| "lock_ptr Locktest1 k = locktest1 k"

fun exec_stmt :: "'m platform \<Rightarrow> stmt \<Rightarrow> 'm kernel \<Rightarrow> 'm kernel result" where
  "exec_stmt pf (Printf s) k = Inr (printf s k)"
| "exec_stmt pf CurrentYield k = Thread_Yield pf (currentThread k) k"
| "exec_stmt pf CurrentFinish k = Thread_Finish pf (currentThread k) k"
| "exec_stmt pf (ForkNew nm func arg) k =
     (let (t, k) = new_Thread nm k in Thread_Fork pf t func arg k)"
| "exec_stmt pf (NewLocktest1 nm) k =
     (let (l, k) = new_Lock (CLiteral nm) k in Inr (k\<lparr>locktest1 := l\<rparr>))"
| "exec_stmt pf (SemP s) k = Semaphore_P pf s k"
| "exec_stmt pf (SemV s) k = Semaphore_V pf s k"
| "exec_stmt pf (Acquire r) k = Lock_Acquire pf (lock_ptr r k) k"
| "exec_stmt pf (Release r) k = Lock_Release pf (lock_ptr r k) k"
| "exec_stmt pf (CondWait c r) k = Condition_Wait c (lock_ptr r k) k"
| "exec_stmt pf (CondSignal c r) k = Condition_Signal c (lock_ptr r k) k"
| "exec_stmt pf (CondBroadcast c r) k = Condition_Broadcast c (lock_ptr r k) k"
| "exec_stmt pf (SynchAppend sl itm) k =
     bindE (deref (synchlists k) sl) (\<lambda>SL.
     Inr (push (currentThread k) (CodeF (SynchList_Append SL sl itm)) k))"
| "exec_stmt pf (SynchRemove sl) k =
     bindE (deref (synchlists k) sl) (\<lambda>SL.
     Inr (push (currentThread k) (CodeF (SynchList_Remove SL sl)) k))"
| "exec_stmt pf (SynchMapcar sl func) k =
     bindE (deref (synchlists k) sl) (\<lambda>SL.
     Inr (push (currentThread k) (CodeF (SynchList_Mapcar SL sl func)) k))"
| "exec_stmt pf (ListAppend sl itm) k =
     bindE (deref (synchlists k) sl) (\<lambda>SL.
     bindE (List_Append (sl_list SL) itm (heap k)) (\<lambda>h. Inr (k\<lparr>heap := h\<rparr>)))"
| "exec_stmt pf (WaitNonEmpty sl) k = SynchList_wait sl k"
| "exec_stmt pf (TakeFirst sl) k = SynchList_take sl k"
| "exec_stmt pf (ListMapcar sl func) k =
     bindE (deref (synchlists k) sl) (\<lambda>SL.
     bindE (deref (listobjs (heap k)) (sl_list SL)) (\<lambda>L.
     Inr (push (currentThread k) (MapcarF func (list_first L)) k)))"

section \<open>Frames\<close>

text \<open>Interrupt handlers run by \<open>Interrupt::Idle\<close>.\<close>

fun run_handlers :: "'m platform \<Rightarrow> ptr list \<Rightarrow> 'm kernel \<Rightarrow> 'm kernel result" where
  "run_handlers pf [] k = Inr k"
| "run_handlers pf (s # ss) k = bindE (Semaphore_V pf s k) (run_handlers pf ss)"

text \<open>One iteration of the loop of \<open>Thread::Sleep\<close>.\<close>

definition Sleep_loop :: "'m platform \<Rightarrow> 'm kernel \<Rightarrow> 'm kernel result" where
  "Sleep_loop pf k =
     bindE (Scheduler_FindNextToRun k) (\<lambda>(nextThread, k).
     if nextThread = NULL then
       (case Idle pf (interrupt k) of
          None \<Rightarrow> Inl Halted
        | Some (ss, m) \<Rightarrow>
            bindE (run_handlers pf ss (k\<lparr>interrupt := m\<rparr>)) (\<lambda>k.
            Inr (push (currentThread k) SleepF k)))
     else Scheduler_Run pf nextThread k)"

text \<open>
  \<open>ThreadRoot\<close> of \<open>switch.s\<close>: call \<open>StartupPC\<close>, then \<open>InitialPC\<close> with \<open>InitialArg\<close>, then
  \<open>WhenDonePC\<close>, from the registers that \<open>SWITCH\<close> loaded from \<open>machineState\<close>.
\<close>

definition ThreadRoot :: "'m platform \<Rightarrow> 'm kernel \<Rightarrow> 'm kernel result" where
  "ThreadRoot pf k =
     bindE (deref (threads k) (currentThread k)) (\<lambda>T.
     bindE (deref (machineState T) (StartupPCState (host pf))) (\<lambda>startup.
     bindE (deref (machineState T) (InitialPCState (host pf))) (\<lambda>pc.
     bindE (deref (machineState T) (InitialArgState (host pf))) (\<lambda>arg.
     bindE (deref (machineState T) (WhenDonePCState (host pf))) (\<lambda>done.
     Inr (k\<lparr>frames := (frames k)(currentThread k :=
            [CallF startup 0, CallF pc arg, CallF done 0] @ frames k (currentThread k))\<rparr>))))))"

text \<open>
  A call through a code address: \<open>InterruptEnable\<close> and \<open>ThreadFinish\<close> of \<open>thread.cc\<close>, or a
  procedure of the program.
\<close>

definition call_addr :: "'m platform \<Rightarrow> word32 \<Rightarrow> word32 \<Rightarrow> 'm kernel \<Rightarrow> 'm kernel result" where
  "call_addr pf a arg k =
     (if a = addr_InterruptEnable pf then Inr (k\<lparr>interrupt := Enable pf (interrupt k)\<rparr>)
      else if a = addr_ThreadFinish pf then Thread_Finish pf (currentThread k) k
      else Inr (push (currentThread k) (CodeF (program pf a arg)) k))"

fun exec_frame :: "'m platform \<Rightarrow> frame \<Rightarrow> 'm kernel \<Rightarrow> 'm kernel result" where
  "exec_frame pf RootF k = ThreadRoot pf k"
| "exec_frame pf (CallF a arg) k = call_addr pf a arg k"
| "exec_frame pf (CodeF []) k = Inr k"
| "exec_frame pf (CodeF (s # ss)) k = exec_stmt pf s (push (currentThread k) (CodeF ss) k)"
| "exec_frame pf (MapcarF func pt) k =
     (if pt \<noteq> NULL then
        bindE (deref (elems (heap k)) pt) (\<lambda>e.
        Inr (push (currentThread k) (CallF func (of_nat (elem_item e)))
            (push (currentThread k) (MapcarNextF func pt) k)))
      else Inr k)"
| "exec_frame pf (MapcarNextF func pt) k =
     bindE (deref (elems (heap k)) pt) (\<lambda>e.
     Inr (push (currentThread k) (MapcarF func (elem_next e)) k))"
| "exec_frame pf RunF k = Scheduler_Run_resume k"
| "exec_frame pf (YieldF oldLevel) k = Inr (snd (set_level pf oldLevel k))"
| "exec_frame pf SleepF k = Sleep_loop pf k"
| "exec_frame pf (SemPF s oldLevel) k = Semaphore_P_loop pf s oldLevel k"
| "exec_frame pf (AcquireF l oldLevel) k = Lock_Acquire_loop pf l oldLevel k"

definition pop :: "'m kernel \<Rightarrow> 'm kernel" where
  "pop k = k\<lparr>frames := (frames k)(currentThread k := tl (frames k (currentThread k)))\<rparr>"

definition step :: "'m platform \<Rightarrow> 'm kernel \<Rightarrow> 'm kernel result" where
  "step pf k =
     (case frames k (currentThread k) of
        [] \<Rightarrow> Inl NoFrame
      | f # fs \<Rightarrow> exec_frame pf f (pop k))"

text \<open>\<open>n\<close> steps; the second component says why the machine stopped earlier, if it did.\<close>

fun run :: "'m platform \<Rightarrow> nat \<Rightarrow> 'm kernel \<Rightarrow> 'm kernel \<times> error option" where
  "run pf 0 k = (k, None)"
| "run pf (Suc n) k = (case step pf k of Inl e \<Rightarrow> (k, Some e) | Inr k' \<Rightarrow> run pf n k')"

section \<open>The system with its hardware\<close>

inductive sys_step :: "'m platform \<Rightarrow> 'm kernel \<Rightarrow> 'm kernel \<Rightarrow> bool" for pf where
  thread_step: "step pf k = Inr k' \<Longrightarrow> sys_step pf k k'"
| time_slice: "getLevel pf (interrupt k) = IntOn \<Longrightarrow>
    Thread_Yield pf (currentThread k) k = Inr k' \<Longrightarrow> sys_step pf k k'"
| device: "getLevel pf (interrupt k) = IntOn \<Longrightarrow>
    Semaphore_V pf s k = Inr k' \<Longrightarrow> sys_step pf k k'"

inductive reachable :: "'m platform \<Rightarrow> 'm kernel \<Rightarrow> 'm kernel \<Rightarrow> bool" for pf k0 where
  reach_init: "reachable pf k0 k0"
| reach_step: "reachable pf k0 k \<Longrightarrow> sys_step pf k k' \<Longrightarrow> reachable pf k0 k'"

text \<open>To run the machine on a concrete state.\<close>

declare step_def [run_simps] pop_def [run_simps] push_def [run_simps] log_event_def [run_simps]
  set_level_def [run_simps] Lock_Acquire_loop_def [run_simps] Lock_Acquire_def [run_simps]
  Lock_Release_def [run_simps] Semaphore_P_def [run_simps] Semaphore_P_loop_def [run_simps]
  Semaphore_V_def [run_simps] List_Remove_def [run_simps] List_SortedRemove_def [run_simps]
  List_IsEmpty_def [run_simps]

inductive_cases sys_stepE [consumes 1, case_names thread_step time_slice device]: "sys_step pf k k'"

end
