(* ===== verification/ThreadTest.thy ===== *)
theory ThreadTest
  imports Machine
begin

text \<open>
  \<open>threadtest.cc\<close>: the test programs, as the statements their procedures execute. \<open>%d\<close> is
  printed by \<open>decimal\<close>. The addresses of the procedures are arguments (the linker's choice).
\<close>

section \<open>Decimal numbers\<close>

definition digit :: "nat \<Rightarrow> char" where
  "digit d = char_of (48 + d)"

fun decimal_nat :: "nat \<Rightarrow> string" where
  "decimal_nat n = (if n < 10 then [digit n] else decimal_nat (n div 10) @ [digit (n mod 10)])"

declare decimal_nat.simps [simp del]

definition decimal :: "int \<Rightarrow> string" where
  "decimal i = (if i < 0 then CHR ''-'' # decimal_nat (nat (- i)) else decimal_nat (nat i))"

definition newline :: string where
  "newline = [CHR 0x0A]"

section \<open>The ping-pong test\<close>

definition looped :: "int \<Rightarrow> nat \<Rightarrow> string" where
  "looped which num = ''*** thread '' @ decimal which @ '' looped '' @ decimal (int num) @
     '' times'' @ newline"

definition SimpleThread_loop :: "int \<Rightarrow> nat \<Rightarrow> nat \<Rightarrow> stmt list" where
  "SimpleThread_loop which i n = concat (map (\<lambda>num. [Printf (looped which num), CurrentYield]) [i..<n])"

definition SimpleThread :: "int \<Rightarrow> stmt list" where
  "SimpleThread which = SimpleThread_loop which 0 5"

definition ThreadTest1 :: "word32 \<Rightarrow> stmt list" where
  "ThreadTest1 addr_SimpleThread = ForkNew ''forked thread'' addr_SimpleThread 1 # SimpleThread 0"

section \<open>The lock test\<close>

definition LockThread1 :: "int \<Rightarrow> stmt list" where
  "LockThread1 param =
     [Printf (''L1:0'' @ newline), Acquire Locktest1,
      Printf (''L1:1'' @ newline), CurrentYield,
      Printf (''L1:2'' @ newline), Release Locktest1,
      Printf (''L1:3'' @ newline)]"

definition LockThread2 :: "int \<Rightarrow> stmt list" where
  "LockThread2 param =
     [Printf (''L2:0'' @ newline), Acquire Locktest1,
      Printf (''L2:1'' @ newline), CurrentYield,
      Printf (''L2:2'' @ newline), Release Locktest1,
      Printf (''L2:3'' @ newline)]"

definition LockTest1 :: "word32 \<Rightarrow> word32 \<Rightarrow> stmt list" where
  "LockTest1 addr_LockThread1 addr_LockThread2 =
     [NewLocktest1 ''LockTest1'',
      ForkNew ''one'' addr_LockThread1 0,
      ForkNew ''two'' addr_LockThread2 0]"

section \<open>Choosing a test\<close>

definition ThreadTest :: "int \<Rightarrow> word32 \<Rightarrow> word32 \<Rightarrow> word32 \<Rightarrow> stmt list" where
  "ThreadTest testnum addr_SimpleThread addr_LockThread1 addr_LockThread2 =
     (if testnum = 1 then ThreadTest1 addr_SimpleThread
      else if testnum = 2 then LockTest1 addr_LockThread1 addr_LockThread2
      else [Printf (''No test specified.'' @ newline)])"

text \<open>The program text: what is at the three addresses. The argument is an \<open>int\<close>.\<close>

definition test_program :: "word32 \<Rightarrow> word32 \<Rightarrow> word32 \<Rightarrow> word32 \<Rightarrow> word32 \<Rightarrow> stmt list" where
  "test_program addr_SimpleThread addr_LockThread1 addr_LockThread2 a arg =
     (if a = addr_SimpleThread then SimpleThread (sint arg)
      else if a = addr_LockThread1 then LockThread1 (sint arg)
      else if a = addr_LockThread2 then LockThread2 (sint arg)
      else [])"

end
