(* ===== verification/KernelInv.thy ===== *)
theory KernelInv
  imports Machine
begin

text \<open>
  The invariant of the thread system. Seen from outside the heap, every queue (ready list,
  waiting queue of a semaphore or of a lock, list of a synchronized list) is a HOL list
  \<open>queue k ow\<close>. \<open>place\<close> says from a thread's status and frames which queue it must be on;
  the invariant says that each thread is on that queue, once, and on no other.
\<close>

section \<open>Queues and who owns them\<close>

datatype owner = ReadyQ | SemQ ptr | LockQ ptr | SynchQ ptr

fun queue_of :: "'m kernel \<Rightarrow> owner \<Rightarrow> ptr option" where
  "queue_of k ReadyQ = Some (readyList k)"
| "queue_of k (SemQ s) = map_option sem_queue (semaphores k s)"
| "queue_of k (LockQ l) = map_option lock_queue (locks k l)"
| "queue_of k (SynchQ sl) = map_option sl_list (synchlists k sl)"

fun owner_at :: "owner \<Rightarrow> ptr" where
  "owner_at ReadyQ = NULL"
| "owner_at (SemQ s) = s"
| "owner_at (LockQ l) = l"
| "owner_at (SynchQ sl) = sl"

definition queue :: "'m kernel \<Rightarrow> owner \<Rightarrow> ptr list" where
  "queue k ow = (case queue_of k ow of None \<Rightarrow> []
     | Some q \<Rightarrow> (case lists_of (heap k) q of None \<Rightarrow> [] | Some es \<Rightarrow> map snd es))"

definition wf :: "'m kernel \<Rightarrow> bool" where
  "wf k \<longleftrightarrow> heap_ok (heap k) \<and>
     (\<forall>ow q. queue_of k ow = Some q \<longrightarrow> lists_of (heap k) q \<noteq> None) \<and>
     (\<forall>ow ow' q. queue_of k ow = Some q \<longrightarrow> queue_of k ow' = Some q \<longrightarrow> ow = ow') \<and>
     (\<forall>ow. queue_of k ow \<noteq> None \<longrightarrow> owner_at ow < fresh (heap k)) \<and>
     (\<forall>t. threads k t \<noteq> None \<longrightarrow> t \<noteq> NULL \<and> t < fresh (heap k))"

lemma wfD:
  assumes "wf k"
  shows "heap_ok (heap k)"
    and "queue_of k ow = Some q \<Longrightarrow> lists_of (heap k) q \<noteq> None"
    and "queue_of k ow = Some q \<Longrightarrow> queue_of k ow' = Some q \<Longrightarrow> ow = ow'"
    and "threads k t \<noteq> None \<Longrightarrow> t \<noteq> NULL"
    and "threads k t \<noteq> None \<Longrightarrow> t < fresh (heap k)"
    and "queue_of k ow \<noteq> None \<Longrightarrow> owner_at ow < fresh (heap k)"
  using assms unfolding wf_def by blast+

lemma wfI:
  assumes "heap_ok (heap k)"
    and "\<And>ow q. queue_of k ow = Some q \<Longrightarrow> lists_of (heap k) q \<noteq> None"
    and "\<And>ow ow' q. queue_of k ow = Some q \<Longrightarrow> queue_of k ow' = Some q \<Longrightarrow> ow = ow'"
    and "\<And>ow. queue_of k ow \<noteq> None \<Longrightarrow> owner_at ow < fresh (heap k)"
    and "\<And>t. threads k t \<noteq> None \<Longrightarrow> t \<noteq> NULL \<and> t < fresh (heap k)"
  shows "wf k"
  using assms unfolding wf_def by blast

lemma queue_of_upd [simp]:
  "queue_of (k\<lparr>heap := h\<rparr>) = queue_of k"
  "queue_of (k\<lparr>threads := th\<rparr>) = queue_of k"
  "queue_of (k\<lparr>frames := fr\<rparr>) = queue_of k"
  "queue_of (k\<lparr>currentThread := c\<rparr>) = queue_of k"
  "queue_of (k\<lparr>threadToBeDestroyed := d\<rparr>) = queue_of k"
  "queue_of (k\<lparr>interrupt := m\<rparr>) = queue_of k"
  "queue_of (k\<lparr>locktest1 := lt\<rparr>) = queue_of k"
  "queue_of (k\<lparr>printed := out\<rparr>) = queue_of k"
  "queue_of (k\<lparr>history := hist\<rparr>) = queue_of k"
  by (rule ext, case_tac x, simp_all)+

lemma queue_upd [simp]:
  "queue (k\<lparr>threads := th\<rparr>) = queue k"
  "queue (k\<lparr>frames := fr\<rparr>) = queue k"
  "queue (k\<lparr>currentThread := c\<rparr>) = queue k"
  "queue (k\<lparr>threadToBeDestroyed := d\<rparr>) = queue k"
  "queue (k\<lparr>interrupt := m\<rparr>) = queue k"
  "queue (k\<lparr>locktest1 := lt\<rparr>) = queue k"
  "queue (k\<lparr>printed := out\<rparr>) = queue k"
  "queue (k\<lparr>history := hist\<rparr>) = queue k"
  by (rule ext, simp add: queue_def cong: option.case_cong)+

lemma wf_upd [simp]:
  "wf (k\<lparr>frames := fr\<rparr>) = wf k"
  "wf (k\<lparr>currentThread := c\<rparr>) = wf k"
  "wf (k\<lparr>threadToBeDestroyed := d\<rparr>) = wf k"
  "wf (k\<lparr>interrupt := m\<rparr>) = wf k"
  "wf (k\<lparr>locktest1 := lt\<rparr>) = wf k"
  "wf (k\<lparr>printed := out\<rparr>) = wf k"
  "wf (k\<lparr>history := hist\<rparr>) = wf k"
  by (simp_all add: wf_def)

lemma wf_threads:
  "wf k \<Longrightarrow> threads k t \<noteq> None \<Longrightarrow> wf (k\<lparr>threads := (threads k)(t \<mapsto> T)\<rparr>)"
  "wf k \<Longrightarrow> wf (k\<lparr>threads := (threads k)(t := None)\<rparr>)"
  by (auto simp: wf_def split: if_splits)

lemma wf_not_NULL: "wf k \<Longrightarrow> threads k t = Some T \<Longrightarrow> t \<noteq> NULL"
  by (auto simp: wf_def)

lemma queue_of_value [simp]:
  "semaphores k s = Some S \<Longrightarrow>
     queue_of (k\<lparr>semaphores := (semaphores k)(s \<mapsto> S\<lparr>sem_value := v\<rparr>)\<rparr>) = queue_of k"
  "locks k l = Some L \<Longrightarrow>
     queue_of (k\<lparr>locks := (locks k)(l \<mapsto> L\<lparr>held := v\<rparr>)\<rparr>) = queue_of k"
  by (rule ext, case_tac x, simp_all)+

lemma queue_value [simp]:
  "semaphores k s = Some S \<Longrightarrow>
     queue (k\<lparr>semaphores := (semaphores k)(s \<mapsto> S\<lparr>sem_value := v\<rparr>)\<rparr>) = queue k"
  "locks k l = Some L \<Longrightarrow>
     queue (k\<lparr>locks := (locks k)(l \<mapsto> L\<lparr>held := v\<rparr>)\<rparr>) = queue k"
  by (rule ext, simp add: queue_def cong: option.case_cong)+

lemma wf_value [simp]:
  "semaphores k s = Some S \<Longrightarrow>
     wf (k\<lparr>semaphores := (semaphores k)(s \<mapsto> S\<lparr>sem_value := v\<rparr>)\<rparr>) = wf k"
  "locks k l = Some L \<Longrightarrow>
     wf (k\<lparr>locks := (locks k)(l \<mapsto> L\<lparr>held := v\<rparr>)\<rparr>) = wf k"
  by (simp_all add: wf_def)

lemma wf_queueE:
  assumes "wf k" and "queue_of k ow = Some q"
  obtains es where "heap_ok (heap k)" and "lists_of (heap k) q = Some es"
    and "queue k ow = map snd es"
  using wfD(1,2) [OF assms(1)] assms(2) by (fastforce simp: queue_def)

lemma wf_heap_change:
  assumes wf: "wf k" and q: "queue_of k ow = Some q" and ok: "heap_ok h"
    and lists: "lists_of h = (lists_of (heap k))(q \<mapsto> es)" and fr: "fresh (heap k) \<le> fresh h"
  shows "wf (k\<lparr>heap := h\<rparr>)" and "queue (k\<lparr>heap := h\<rparr>) = (queue k)(ow := map snd es)"
proof -
  show "wf (k\<lparr>heap := h\<rparr>)"
  proof (rule wfI)
    show "heap_ok (heap (k\<lparr>heap := h\<rparr>))" using ok by simp
  next
    fix ow' q' assume "queue_of (k\<lparr>heap := h\<rparr>) ow' = Some q'"
    then show "lists_of (heap (k\<lparr>heap := h\<rparr>)) q' \<noteq> None" using wfD(2) [OF wf] lists by simp
  next
    fix ow1 ow2 q'
    assume "queue_of (k\<lparr>heap := h\<rparr>) ow1 = Some q'" "queue_of (k\<lparr>heap := h\<rparr>) ow2 = Some q'"
    then show "ow1 = ow2" using wfD(3) [OF wf, of ow1 q' ow2] by simp
  next
    fix o' assume "queue_of (k\<lparr>heap := h\<rparr>) o' \<noteq> None"
    then show "owner_at o' < fresh (heap (k\<lparr>heap := h\<rparr>))" using wfD(6) [OF wf, of o'] fr by simp
  next
    fix t assume "threads (k\<lparr>heap := h\<rparr>) t \<noteq> None"
    then show "t \<noteq> NULL \<and> t < fresh (heap (k\<lparr>heap := h\<rparr>))"
      using wfD(4,5) [OF wf, of t] fr by simp
  qed
  show "queue (k\<lparr>heap := h\<rparr>) = (queue k)(ow := map snd es)"
  proof
    fix ow'
    show "queue (k\<lparr>heap := h\<rparr>) ow' = ((queue k)(ow := map snd es)) ow'"
    proof (cases "ow' = ow")
      case True
      then show ?thesis using q lists by (simp add: queue_def)
    next
      case False
      then have "queue_of k ow' \<noteq> Some q" using wfD(3) [OF wf q, of ow'] by blast
      with False show ?thesis using lists by (auto simp: queue_def split: option.split)
    qed
  qed
qed

lemma queue_append:
  assumes wf: "wf k" and q: "queue_of k ow = Some q"
  shows "\<exists>h. List_Append q x (heap k) = Inr h \<and> wf (k\<lparr>heap := h\<rparr>) \<and>
     queue (k\<lparr>heap := h\<rparr>) = (queue k)(ow := queue k ow @ [x])"
proof -
  from wf q obtain es where es: "heap_ok (heap k)" "lists_of (heap k) q = Some es"
    "queue k ow = map snd es" by (rule wf_queueE)
  from Append_spec [OF es(1,2)] obtain h where h: "List_Append q x (heap k) = Inr h" "heap_ok h"
    "lists_of h = (lists_of (heap k))(q \<mapsto> es @ [(0, x)])" "fresh (heap k) \<le> fresh h" by blast
  from wf_heap_change [OF wf q h(2-4)] h(1) es(3) show ?thesis by simp
qed

lemma queue_remove:
  assumes wf: "wf k" and q: "queue_of k ow = Some q" and x: "queue k ow = x # xs"
  shows "\<exists>h. List_Remove q (heap k) = Inr (x, h) \<and> wf (k\<lparr>heap := h\<rparr>) \<and>
     queue (k\<lparr>heap := h\<rparr>) = (queue k)(ow := xs)"
proof -
  from wf q obtain es where es: "heap_ok (heap k)" "lists_of (heap k) q = Some es"
    "queue k ow = map snd es" by (rule wf_queueE)
  with x obtain e es' where e: "es = e # es'" "x = snd e" "xs = map snd es'" by auto
  from Remove_spec [OF es(1) es(2) [unfolded e(1)]] obtain h
    where h: "List_Remove q (heap k) = Inr (snd e, h)" "heap_ok h"
      "lists_of h = (lists_of (heap k))(q \<mapsto> es')" "fresh h = fresh (heap k)" by blast
  from wf_heap_change [OF wf q h(2,3)] h(1,4) e show ?thesis by simp
qed

lemma queue_remove_empty:
  assumes wf: "wf k" and q: "queue_of k ow = Some q" and x: "queue k ow = []"
  shows "List_Remove q (heap k) = Inr (NULL, heap k)"
proof -
  from wf q obtain es where es: "heap_ok (heap k)" "lists_of (heap k) q = Some es"
    "queue k ow = map snd es" by (rule wf_queueE)
  with x Remove_empty show ?thesis by simp
qed

section \<open>Frames\<close>

fun user_frame :: "frame \<Rightarrow> bool" where
  "user_frame (CallF a arg) = True"
| "user_frame (CodeF ss) = True"
| "user_frame (MapcarF func pt) = True"
| "user_frame (MapcarNextF func pt) = True"
| "user_frame _ = False"

abbreviation user_frames :: "frame list \<Rightarrow> bool" where
  "user_frames \<equiv> list_all user_frame"

text \<open>What can be below \<open>RunF\<close> or \<open>SleepF\<close>.\<close>

fun resumable :: "frame list \<Rightarrow> bool" where
  "resumable (YieldF l # us) = user_frames us"
| "resumable (SemPF s l # us) = user_frames us"
| "resumable (AcquireF s l # us) = user_frames us"
| "resumable us = user_frames us"

fun suspended :: "frame list \<Rightarrow> bool" where
  "suspended (RunF # fs) = resumable fs"
| "suspended fs = (fs = [RootF])"

fun asleep :: "frame list \<Rightarrow> bool" where
  "asleep (SleepF # fs) = True"
| "asleep fs = False"

definition running :: "frame list \<Rightarrow> bool" where
  "running fs \<longleftrightarrow> suspended fs \<or> resumable fs \<or> (asleep fs \<and> resumable (tl fs))"

definition in_kernel :: "frame list \<Rightarrow> bool" where
  "in_kernel fs \<longleftrightarrow> fs \<noteq> [] \<and> \<not> user_frame (hd fs)"

text \<open>The queue of the resource a suspended thread will test again.\<close>

fun waits_for :: "frame list \<Rightarrow> owner option" where
  "waits_for (SemPF s l # us) = Some (SemQ s)"
| "waits_for (AcquireF s l # us) = Some (LockQ s)"
| "waits_for (RunF # fs) = waits_for fs"
| "waits_for (SleepF # fs) = waits_for fs"
| "waits_for fs = None"

definition place :: "Thread option \<Rightarrow> frame list \<Rightarrow> owner option" where
  "place th fs = (case th of None \<Rightarrow> None
     | Some T \<Rightarrow> (case status T of READY \<Rightarrow> Some ReadyQ | BLOCKED \<Rightarrow> waits_for fs | _ \<Rightarrow> None))"

lemma place_simps [simp]:
  "place None fs = None"
  "status T = READY \<Longrightarrow> place (Some T) fs = Some ReadyQ"
  "status T = BLOCKED \<Longrightarrow> place (Some T) fs = waits_for fs"
  "status T = RUNNING \<Longrightarrow> place (Some T) fs = None"
  "status T = JUST_CREATED \<Longrightarrow> place (Some T) fs = None"
  by (simp_all add: place_def)

lemma user_waits_for: "user_frames us \<Longrightarrow> waits_for us = None"
  by (cases us rule: waits_for.cases) simp_all

lemma user_resumable: "user_frames us \<Longrightarrow> resumable us"
  by (cases us rule: resumable.cases) simp_all

lemma user_not_asleep: "user_frames us \<Longrightarrow> \<not> asleep us"
  by (cases us rule: asleep.cases) simp_all

lemma waits_for_queue: "waits_for fs = Some ow \<Longrightarrow> (\<exists>s. ow = SemQ s) \<or> (\<exists>l. ow = LockQ l)"
  by (induction fs rule: waits_for.induct) auto

lemma running_user: "running fs \<Longrightarrow> \<not> in_kernel fs \<Longrightarrow> user_frames fs"
  by (cases fs rule: resumable.cases) (auto simp: running_def in_kernel_def elim: suspended.elims asleep.elims)

section \<open>The invariant\<close>

definition thread_ok :: "'m platform \<Rightarrow> Thread \<Rightarrow> frame list \<Rightarrow> bool" where
  "thread_ok pf T fs \<longleftrightarrow> status T \<noteq> JUST_CREATED \<and>
     (\<forall>m. stack T = Some m \<longrightarrow> m (fencepost_index (host pf)) = Some STACK_FENCEPOST) \<and>
     (fs = [RootF] \<longrightarrow>
        machineState T (StartupPCState (host pf)) = Some (addr_InterruptEnable pf) \<and>
        machineState T (InitialPCState (host pf)) \<noteq> None \<and>
        machineState T (InitialArgState (host pf)) \<noteq> None \<and>
        machineState T (WhenDonePCState (host pf)) = Some (addr_ThreadFinish pf))"

definition thread_queue :: "owner \<Rightarrow> bool" where
  "thread_queue ow \<longleftrightarrow> (\<forall>sl. ow \<noteq> SynchQ sl)"

lemma thread_queue_simps [simp]:
  "thread_queue ReadyQ" "thread_queue (SemQ s)" "thread_queue (LockQ l)" "\<not> thread_queue (SynchQ sl)"
  by (simp_all add: thread_queue_def)

text \<open>
  Over the observed state: queues, threads, frames, current thread, thread to be destroyed
  and interrupt level.
\<close>

definition inv :: "'m platform \<Rightarrow> (owner \<Rightarrow> ptr list) \<Rightarrow> (ptr \<Rightarrow> Thread option) \<Rightarrow>
    (ptr \<Rightarrow> frame list) \<Rightarrow> ptr \<Rightarrow> ptr \<Rightarrow> IntStatus \<Rightarrow> bool" where
  "inv pf Q th fr cur dst lvl \<longleftrightarrow>
     (\<forall>ow. thread_queue ow \<longrightarrow>
        distinct (Q ow) \<and> (\<forall>t. t \<in> set (Q ow) \<longleftrightarrow> place (th t) (fr t) = Some ow)) \<and>
     (\<forall>t T. th t = Some T \<longrightarrow> thread_ok pf T (fr t)) \<and>
     (\<forall>t T. th t = Some T \<longrightarrow> t \<noteq> cur \<longrightarrow> suspended (fr t) \<and> status T \<noteq> RUNNING) \<and>
     (\<exists>T. th cur = Some T \<and> running (fr cur) \<and> (asleep (fr cur) \<longleftrightarrow> status T \<noteq> RUNNING)) \<and>
     (dst \<noteq> NULL \<longrightarrow> (\<exists>T. th dst = Some T \<and> status T = BLOCKED \<and> waits_for (fr dst) = None)) \<and>
     (in_kernel (fr cur) \<longrightarrow> lvl = IntOff)"

definition kinv :: "'m platform \<Rightarrow> 'm kernel \<Rightarrow> bool" where
  "kinv pf k \<longleftrightarrow> wf k \<and>
     inv pf (queue k) (threads k) (frames k) (currentThread k) (threadToBeDestroyed k)
       (getLevel pf (interrupt k))"

lemma invD:
  assumes "inv pf Q th fr cur dst lvl"
  shows "thread_queue ow \<Longrightarrow> distinct (Q ow)"
    and "thread_queue ow \<Longrightarrow> t \<in> set (Q ow) \<longleftrightarrow> place (th t) (fr t) = Some ow"
    and "th t = Some T \<Longrightarrow> thread_ok pf T (fr t)"
    and "th t = Some T \<Longrightarrow> t \<noteq> cur \<Longrightarrow> suspended (fr t)"
    and "th t = Some T \<Longrightarrow> t \<noteq> cur \<Longrightarrow> status T \<noteq> RUNNING"
    and "\<exists>T. th cur = Some T \<and> running (fr cur) \<and> (asleep (fr cur) \<longleftrightarrow> status T \<noteq> RUNNING)"
    and "dst \<noteq> NULL \<Longrightarrow> \<exists>T. th dst = Some T \<and> status T = BLOCKED \<and> waits_for (fr dst) = None"
    and "in_kernel (fr cur) \<Longrightarrow> lvl = IntOff"
  using assms unfolding inv_def by blast+

lemma inv_user_current:
  assumes "inv pf Q th fr cur dst lvl" and "user_frames (fr cur)"
  obtains T where "th cur = Some T" and "status T = RUNNING" and "thread_ok pf T (fr cur)"
  using assms invD(3,6) [OF assms(1)] user_not_asleep by blast

end
