(* ===== verification/InvSteps.thy ===== *)
theory InvSteps
  imports KernelInv
begin

text \<open>
  The moves of the thread system on the observed state, each shown to keep the invariant:
  the kernel's operations are compositions of these.
\<close>

lemma invI:
  assumes "\<And>ow. thread_queue ow \<Longrightarrow> distinct (Q ow)"
    and "\<And>ow t. thread_queue ow \<Longrightarrow> t \<in> set (Q ow) \<longleftrightarrow> place (th t) (fr t) = Some ow"
    and "\<And>t T. th t = Some T \<Longrightarrow> thread_ok pf T (fr t)"
    and "\<And>t T. th t = Some T \<Longrightarrow> t \<noteq> cur \<Longrightarrow> suspended (fr t) \<and> status T \<noteq> RUNNING"
    and "\<exists>T. th cur = Some T \<and> running (fr cur) \<and> (asleep (fr cur) \<longleftrightarrow> status T \<noteq> RUNNING)"
    and "dst \<noteq> NULL \<Longrightarrow> \<exists>T. th dst = Some T \<and> status T = BLOCKED \<and> waits_for (fr dst) = None"
    and "in_kernel (fr cur) \<Longrightarrow> lvl = IntOff"
  shows "inv pf Q th fr cur dst lvl"
  using assms unfolding inv_def by blast

lemma thread_ok_status:
  "thread_ok pf T fs \<Longrightarrow> st \<noteq> JUST_CREATED \<Longrightarrow> thread_ok pf (T\<lparr>status := st\<rparr>) fs"
  by (simp add: thread_ok_def)

lemma thread_ok_frames:
  "thread_ok pf T fs \<Longrightarrow> fs' \<noteq> [RootF] \<Longrightarrow> thread_ok pf T fs'"
  by (simp add: thread_ok_def)

lemma user_running: "user_frames us \<Longrightarrow> running us"
  by (simp add: running_def user_resumable)

lemma user_not_in_kernel: "user_frames us \<Longrightarrow> \<not> in_kernel us"
  by (cases us) (simp_all add: in_kernel_def)

lemma user_not_root: "user_frames us \<Longrightarrow> us \<noteq> [RootF]"
  by auto

lemma resumable_not_root: "resumable us \<Longrightarrow> us \<noteq> [RootF]"
  by auto

lemma resumable_not_asleep: "resumable us \<Longrightarrow> \<not> asleep us"
  by (cases us rule: resumable.cases) auto

section \<open>The current thread's own frames\<close>

lemma inv_user_frames:
  assumes inv: "inv pf Q th fr cur dst lvl" and user: "user_frames (fr cur)" "user_frames us"
  shows "inv pf Q th (fr(cur := us)) cur dst lvl'"
proof -
  from inv user(1) obtain T where T: "th cur = Some T" "status T = RUNNING" "thread_ok pf T (fr cur)"
    by (rule inv_user_current)
  show ?thesis
  proof (rule invI)
    show "thread_queue ow \<Longrightarrow> distinct (Q ow)" for ow by (rule invD(1) [OF inv])
    show "t \<in> set (Q ow) \<longleftrightarrow> place (th t) ((fr(cur := us)) t) = Some ow" if "thread_queue ow" for ow t
      using invD(2) [OF inv that, of t] T by (cases "t = cur") simp_all
    show "th t = Some T \<Longrightarrow> thread_ok pf T ((fr(cur := us)) t)" for t T
      using invD(3) [OF inv] user_not_root [OF user(2)] by (auto intro: thread_ok_frames)
    show "th t = Some T \<Longrightarrow> t \<noteq> cur \<Longrightarrow> suspended ((fr(cur := us)) t) \<and> status T \<noteq> RUNNING" for t T
      using invD(4,5) [OF inv] by simp
    show "\<exists>T. th cur = Some T \<and> running ((fr(cur := us)) cur) \<and>
        (asleep ((fr(cur := us)) cur) \<longleftrightarrow> status T \<noteq> RUNNING)"
      using T user_running [OF user(2)] user_not_asleep [OF user(2)] by simp
    show "\<exists>T. th dst = Some T \<and> status T = BLOCKED \<and> waits_for ((fr(cur := us)) dst) = None" if "dst \<noteq> NULL"
      using invD(7) [OF inv that] T by auto
    show "in_kernel ((fr(cur := us)) cur) \<Longrightarrow> lvl' = IntOff"
      using user_not_in_kernel [OF user(2)] by simp
  qed
qed

lemma running_Cons:
  assumes "running (f # fs)" and "f \<noteq> SleepF"
  shows "resumable fs" and "f \<noteq> RunF \<Longrightarrow> user_frames fs"
  using assms by (cases f; auto simp: running_def intro: user_resumable)+

lemma inv_pop:
  assumes inv: "inv pf Q th fr cur dst lvl" and fr: "fr cur = f # fs" and f: "f \<noteq> SleepF"
  shows "inv pf Q th (fr(cur := fs)) cur dst lvl"
    and "\<not> user_frame f \<Longrightarrow> lvl = IntOff"
    and "resumable fs" and "f \<noteq> RunF \<Longrightarrow> user_frames fs"
proof -
  from invD(6) [OF inv] fr f obtain T where T: "th cur = Some T" "running (f # fs)" "status T = RUNNING"
    by (cases f) auto
  show res: "resumable fs" and user: "f \<noteq> RunF \<Longrightarrow> user_frames fs"
    using running_Cons [OF T(2) f] by simp_all
  show lvl: "\<not> user_frame f \<Longrightarrow> lvl = IntOff"
    using invD(8) [OF inv] fr by (simp add: in_kernel_def)
  have run: "user_frame f \<Longrightarrow> user_frames fs" using user by (cases f) simp_all
  show "inv pf Q th (fr(cur := fs)) cur dst lvl"
  proof (rule invI)
    show "thread_queue ow \<Longrightarrow> distinct (Q ow)" for ow by (rule invD(1) [OF inv])
    show "t \<in> set (Q ow) \<longleftrightarrow> place (th t) ((fr(cur := fs)) t) = Some ow" if "thread_queue ow" for ow t
      using invD(2) [OF inv that, of t] T by (cases "t = cur") simp_all
    show "th t = Some T \<Longrightarrow> thread_ok pf T ((fr(cur := fs)) t)" for t T
      using invD(3) [OF inv] resumable_not_root [OF res] by (auto intro: thread_ok_frames)
    show "th t = Some T \<Longrightarrow> t \<noteq> cur \<Longrightarrow> suspended ((fr(cur := fs)) t) \<and> status T \<noteq> RUNNING" for t T
      using invD(4,5) [OF inv] by simp
    show "\<exists>T. th cur = Some T \<and> running ((fr(cur := fs)) cur) \<and>
        (asleep ((fr(cur := fs)) cur) \<longleftrightarrow> status T \<noteq> RUNNING)"
      using T res resumable_not_asleep [OF res] by (simp add: running_def)
    show "\<exists>T. th dst = Some T \<and> status T = BLOCKED \<and> waits_for ((fr(cur := fs)) dst) = None" if "dst \<noteq> NULL"
      using invD(7) [OF inv that] T by auto
    show "in_kernel ((fr(cur := fs)) cur) \<Longrightarrow> lvl = IntOff"
      using lvl run user_not_in_kernel by auto
  qed
qed

section \<open>Waking a waiting thread\<close>

lemma inv_wake:
  assumes inv: "inv pf Q th fr cur dst lvl" and Q: "Q ow = t # q"
    and ow: "ow \<noteq> ReadyQ" "thread_queue ow"
  shows "\<exists>T. th t = Some T \<and>
    inv pf (Q(ow := q, ReadyQ := Q ReadyQ @ [t])) (th(t \<mapsto> T\<lparr>status := READY\<rparr>)) fr cur dst lvl"
proof -
  have "place (th t) (fr t) = Some ow" using invD(2) [OF inv ow(2), of t] Q by simp
  then obtain T where T: "th t = Some T" "status T = BLOCKED" "waits_for (fr t) = Some ow"
    using ow by (cases "th t") (auto simp: place_def split: ThreadStatus.splits)
  have dist: "distinct (t # q)" using invD(1) [OF inv ow(2)] Q by simp
  have not_ready: "t \<notin> set (Q ReadyQ)" using invD(2) [OF inv, of ReadyQ t] T ow by simp
  let ?Q = "Q(ow := q, ReadyQ := Q ReadyQ @ [t])" and ?th = "th(t \<mapsto> T\<lparr>status := READY\<rparr>)"
  have "inv pf ?Q ?th fr cur dst lvl"
  proof (rule invI)
    show "thread_queue o' \<Longrightarrow> distinct (?Q o')" for o'
      using invD(1) [OF inv, of o'] dist not_ready invD(1) [OF inv, of ReadyQ] by auto
    show "u \<in> set (?Q o') \<longleftrightarrow> place (?th u) (fr u) = Some o'" if "thread_queue o'" for o' u
    proof (cases "u = t")
      case True
      then show ?thesis using invD(2) [OF inv that, of t] T dist not_ready ow(1) by auto
    next
      case False
      then show ?thesis using invD(2) [OF inv that, of u] Q invD(2) [OF inv ow(2), of u] by auto
    qed
    show "thread_ok pf T' (fr u)" if "?th u = Some T'" for u T'
      using that invD(3) [OF inv, of u] T(1) by (auto split: if_splits intro: thread_ok_status)
    show "suspended (fr u) \<and> status T' \<noteq> RUNNING" if "?th u = Some T'" "u \<noteq> cur" for u T'
      using that invD(4,5) [OF inv, of u] T(1) by (auto split: if_splits)
    show "\<exists>T'. ?th cur = Some T' \<and> running (fr cur) \<and> (asleep (fr cur) \<longleftrightarrow> status T' \<noteq> RUNNING)"
      using invD(6) [OF inv] T by auto
    show "\<exists>T'. ?th dst = Some T' \<and> status T' = BLOCKED \<and> waits_for (fr dst) = None" if "dst \<noteq> NULL"
      using invD(7) [OF inv that] T by auto
    show "in_kernel (fr cur) \<Longrightarrow> lvl = IntOff" by (rule invD(8) [OF inv])
  qed
  with T(1) show ?thesis by blast
qed

section \<open>Dispatching from the loop of Sleep\<close>

lemma inv_dispatch:
  assumes inv: "inv pf Q th (fr(cur := SleepF # fs)) cur dst lvl" and Q: "Q ReadyQ = n # q"
    and res: "resumable fs"
  shows "\<exists>T. th n = Some T \<and>
    inv pf (Q(ReadyQ := q)) (th(n \<mapsto> T\<lparr>status := RUNNING\<rparr>)) (fr(cur := RunF # fs)) n dst lvl"
proof -
  let ?fr = "fr(cur := SleepF # fs)" and ?fr' = "fr(cur := RunF # fs)"
  have "place (th n) (?fr n) = Some ReadyQ" using invD(2) [OF inv, of ReadyQ n] Q by simp
  then obtain T where T: "th n = Some T" "status T = READY"
    by (cases "th n") (auto simp: place_def dest: waits_for_queue split: ThreadStatus.splits)
  from invD(6) [OF inv] obtain C where C: "th cur = Some C" "status C \<noteq> RUNNING" by auto
  have dist: "distinct (n # q)" using invD(1) [OF inv, of ReadyQ] Q by simp
  have lvl: "lvl = IntOff" using invD(8) [OF inv] by (simp add: in_kernel_def)
  have waits: "waits_for (?fr' u) = waits_for (?fr u)" for u by simp
  then have place: "place x (?fr' u) = place x (?fr u)" for x u by (simp only: place_def)
  let ?th = "th(n \<mapsto> T\<lparr>status := RUNNING\<rparr>)" and ?Q = "Q(ReadyQ := q)"
  have sus: "suspended (?fr' u)" if "th u = Some U" for u U
    using invD(4) [OF inv that] res by (cases "u = cur") simp_all
  have "inv pf ?Q ?th ?fr' n dst lvl"
  proof (rule invI)
    show "thread_queue o' \<Longrightarrow> distinct (?Q o')" for o'
      using invD(1) [OF inv, of o'] dist by auto
    show "u \<in> set (?Q o') \<longleftrightarrow> place (?th u) (?fr' u) = Some o'" if "thread_queue o'" for o' u
    proof (cases "u = n")
      case True
      then show ?thesis using invD(2) [OF inv that, of n] T dist by auto
    next
      case False
      then show ?thesis using invD(2) [OF inv that, of u] Q unfolding place by auto
    qed
    show "thread_ok pf T' (?fr' u)" if "?th u = Some T'" for u T'
    proof -
      from that obtain U where U: "th u = Some U" "T' = U \<or> T' = U\<lparr>status := RUNNING\<rparr>"
        using T(1) by (auto split: if_splits)
      have "thread_ok pf U (?fr' u)" using invD(3) [OF inv U(1)] by (cases "u = cur") (auto simp: thread_ok_def)
      with U(2) show ?thesis by (auto intro: thread_ok_status)
    qed
    show "suspended (?fr' u) \<and> status T' \<noteq> RUNNING" if "?th u = Some T'" "u \<noteq> n" for u T'
      using that sus [of u] invD(5) [OF inv, of u] C by (cases "u = cur") auto
    show "\<exists>T'. ?th n = Some T' \<and> running (?fr' n) \<and> (asleep (?fr' n) \<longleftrightarrow> status T' \<noteq> RUNNING)"
      using sus [OF T(1)] by (cases "?fr' n" rule: asleep.cases) (auto simp: running_def)
    show "\<exists>T'. ?th dst = Some T' \<and> status T' = BLOCKED \<and> waits_for (?fr' dst) = None" if "dst \<noteq> NULL"
      using invD(7) [OF inv that] T unfolding waits by auto
    show "in_kernel (?fr' n) \<Longrightarrow> lvl = IntOff" by (rule lvl)
  qed
  with T(1) show ?thesis by blast
qed

section \<open>Yielding to another thread\<close>

lemma inv_yield:
  assumes inv: "inv pf Q th fr cur dst lvl" and user: "user_frames (fr cur)" and Q: "Q ReadyQ = n # q"
  shows "\<exists>C T. th cur = Some C \<and> th n = Some T \<and> n \<noteq> cur \<and>
    inv pf (Q(ReadyQ := q @ [cur])) (th(cur \<mapsto> C\<lparr>status := READY\<rparr>, n \<mapsto> T\<lparr>status := RUNNING\<rparr>))
      (fr(cur := RunF # YieldF l # fr cur)) n dst IntOff"
proof -
  from inv user obtain C where C: "th cur = Some C" "status C = RUNNING" "thread_ok pf C (fr cur)"
    by (rule inv_user_current)
  have "place (th n) (fr n) = Some ReadyQ" using invD(2) [OF inv, of ReadyQ n] Q by simp
  then obtain T where T: "th n = Some T" "status T = READY"
    by (cases "th n") (auto simp: place_def dest: waits_for_queue split: ThreadStatus.splits)
  have ne: "n \<noteq> cur" using C T by auto
  have dist: "distinct (n # q)" using invD(1) [OF inv, of ReadyQ] Q by simp
  have cur_q: "cur \<notin> set q" using invD(2) [OF inv, of ReadyQ cur] C Q by simp
  let ?th = "th(cur \<mapsto> C\<lparr>status := READY\<rparr>, n \<mapsto> T\<lparr>status := RUNNING\<rparr>)"
    and ?Q = "Q(ReadyQ := q @ [cur])" and ?fr = "fr(cur := RunF # YieldF l # fr cur)"
  have sus: "suspended (?fr u)" if "th u = Some U" for u U
    using invD(4) [OF inv that] user by (cases "u = cur") simp_all
  have "inv pf ?Q ?th ?fr n dst IntOff"
  proof (rule invI)
    show "thread_queue o' \<Longrightarrow> distinct (?Q o')" for o'
      using invD(1) [OF inv, of o'] dist cur_q by auto
    show "u \<in> set (?Q o') \<longleftrightarrow> place (?th u) (?fr u) = Some o'" if "thread_queue o'" for o' u
      using invD(2) [OF inv that, of u] T C Q dist cur_q ne by (cases "u = n"; cases "u = cur") auto
    show "thread_ok pf T' (?fr u)" if "?th u = Some T'" for u T'
    proof -
      from that obtain U where U: "th u = Some U" "T' = U \<or> T' = U\<lparr>status := RUNNING\<rparr> \<or> T' = U\<lparr>status := READY\<rparr>"
        using T(1) C(1) by (auto split: if_splits)
      have "thread_ok pf U (?fr u)" using invD(3) [OF inv U(1)] by (cases "u = cur") (auto simp: thread_ok_def)
      with U(2) show ?thesis by (auto intro: thread_ok_status)
    qed
    show "suspended (?fr u) \<and> status T' \<noteq> RUNNING" if "?th u = Some T'" "u \<noteq> n" for u T'
      using that sus [of u] invD(5) [OF inv, of u] C by (cases "u = cur") auto
    show "\<exists>T'. ?th n = Some T' \<and> running (?fr n) \<and> (asleep (?fr n) \<longleftrightarrow> status T' \<noteq> RUNNING)"
      using sus [OF T(1)] by (cases "?fr n" rule: asleep.cases) (auto simp: running_def)
    show "\<exists>T'. ?th dst = Some T' \<and> status T' = BLOCKED \<and> waits_for (?fr dst) = None" if "dst \<noteq> NULL"
      using invD(7) [OF inv that] T C by auto
  qed simp
  with T(1) C(1) ne show ?thesis by blast
qed

section \<open>Going to sleep\<close>

lemma inv_sleep:
  assumes inv: "inv pf Q th fr cur dst lvl" and user: "user_frames (fr cur)"
    and fs: "resumable fs"
    and Q': "\<And>o'. thread_queue o' \<Longrightarrow> Q' o' = (if waits_for fs = Some o' then Q o' @ [cur] else Q o')"
    and dst': "dst' = dst \<or> dst' = cur \<and> waits_for fs = None"
  shows "\<exists>C. th cur = Some C \<and>
    inv pf Q' (th(cur \<mapsto> C\<lparr>status := BLOCKED\<rparr>)) (fr(cur := SleepF # fs)) cur dst' IntOff"
proof -
  from inv user obtain C where C: "th cur = Some C" "status C = RUNNING" "thread_ok pf C (fr cur)"
    by (rule inv_user_current)
  have notin: "cur \<notin> set (Q o')" if "thread_queue o'" for o'
    using invD(2) [OF inv that, of cur] C by simp
  let ?th = "th(cur \<mapsto> C\<lparr>status := BLOCKED\<rparr>)" and ?fr = "fr(cur := SleepF # fs)"
  have "inv pf Q' ?th ?fr cur dst' IntOff"
  proof (rule invI)
    show "thread_queue o' \<Longrightarrow> distinct (Q' o')" for o'
      using invD(1) [OF inv, of o'] notin [of o'] Q' [of o'] by auto
    show "u \<in> set (Q' o') \<longleftrightarrow> place (?th u) (?fr u) = Some o'" if "thread_queue o'" for o' u
      using invD(2) [OF inv that, of u] C notin [OF that] Q' [OF that] by (cases "u = cur") auto
    show "thread_ok pf T' (?fr u)" if "?th u = Some T'" for u T'
      using that invD(3) [OF inv, of u] C by (auto simp: thread_ok_def split: if_splits)
    show "suspended (?fr u) \<and> status T' \<noteq> RUNNING" if "?th u = Some T'" "u \<noteq> cur" for u T'
      using that invD(4,5) [OF inv, of u] by auto
    show "\<exists>T'. ?th cur = Some T' \<and> running (?fr cur) \<and> (asleep (?fr cur) \<longleftrightarrow> status T' \<noteq> RUNNING)"
      using fs by (simp add: running_def)
    show "\<exists>T'. ?th dst' = Some T' \<and> status T' = BLOCKED \<and> waits_for (?fr dst') = None" if "dst' \<noteq> NULL"
      using invD(7) [OF inv] that dst' C by auto
  qed simp
  with C(1) show ?thesis by blast
qed

section \<open>Deleting a finished thread, adding a forked one\<close>

lemma inv_destroy:
  assumes inv: "inv pf Q th fr cur dst lvl" and run: "\<not> asleep (fr cur)" and dst: "dst \<noteq> NULL"
  shows "dst \<noteq> cur" and "th dst \<noteq> None"
    and "inv pf Q (th(dst := None)) (fr(dst := [])) cur NULL lvl"
proof -
  from invD(7) [OF inv dst] obtain D where D: "th dst = Some D" "status D = BLOCKED" "waits_for (fr dst) = None"
    by blast
  from invD(6) [OF inv] run obtain C where C: "th cur = Some C" "running (fr cur)" "status C = RUNNING"
    by blast
  show ne: "dst \<noteq> cur" using C D by auto
  show "th dst \<noteq> None" using D by simp
  let ?th = "th(dst := None)" and ?fr = "fr(dst := [])"
  show "inv pf Q ?th ?fr cur NULL lvl"
  proof (rule invI)
    show "thread_queue o' \<Longrightarrow> distinct (Q o')" for o' by (rule invD(1) [OF inv])
    show "u \<in> set (Q o') \<longleftrightarrow> place (?th u) (?fr u) = Some o'" if "thread_queue o'" for o' u
      using invD(2) [OF inv that, of u] D by (cases "u = dst") simp_all
    show "thread_ok pf T' (?fr u)" if "?th u = Some T'" for u T'
      using that invD(3) [OF inv, of u] by (auto split: if_splits)
    show "suspended (?fr u) \<and> status T' \<noteq> RUNNING" if "?th u = Some T'" "u \<noteq> cur" for u T'
      using that invD(4,5) [OF inv, of u] by (auto split: if_splits)
    show "\<exists>T'. ?th cur = Some T' \<and> running (?fr cur) \<and> (asleep (?fr cur) \<longleftrightarrow> status T' \<noteq> RUNNING)"
      using C ne run by auto
    show "in_kernel (?fr cur) \<Longrightarrow> lvl = IntOff" using invD(8) [OF inv] ne by simp
  qed simp
qed

lemma inv_fork:
  assumes inv: "inv pf Q th fr cur dst lvl" and user: "user_frames (fr cur)" and new: "th t = None"
    and T: "thread_ok pf T [RootF]" "status T = READY"
  shows "inv pf (Q(ReadyQ := Q ReadyQ @ [t])) (th(t \<mapsto> T)) (fr(t := [RootF])) cur dst lvl'"
proof -
  from inv user obtain C where C: "th cur = Some C" "status C = RUNNING" "thread_ok pf C (fr cur)"
    by (rule inv_user_current)
  have ne: "t \<noteq> cur" using C new by auto
  have notin: "t \<notin> set (Q o')" if "thread_queue o'" for o'
    using invD(2) [OF inv that, of t] new by simp
  let ?Q = "Q(ReadyQ := Q ReadyQ @ [t])" and ?th = "th(t \<mapsto> T)" and ?fr = "fr(t := [RootF])"
  show ?thesis
  proof (rule invI)
    show "thread_queue o' \<Longrightarrow> distinct (?Q o')" for o'
      using invD(1) [OF inv, of o'] notin [of o'] by auto
    show "u \<in> set (?Q o') \<longleftrightarrow> place (?th u) (?fr u) = Some o'" if "thread_queue o'" for o' u
      using invD(2) [OF inv that, of u] notin [OF that] T(2) by (cases "u = t") auto
    show "thread_ok pf T' (?fr u)" if "?th u = Some T'" for u T'
      using that invD(3) [OF inv, of u] T by (auto split: if_splits)
    show "suspended (?fr u) \<and> status T' \<noteq> RUNNING" if "?th u = Some T'" "u \<noteq> cur" for u T'
      using that invD(4,5) [OF inv, of u] T by (auto split: if_splits)
    show "\<exists>T'. ?th cur = Some T' \<and> running (?fr cur) \<and> (asleep (?fr cur) \<longleftrightarrow> status T' \<noteq> RUNNING)"
      using C ne user_running [OF user] user_not_asleep [OF user] by simp
    show "\<exists>T'. ?th dst = Some T' \<and> status T' = BLOCKED \<and> waits_for (?fr dst) = None" if "dst \<noteq> NULL"
      using invD(7) [OF inv that] new by (cases "dst = t") auto
    show "in_kernel (?fr cur) \<Longrightarrow> lvl' = IntOff" using ne user_not_in_kernel [OF user] by simp
  qed
qed

end
