(* ===== verification/KernelSafe.thy ===== *)
theory KernelSafe
  imports InvSteps
begin

text \<open>
  The operations of the kernel keep the invariant of \<open>KernelInv\<close> and never fail one of the
  assertions of \<open>thread.cc\<close>, whatever the threads do and whenever interrupts arrive.
\<close>

section \<open>What the kernel relies on from the machine emulation\<close>

text \<open>
  Documented in \<open>interrupt.h\<close>: \<open>SetLevel\<close> returns the old level and sets the new one, \<open>Enable\<close>
  turns interrupts on, and neither allocation nor \<open>Idle\<close> leaves the level changed.
\<close>

definition platform_ok :: "'m platform \<Rightarrow> bool" where
  "platform_ok pf \<longleftrightarrow>
     (\<forall>l m. fst (SetLevel pf l m) = getLevel pf m \<and> getLevel pf (snd (SetLevel pf l m)) = l) \<and>
     (\<forall>m. getLevel pf (Enable pf m) = IntOn) \<and>
     (\<forall>n m. getLevel pf (snd (AllocBoundedArray pf n m)) = getLevel pf m) \<and>
     (\<forall>m ss m'. Idle pf m = Some (ss, m') \<longrightarrow> getLevel pf m' = getLevel pf m)"

lemma platform_okD:
  assumes "platform_ok pf"
  shows "fst (SetLevel pf l m) = getLevel pf m" and "getLevel pf (snd (SetLevel pf l m)) = l"
    and "getLevel pf (Enable pf m) = IntOn"
    and "getLevel pf (snd (AllocBoundedArray pf n m)) = getLevel pf m"
    and "Idle pf m = Some (ss, m') \<Longrightarrow> getLevel pf m' = getLevel pf m"
  using assms unfolding platform_ok_def by blast+

lemma set_level_ok:
  "platform_ok pf \<Longrightarrow> set_level pf l k =
     (getLevel pf (interrupt k), k\<lparr>interrupt := snd (SetLevel pf l (interrupt k))\<rparr>)"
  by (simp add: set_level_def case_prod_unfold Let_def platform_okD)

section \<open>Outcomes\<close>

text \<open>
  The errors that are left, besides the machine halting: a procedure returning from the
  bottom of its thread, a pointer of the program that is not an object, \<open>Condition::Wait\<close>
  (which is \<open>ASSERT(FALSE)\<close>), and a \<open>NULL\<close> item taken from a synchronized list.
\<close>

definition tolerated :: "error \<Rightarrow> bool" where
  "tolerated e \<longleftrightarrow> (case e of
       AssertionFailed file line \<Rightarrow>
         file = ''synch.cc'' \<and> line = 144 \<or> file = ''synchlist.cc'' \<and> line = 79
     | BadPointer p \<Rightarrow> True | BadIndex i \<Rightarrow> False | BadDelete \<Rightarrow> False | Halted \<Rightarrow> False | NoFrame \<Rightarrow> True)"

definition safe :: "('a \<Rightarrow> bool) \<Rightarrow> 'a result \<Rightarrow> bool" where
  "safe P r \<longleftrightarrow> (case r of Inr k \<Rightarrow> P k | Inl e \<Rightarrow> tolerated e)"

lemma safe_simps [simp]:
  "safe P (Inr k) = P k"
  "safe P (Inl e) = tolerated e"
  by (simp_all add: safe_def)

lemma tolerated_simps [simp]:
  "tolerated (BadPointer p)" "\<not> tolerated Halted" "tolerated NoFrame"
  by (simp_all add: tolerated_def)

lemma safe_bind:
  "safe P m \<Longrightarrow> (\<And>x. m = Inr x \<Longrightarrow> P x \<Longrightarrow> safe Q (f x)) \<Longrightarrow> safe Q (bindE m f)"
  by (cases m) simp_all

lemma safe_deref: "(\<And>x. m p = Some x \<Longrightarrow> safe Q (f x)) \<Longrightarrow> safe Q (bindE (deref m p) f)"
  by (cases "m p") simp_all

text \<open>The invariant with the frames given separately.\<close>

definition kinvF :: "'m platform \<Rightarrow> (ptr \<Rightarrow> frame list) \<Rightarrow> 'm kernel \<Rightarrow> bool" where
  "kinvF pf F k \<longleftrightarrow> wf k \<and>
     inv pf (queue k) (threads k) F (currentThread k) (threadToBeDestroyed k)
       (getLevel pf (interrupt k))"

lemma kinv_kinvF: "kinv pf k \<longleftrightarrow> kinvF pf (frames k) k"
  by (simp add: kinv_def kinvF_def)

section \<open>Scheduler and stack check\<close>

lemma ReadyToRun_ok:
  assumes wf: "wf k" and T: "threads k t = Some T"
  shows "\<exists>h. Scheduler_ReadyToRun t k =
      Inr (k\<lparr>threads := (threads k)(t \<mapsto> T\<lparr>status := READY\<rparr>), heap := h\<rparr>) \<and>
    wf (k\<lparr>threads := (threads k)(t \<mapsto> T\<lparr>status := READY\<rparr>), heap := h\<rparr>) \<and>
    queue (k\<lparr>threads := (threads k)(t \<mapsto> T\<lparr>status := READY\<rparr>), heap := h\<rparr>) =
      (queue k)(ReadyQ := queue k ReadyQ @ [t])"
proof -
  let ?k = "k\<lparr>threads := (threads k)(t \<mapsto> T\<lparr>status := READY\<rparr>)\<rparr>"
  have "wf ?k" using wf T by (simp add: wf_threads)
  from queue_append [OF this, of ReadyQ "readyList k" t] T show ?thesis
    by (auto simp: Scheduler_ReadyToRun_def setStatus_def)
qed

lemma FindNextToRun_ok:
  assumes wf: "wf k" and Q: "queue k ReadyQ = t # q"
  shows "\<exists>h. Scheduler_FindNextToRun k = Inr (t, k\<lparr>heap := h\<rparr>) \<and> wf (k\<lparr>heap := h\<rparr>) \<and>
    queue (k\<lparr>heap := h\<rparr>) = (queue k)(ReadyQ := q)"
  using queue_remove [OF wf, of ReadyQ "readyList k"] Q
  by (auto simp: Scheduler_FindNextToRun_def)

lemma FindNextToRun_none:
  assumes wf: "wf k" and Q: "queue k ReadyQ = []"
  shows "Scheduler_FindNextToRun k = Inr (NULL, k)"
  using queue_remove_empty [OF wf, of ReadyQ "readyList k"] Q
  by (simp add: Scheduler_FindNextToRun_def)

lemma CheckOverflow_ok:
  "threads k t = Some T \<Longrightarrow> thread_ok pf T fs \<Longrightarrow> Thread_CheckOverflow pf t k = Inr ()"
  by (auto simp: Thread_CheckOverflow_def thread_ok_def fencepost_index_def
      split: option.splits host.splits)

lemma Scheduler_Run_ok:
  assumes "threads k (currentThread k) = Some C" and "thread_ok pf C fs" and "threads k n = Some T"
  shows "Scheduler_Run pf n k =
    Inr (k\<lparr>currentThread := n, threads := (threads k)(n \<mapsto> T\<lparr>status := RUNNING\<rparr>),
           frames := (frames k)(currentThread k := RunF # frames k (currentThread k))\<rparr>)"
  using assms
  by (simp add: Scheduler_Run_def CheckOverflow_ok setStatus_def SWITCH_def push_def Let_def)

section \<open>Semaphore::V and Lock::Release\<close>

text \<open>
  Both take the first waiter off the queue of owner \<open>ow\<close> and put it on the ready list; the
  frames do not matter.
\<close>

definition wakes :: "owner \<Rightarrow> 'm kernel \<Rightarrow> 'm kernel \<Rightarrow> bool" where
  "wakes ow k k' \<longleftrightarrow>
     (case queue k ow of
        [] \<Rightarrow> queue k' = queue k \<and> threads k' = threads k
      | t # ts \<Rightarrow> queue k' = (queue k)(ow := ts, ReadyQ := queue k ReadyQ @ [t]) \<and>
          (\<exists>T. threads k t = Some T \<and> threads k' = (threads k)(t \<mapsto> T\<lparr>status := READY\<rparr>)))"

lemma kinvF_upd [simp]:
  "kinvF pf F (k\<lparr>history := hist\<rparr>) = kinvF pf F k"
  "kinvF pf F (k\<lparr>printed := out\<rparr>) = kinvF pf F k"
  "kinvF pf F (k\<lparr>frames := fr\<rparr>) = kinvF pf F k"
  "kinvF pf F (k\<lparr>locktest1 := lt\<rparr>) = kinvF pf F k"
  "semaphores k = sems \<Longrightarrow> sems s = Some S \<Longrightarrow>
     kinvF pf F (k\<lparr>semaphores := sems(s \<mapsto> S\<lparr>sem_value := v\<rparr>)\<rparr>) = kinvF pf F k"
  "locks k = lks \<Longrightarrow> lks l = Some L \<Longrightarrow>
     kinvF pf F (k\<lparr>locks := lks(l \<mapsto> L\<lparr>held := hv\<rparr>)\<rparr>) = kinvF pf F k"
  by (auto simp: kinvF_def)

lemma kinvF_level:
  assumes "kinvF pf F k" and "in_kernel (F (currentThread k)) \<Longrightarrow> getLevel pf m = IntOff"
  shows "kinvF pf F (k\<lparr>interrupt := m\<rparr>)"
  using assms unfolding kinvF_def inv_def by simp

lemma kinvF_in_kernel:
  "kinvF pf F k \<Longrightarrow> in_kernel (F (currentThread k)) \<Longrightarrow> getLevel pf (interrupt k) = IntOff"
  unfolding kinvF_def by (blast dest: invD(8))

lemma remove_and_ready:
  assumes k: "kinvF pf F k" and q: "queue_of k ow = Some q"
    and ow: "ow \<noteq> ReadyQ" "thread_queue ow"
  shows "\<exists>t h th h'. List_Remove q (heap k) = Inr (t, h) \<and>
    (if t \<noteq> NULL then Scheduler_ReadyToRun t (k\<lparr>heap := h\<rparr>) else Inr (k\<lparr>heap := h\<rparr>)) =
      Inr (k\<lparr>threads := th, heap := h'\<rparr>) \<and>
    kinvF pf F (k\<lparr>threads := th, heap := h'\<rparr>) \<and> wakes ow k (k\<lparr>threads := th, heap := h'\<rparr>)"
proof (cases "queue k ow")
  case Nil
  then have "List_Remove q (heap k) = Inr (NULL, heap k)"
    using queue_remove_empty q k by (auto simp: kinvF_def)
  with Nil k show ?thesis
    by (intro exI [of _ NULL] exI [of _ "heap k"] exI [of _ "threads k"]) (simp add: wakes_def)
next
  case (Cons t ts)
  have wf: "wf k" and inv: "inv pf (queue k) (threads k) F (currentThread k) (threadToBeDestroyed k)
      (getLevel pf (interrupt k))"
    using k by (simp_all add: kinvF_def)
  from queue_remove [OF wf q Cons] obtain h where h: "List_Remove q (heap k) = Inr (t, h)"
    "wf (k\<lparr>heap := h\<rparr>)" "queue (k\<lparr>heap := h\<rparr>) = (queue k)(ow := ts)" by blast
  from inv_wake [OF inv Cons ow] obtain T where T: "threads k t = Some T"
    and inv': "inv pf ((queue k)(ow := ts, ReadyQ := queue k ReadyQ @ [t]))
      ((threads k)(t \<mapsto> T\<lparr>status := READY\<rparr>)) F (currentThread k) (threadToBeDestroyed k)
      (getLevel pf (interrupt k))" by blast
  from ReadyToRun_ok [OF h(2), of t T] T h(3) ow(1) obtain h' where h':
    "Scheduler_ReadyToRun t (k\<lparr>heap := h\<rparr>) = Inr (k\<lparr>threads := (threads k)(t \<mapsto> T\<lparr>status := READY\<rparr>), heap := h'\<rparr>)"
    "wf (k\<lparr>threads := (threads k)(t \<mapsto> T\<lparr>status := READY\<rparr>), heap := h'\<rparr>)"
    "queue (k\<lparr>threads := (threads k)(t \<mapsto> T\<lparr>status := READY\<rparr>), heap := h'\<rparr>) =
       (queue k)(ow := ts, ReadyQ := queue k ReadyQ @ [t])" by auto
  have "t \<noteq> NULL" using wf_not_NULL [OF wf T] .
  with h(1) h' inv' T Cons show ?thesis
    by (intro exI [of _ t] exI [of _ h] exI [of _ "(threads k)(t \<mapsto> T\<lparr>status := READY\<rparr>)"] exI [of _ h'])
       (simp add: kinvF_def wakes_def)
qed


lemma wakes_level [simp]:
  "wakes ow (k\<lparr>interrupt := m\<rparr>) k' = wakes ow k k'"
  by (simp add: wakes_def cong: list.case_cong)

lemma wakes_after [simp]:
  "wakes ow k (k'\<lparr>interrupt := m\<rparr>) = wakes ow k k'"
  "wakes ow k (k'\<lparr>history := hist\<rparr>) = wakes ow k k'"
  "semaphores k' = sems \<Longrightarrow> sems s = Some S \<Longrightarrow>
     wakes ow k (k'\<lparr>semaphores := sems(s \<mapsto> S\<lparr>sem_value := v\<rparr>)\<rparr>) = wakes ow k k'"
  "locks k' = lks \<Longrightarrow> lks l = Some L \<Longrightarrow>
     wakes ow k (k'\<lparr>locks := lks(l \<mapsto> L\<lparr>held := hv\<rparr>)\<rparr>) = wakes ow k k'"
  by (auto simp: wakes_def cong: list.case_cong)

lemma Semaphore_V_ok:
  assumes pf: "platform_ok pf" and k: "kinvF pf F k" and S: "semaphores k s = Some S"
  shows "\<exists>th h m. let k' = k\<lparr>threads := th, heap := h,
      semaphores := (semaphores k)(s \<mapsto> S\<lparr>sem_value := sem_value S + 1\<rparr>),
      history := history k @ [EvV s], interrupt := m\<rparr>
    in Semaphore_V pf s k = Inr k' \<and> getLevel pf m = getLevel pf (interrupt k) \<and>
       kinvF pf F k' \<and> wakes (SemQ s) k k'"
proof -
  let ?m0 = "snd (SetLevel pf IntOff (interrupt k))" and ?k0 = "k\<lparr>interrupt := snd (SetLevel pf IntOff (interrupt k))\<rparr>"
  have k0: "kinvF pf F ?k0" using kinvF_level [OF k] pf by (simp add: platform_okD)
  from remove_and_ready [OF k0, of "SemQ s" "sem_queue S"] S obtain t h th h' where
    rm: "List_Remove (sem_queue S) (heap k) = Inr (t, h)"
      "(if t \<noteq> NULL then Scheduler_ReadyToRun t (?k0\<lparr>heap := h\<rparr>) else Inr (?k0\<lparr>heap := h\<rparr>)) =
        Inr (?k0\<lparr>threads := th, heap := h'\<rparr>)"
      "kinvF pf F (?k0\<lparr>threads := th, heap := h'\<rparr>)" "wakes (SemQ s) k (?k0\<lparr>threads := th, heap := h'\<rparr>)"
    by auto
  let ?m = "snd (SetLevel pf (getLevel pf (interrupt k)) ?m0)"
  let ?k1 = "?k0\<lparr>threads := th, heap := h', semaphores := (semaphores k)(s \<mapsto> S\<lparr>sem_value := sem_value S + 1\<rparr>),
      history := history k @ [EvV s]\<rparr>"
  have k1: "kinvF pf F ?k1" "wakes (SemQ s) k ?k1" using rm(3,4) S by simp_all
  have k2: "kinvF pf F (?k1\<lparr>interrupt := ?m\<rparr>)"
    by (rule kinvF_level [OF k1(1)]) (use kinvF_in_kernel [OF k] pf in \<open>simp add: platform_okD\<close>)
  have w: "wakes (SemQ s) k (?k1\<lparr>interrupt := ?m\<rparr>)" using k1(2) by (simp only: wakes_after)
  have "Semaphore_V pf s k = Inr (?k1\<lparr>interrupt := ?m\<rparr>)"
    using rm(1,2) S pf by (simp add: Semaphore_V_def set_level_ok log_event_def)
  then show ?thesis using w k2 pf
    by (intro exI [of _ th] exI [of _ h'] exI [of _ ?m]) (simp add: platform_okD)
qed

lemma Lock_Release_ok:
  assumes pf: "platform_ok pf" and k: "kinvF pf F k" and L: "locks k l = Some L"
  shows "\<exists>th h m. let k' = k\<lparr>threads := th, heap := h,
      locks := (locks k)(l \<mapsto> L\<lparr>held := 0\<rparr>),
      history := history k @ [EvRelease l (currentThread k)], interrupt := m\<rparr>
    in Lock_Release pf l k = Inr k' \<and> getLevel pf m = getLevel pf (interrupt k) \<and>
       kinvF pf F k' \<and> wakes (LockQ l) k k'"
proof -
  let ?m0 = "snd (SetLevel pf IntOff (interrupt k))" and ?k0 = "k\<lparr>interrupt := snd (SetLevel pf IntOff (interrupt k))\<rparr>"
  have k0: "kinvF pf F ?k0" using kinvF_level [OF k] pf by (simp add: platform_okD)
  from remove_and_ready [OF k0, of "LockQ l" "lock_queue L"] L obtain t h th h' where
    rm: "List_Remove (lock_queue L) (heap k) = Inr (t, h)"
      "(if t \<noteq> NULL then Scheduler_ReadyToRun t (?k0\<lparr>heap := h\<rparr>) else Inr (?k0\<lparr>heap := h\<rparr>)) =
        Inr (?k0\<lparr>threads := th, heap := h'\<rparr>)"
      "kinvF pf F (?k0\<lparr>threads := th, heap := h'\<rparr>)" "wakes (LockQ l) k (?k0\<lparr>threads := th, heap := h'\<rparr>)"
    by auto
  let ?m = "snd (SetLevel pf (getLevel pf (interrupt k)) ?m0)"
  let ?k1 = "?k0\<lparr>threads := th, heap := h', locks := (locks k)(l \<mapsto> L\<lparr>held := 0\<rparr>),
      history := history k @ [EvRelease l (currentThread k)]\<rparr>"
  have k1: "kinvF pf F ?k1" "wakes (LockQ l) k ?k1" using rm(3,4) L by simp_all
  have k2: "kinvF pf F (?k1\<lparr>interrupt := ?m\<rparr>)"
    by (rule kinvF_level [OF k1(1)]) (use kinvF_in_kernel [OF k] pf in \<open>simp add: platform_okD\<close>)
  have w: "wakes (LockQ l) k (?k1\<lparr>interrupt := ?m\<rparr>)" using k1(2) by (simp only: wakes_after)
  have "Lock_Release pf l k = Inr (?k1\<lparr>interrupt := ?m\<rparr>)"
    using rm(1,2) L pf by (simp add: Lock_Release_def set_level_ok log_event_def)
  then show ?thesis using w k2 pf
    by (intro exI [of _ th] exI [of _ h'] exI [of _ ?m]) (simp add: platform_okD)
qed

section \<open>Blocking: Semaphore::P and Lock::Acquire\<close>

lemma user_current:
  assumes "kinv pf k" and "user_frames (frames k (currentThread k))"
  obtains C where "threads k (currentThread k) = Some C" and "status C = RUNNING"
    and "thread_ok pf C (frames k (currentThread k))"
  using assms unfolding kinv_def by (blast elim: inv_user_current)

lemma sleep_on:
  assumes k: "kinv pf k" and user: "user_frames (frames k (currentThread k))"
    and off: "getLevel pf (interrupt k) = IntOff"
    and q: "queue_of k ow = Some q" and w: "waits_for [w] = Some ow"
  shows "\<exists>h C. let k' = k\<lparr>heap := h,
      frames := (frames k)(currentThread k := SleepF # w # frames k (currentThread k)),
      threads := (threads k)(currentThread k \<mapsto> C\<lparr>status := BLOCKED\<rparr>)\<rparr>
    in threads k (currentThread k) = Some C \<and>
       List_Append q (currentThread k) (heap k) = Inr h \<and>
       Thread_Sleep pf (currentThread k) (push (currentThread k) w (k\<lparr>heap := h\<rparr>)) = Inr k' \<and>
       queue k' = (queue k)(ow := queue k ow @ [currentThread k]) \<and> kinv pf k'"
proof -
  let ?c = "currentThread k"
  from k have wf: "wf k" and inv: "inv pf (queue k) (threads k) (frames k) ?c (threadToBeDestroyed k) IntOff"
    using off by (simp_all add: kinv_def)
  from k user obtain C where C: "threads k ?c = Some C" by (rule user_current)
  from queue_append [OF wf q, of ?c] obtain h where h: "List_Append q ?c (heap k) = Inr h"
    "wf (k\<lparr>heap := h\<rparr>)" "queue (k\<lparr>heap := h\<rparr>) = (queue k)(ow := queue k ow @ [?c])" by blast
  have res: "resumable (w # frames k ?c)" and wf': "waits_for (w # frames k ?c) = Some ow"
    using w user by (cases w; simp)+
  let ?th = "(threads k)(?c \<mapsto> C\<lparr>status := BLOCKED\<rparr>)"
    and ?fr = "(frames k)(?c := SleepF # w # frames k ?c)"
  have "inv pf ((queue k)(ow := queue k ow @ [?c])) ?th ?fr ?c (threadToBeDestroyed k) IntOff"
    using inv_sleep [OF inv user res, of "(queue k)(ow := queue k ow @ [?c])"] C wf' by auto
  moreover have "wf (k\<lparr>heap := h, frames := ?fr, threads := ?th\<rparr>)"
    using wf_threads(1) [of "k\<lparr>heap := h, frames := ?fr\<rparr>" ?c] h(2) C by simp
  ultimately show ?thesis using h C off
    by (intro exI [of _ h] exI [of _ C])
       (simp add: Thread_Sleep_def setStatus_def push_def kinv_def)
qed

lemma kinv_level:
  "kinv pf k \<Longrightarrow> user_frames (frames k (currentThread k)) \<Longrightarrow> kinv pf (k\<lparr>interrupt := m\<rparr>)"
  unfolding kinv_kinvF using kinvF_level user_not_in_kernel by fastforce

lemma P_loop_blocks:
  assumes k: "kinv pf k" and user: "user_frames (frames k (currentThread k))"
    and off: "getLevel pf (interrupt k) = IntOff"
    and S: "semaphores k s = Some S" "sem_value S = 0"
  shows "\<exists>h C. let k' = k\<lparr>heap := h,
      frames := (frames k)(currentThread k := SleepF # SemPF s l # frames k (currentThread k)),
      threads := (threads k)(currentThread k \<mapsto> C\<lparr>status := BLOCKED\<rparr>)\<rparr>
    in threads k (currentThread k) = Some C \<and> Semaphore_P_loop pf s l k = Inr k' \<and>
       queue k' = (queue k)(SemQ s := queue k (SemQ s) @ [currentThread k]) \<and> kinv pf k'"
proof -
  from sleep_on [OF k user off, of "SemQ s" "sem_queue S" "SemPF s l"] S(1) obtain h C where
    "let k' = k\<lparr>heap := h,
        frames := (frames k)(currentThread k := SleepF # SemPF s l # frames k (currentThread k)),
        threads := (threads k)(currentThread k \<mapsto> C\<lparr>status := BLOCKED\<rparr>)\<rparr>
      in threads k (currentThread k) = Some C \<and>
       List_Append (sem_queue S) (currentThread k) (heap k) = Inr h \<and>
       Thread_Sleep pf (currentThread k) (push (currentThread k) (SemPF s l) (k\<lparr>heap := h\<rparr>)) = Inr k' \<and>
       queue k' = (queue k)(SemQ s := queue k (SemQ s) @ [currentThread k]) \<and> kinv pf k'"
    by auto
  then show ?thesis using S
    by (intro exI [of _ h] exI [of _ C]) (simp add: Semaphore_P_loop_def Let_def)
qed

lemma P_loop_passes:
  assumes pf: "platform_ok pf" and k: "kinv pf k" and user: "user_frames (frames k (currentThread k))"
    and S: "semaphores k s = Some S" "sem_value S \<noteq> 0"
  shows "\<exists>m. let k' = k\<lparr>semaphores := (semaphores k)(s \<mapsto> S\<lparr>sem_value := sem_value S - 1\<rparr>),
      history := history k @ [EvP s (currentThread k)], interrupt := m\<rparr>
    in Semaphore_P_loop pf s l k = Inr k' \<and> getLevel pf m = l \<and> queue k' = queue k \<and> kinv pf k'"
proof -
  let ?k = "k\<lparr>semaphores := (semaphores k)(s \<mapsto> S\<lparr>sem_value := sem_value S - 1\<rparr>),
      history := history k @ [EvP s (currentThread k)]\<rparr>"
  have "kinv pf ?k" using k S(1) by (simp add: kinv_kinvF)
  then have "kinv pf (?k\<lparr>interrupt := m\<rparr>)" for m by (rule kinv_level) (use user in simp)
  then show ?thesis using S pf
    by (intro exI [of _ "snd (SetLevel pf l (interrupt k))"])
       (simp add: Semaphore_P_loop_def Let_def log_event_def set_level_ok platform_okD)
qed

lemma Acquire_loop_blocks:
  assumes k: "kinv pf k" and user: "user_frames (frames k (currentThread k))"
    and off: "getLevel pf (interrupt k) = IntOff"
    and L: "locks k s = Some L" "held L \<noteq> 0"
  shows "\<exists>h C. let k' = k\<lparr>heap := h,
      frames := (frames k)(currentThread k := SleepF # AcquireF s l # frames k (currentThread k)),
      threads := (threads k)(currentThread k \<mapsto> C\<lparr>status := BLOCKED\<rparr>)\<rparr>
    in threads k (currentThread k) = Some C \<and> Lock_Acquire_loop pf s l k = Inr k' \<and>
       queue k' = (queue k)(LockQ s := queue k (LockQ s) @ [currentThread k]) \<and> kinv pf k'"
proof -
  from sleep_on [OF k user off, of "LockQ s" "lock_queue L" "AcquireF s l"] L(1) obtain h C where
    "let k' = k\<lparr>heap := h,
        frames := (frames k)(currentThread k := SleepF # AcquireF s l # frames k (currentThread k)),
        threads := (threads k)(currentThread k \<mapsto> C\<lparr>status := BLOCKED\<rparr>)\<rparr>
      in threads k (currentThread k) = Some C \<and>
       List_Append (lock_queue L) (currentThread k) (heap k) = Inr h \<and>
       Thread_Sleep pf (currentThread k) (push (currentThread k) (AcquireF s l) (k\<lparr>heap := h\<rparr>)) = Inr k' \<and>
       queue k' = (queue k)(LockQ s := queue k (LockQ s) @ [currentThread k]) \<and> kinv pf k'"
    by auto
  then show ?thesis using L
    by (intro exI [of _ h] exI [of _ C]) (simp add: Lock_Acquire_loop_def Let_def)
qed

lemma Acquire_loop_passes:
  assumes pf: "platform_ok pf" and k: "kinv pf k" and user: "user_frames (frames k (currentThread k))"
    and L: "locks k s = Some L" "held L = 0"
  shows "\<exists>m. let k' = k\<lparr>locks := (locks k)(s \<mapsto> L\<lparr>held := 1\<rparr>),
      history := history k @ [EvAcquire s (currentThread k)], interrupt := m\<rparr>
    in Lock_Acquire_loop pf s l k = Inr k' \<and> getLevel pf m = l \<and> queue k' = queue k \<and> kinv pf k'"
proof -
  let ?k = "k\<lparr>locks := (locks k)(s \<mapsto> L\<lparr>held := 1\<rparr>),
      history := history k @ [EvAcquire s (currentThread k)]\<rparr>"
  have "kinv pf ?k" using k L(1) by (simp add: kinv_kinvF)
  then have "kinv pf (?k\<lparr>interrupt := m\<rparr>)" for m by (rule kinv_level) (use user in simp)
  then show ?thesis using L pf
    by (intro exI [of _ "snd (SetLevel pf l (interrupt k))"])
       (simp add: Lock_Acquire_loop_def Let_def log_event_def set_level_ok platform_okD)
qed

section \<open>Yield, Fork, Finish and the loop of Sleep\<close>

lemma Yield_alone:
  assumes pf: "platform_ok pf" and k: "kinv pf k" and user: "user_frames (frames k (currentThread k))"
    and Q: "queue k ReadyQ = []"
  shows "\<exists>m. Thread_Yield pf (currentThread k) k = Inr (k\<lparr>interrupt := m\<rparr>) \<and>
    getLevel pf m = getLevel pf (interrupt k) \<and> kinv pf (k\<lparr>interrupt := m\<rparr>)"
proof -
  have "wf k" using k by (simp add: kinv_def)
  then have none: "Scheduler_FindNextToRun (k\<lparr>interrupt := m\<rparr>) = Inr (NULL, k\<lparr>interrupt := m\<rparr>)" for m
    using FindNextToRun_none [of "k\<lparr>interrupt := m\<rparr>"] Q by simp
  then show ?thesis using pf kinv_level [OF k user]
    by (intro exI [of _ "snd (SetLevel pf (getLevel pf (interrupt k)) (snd (SetLevel pf IntOff (interrupt k))))"])
       (simp add: Thread_Yield_def set_level_ok platform_okD)
qed

lemma Yield_switch:
  assumes pf: "platform_ok pf" and k: "kinv pf k" and user: "user_frames (frames k (currentThread k))"
    and Q: "queue k ReadyQ = n # q"
  shows "\<exists>C T h m. let c = currentThread k;
      k' = k\<lparr>interrupt := m, heap := h, currentThread := n,
        threads := (threads k)(c \<mapsto> C\<lparr>status := READY\<rparr>, n \<mapsto> T\<lparr>status := RUNNING\<rparr>),
        frames := (frames k)(c := RunF # YieldF (getLevel pf (interrupt k)) # frames k c)\<rparr>
    in threads k c = Some C \<and> threads k n = Some T \<and> n \<noteq> c \<and> Thread_Yield pf c k = Inr k' \<and>
       getLevel pf m = IntOff \<and> queue k' = (queue k)(ReadyQ := q @ [c]) \<and> kinv pf k'"
proof -
  let ?c = "currentThread k" and ?l = "getLevel pf (interrupt k)"
  define k0 where "k0 = k\<lparr>interrupt := snd (SetLevel pf IntOff (interrupt k))\<rparr>"
  have k0: "kinv pf k0" unfolding k0_def using k user by (rule kinv_level)
  have inv: "inv pf (queue k) (threads k) (frames k) ?c (threadToBeDestroyed k) IntOff"
    using k0 pf by (simp add: kinv_def k0_def platform_okD)
  from inv_yield [OF inv user Q, of ?l] obtain C T where CT: "threads k ?c = Some C"
    "threads k n = Some T" "n \<noteq> ?c"
    and inv': "inv pf ((queue k)(ReadyQ := q @ [?c]))
      ((threads k)(?c \<mapsto> C\<lparr>status := READY\<rparr>, n \<mapsto> T\<lparr>status := RUNNING\<rparr>))
      ((frames k)(?c := RunF # YieldF ?l # frames k ?c)) n (threadToBeDestroyed k) IntOff" by blast
  have wf0: "wf k0" and Q0: "queue k0 ReadyQ = n # q" using k0 Q by (simp_all add: kinv_def k0_def)
  from FindNextToRun_ok [OF this] obtain h1 where h1: "Scheduler_FindNextToRun k0 = Inr (n, k0\<lparr>heap := h1\<rparr>)"
    "wf (k0\<lparr>heap := h1\<rparr>)" "queue (k0\<lparr>heap := h1\<rparr>) = (queue k)(ReadyQ := q)"
    by (auto simp: k0_def)
  have "threads (k0\<lparr>heap := h1\<rparr>) ?c = Some C" using CT(1) by (simp add: k0_def)
  from ReadyToRun_ok [OF h1(2) this] h1(3) obtain h where
    h: "Scheduler_ReadyToRun ?c (k0\<lparr>heap := h1\<rparr>) =
        Inr (k0\<lparr>threads := (threads k)(?c \<mapsto> C\<lparr>status := READY\<rparr>), heap := h\<rparr>)"
      "wf (k0\<lparr>threads := (threads k)(?c \<mapsto> C\<lparr>status := READY\<rparr>), heap := h\<rparr>)"
      "queue (k0\<lparr>threads := (threads k)(?c \<mapsto> C\<lparr>status := READY\<rparr>), heap := h\<rparr>) =
        (queue k)(ReadyQ := q @ [?c])"
    by (auto simp: k0_def)
  let ?k2 = "push ?c (YieldF ?l) (k0\<lparr>threads := (threads k)(?c \<mapsto> C\<lparr>status := READY\<rparr>), heap := h\<rparr>)"
  have "thread_ok pf (C\<lparr>status := READY\<rparr>) (frames k ?c)"
    using invD(3) [OF inv CT(1)] by (simp add: thread_ok_status)
  then have run: "Scheduler_Run pf n ?k2 = Inr (k0\<lparr>heap := h, currentThread := n,
      threads := (threads k)(?c \<mapsto> C\<lparr>status := READY\<rparr>, n \<mapsto> T\<lparr>status := RUNNING\<rparr>),
      frames := (frames k)(?c := RunF # YieldF ?l # frames k ?c)\<rparr>)"
    using Scheduler_Run_ok [of ?k2 "C\<lparr>status := READY\<rparr>" pf _ n T] CT
    by (simp add: push_def k0_def)
  let ?k' = "k0\<lparr>heap := h, currentThread := n,
      threads := (threads k)(?c \<mapsto> C\<lparr>status := READY\<rparr>, n \<mapsto> T\<lparr>status := RUNNING\<rparr>),
      frames := (frames k)(?c := RunF # YieldF ?l # frames k ?c)\<rparr>"
  have "wf ?k'"
    using wf_threads(1) [OF h(2), of n "T\<lparr>status := RUNNING\<rparr>"] CT by (simp add: k0_def wf_def)
  moreover have "queue ?k' = (queue k)(ReadyQ := q @ [?c])"
    using h(3) by (simp add: k0_def queue_def fun_eq_iff cong: option.case_cong)
  moreover have "Thread_Yield pf ?c k = Inr ?k'"
    using run h(1) h1(1) pf wf_not_NULL [OF wf0, of n] CT
    by (simp add: Thread_Yield_def set_level_ok k0_def)
  moreover have "getLevel pf (snd (SetLevel pf IntOff (interrupt k))) = IntOff"
    using pf by (simp add: platform_okD)
  moreover from calculation have "kinv pf ?k'"
    using inv' pf by (simp add: kinv_def k0_def)
  ultimately show ?thesis using CT unfolding Let_def k0_def by blast
qed

end
