(* ===== verification/StepSafe.thy ===== *)
theory StepSafe
  imports KernelSafe
begin

text \<open>
  Every step of the machine keeps the invariant: creating and finishing threads, the loop of
  \<open>Thread::Sleep\<close>, the frames and statements, and the interrupts of \<open>sys_step\<close>.
\<close>

section \<open>New objects\<close>

lemma alloc_spec:
  assumes ok: "heap_ok h"
  shows "heap_ok (h\<lparr>fresh := Suc (fresh h)\<rparr>)" and "lists_of (h\<lparr>fresh := Suc (fresh h)\<rparr>) = lists_of h"
proof -
  let ?h = "h\<lparr>fresh := Suc (fresh h)\<rparr>"
  note rep = ok [unfolded heap_ok_def]
  have rep': "rep ?h (nodes h)" using rep unfolding rep_def list_at_def by (auto simp: less_SucI)
  then show "heap_ok ?h" by (rule rep_heap_ok)
  show "lists_of ?h = lists_of h"
    using rep_nodes [OF rep'] by (auto simp: lists_of_def live_list_def entries_def entry_def)
qed

lemma wf_alloc:
  assumes "wf k"
  shows "wf (k\<lparr>heap := heap k\<lparr>fresh := Suc (fresh (heap k))\<rparr>\<rparr>)"
    and "queue (k\<lparr>heap := heap k\<lparr>fresh := Suc (fresh (heap k))\<rparr>\<rparr>) = queue k"
  using assms alloc_spec [OF wfD(1) [OF assms]]
  by (auto simp: wf_def queue_def fun_eq_iff less_SucI cong: option.case_cong)

lemma wf_fresh_thread: "wf k \<Longrightarrow> threads k (fresh (heap k)) = None"
  using wfD(5) by fastforce

lemma wf_fresh_owner: "wf k \<Longrightarrow> queue_of k ow \<noteq> None \<Longrightarrow> owner_at ow \<noteq> fresh (heap k)"
  using wfD(6) by fastforce

lemma wf_new_lock:
  assumes wf: "wf k" and new: "new_Lock nm k = (l, k')"
  shows "wf k'" and "queue k' = queue k" and "l = fresh (heap k)" and "locks k l = None"
    and "\<exists>h q. k' = k\<lparr>heap := h, locks := (locks k)(l \<mapsto> \<lparr>lock_name = nm, held = 0, lock_queue = q\<rparr>)\<rparr>"
proof -
  let ?l = "fresh (heap k)" and ?h1 = "heap k\<lparr>fresh := Suc (fresh (heap k))\<rparr>"
  obtain q h where qh: "new_List ?h1 = (q, h)" by fastforce
  have k': "l = ?l" "k' = k\<lparr>heap := h, locks := (locks k)(l \<mapsto> \<lparr>lock_name = nm, held = 0, lock_queue = q\<rparr>)\<rparr>"
    using new qh by (auto simp: new_Lock_def alloc_def)
  note a = alloc_spec [OF wfD(1) [OF wf]]
  note n = new_List_spec [OF a(1) qh]
  show none: "locks k l = None"
    using wf_fresh_owner [OF wf, of "LockQ ?l"] k'(1) by fastforce
  have qo: "queue_of k' = (queue_of k)(LockQ l := Some q)"
    by (rule ext, case_tac x) (auto simp: k'(2))
  have old: "queue_of k ow \<noteq> Some q" for ow
    using wfD(2) [OF wf, of ow q] n(3) a(2) by auto
  have lists: "lists_of h = (lists_of (heap k))(q \<mapsto> [])" and fr: "fresh h = Suc (Suc ?l)"
    using n(4,5) a(2) by simp_all
  have h': "heap k' = h" by (simp add: k'(2))
  show "wf k'"
  proof (rule wfI)
    show "heap_ok (heap k')" using n(1) by (simp add: h')
    show "\<And>ow p. queue_of k' ow = Some p \<Longrightarrow> lists_of (heap k') p \<noteq> None"
      using wfD(2) [OF wf] lists by (auto simp: qo h' split: if_splits)
    show "\<And>ow ow' p. queue_of k' ow = Some p \<Longrightarrow> queue_of k' ow' = Some p \<Longrightarrow> ow = ow'"
      using wfD(3) [OF wf] old by (auto simp: qo split: if_splits)
    show "\<And>ow. queue_of k' ow \<noteq> None \<Longrightarrow> owner_at ow < fresh (heap k')"
      using wfD(6) [OF wf] fr k'(1) by (fastforce simp: qo h' less_SucI split: if_splits)
    show "\<And>t. threads k' t \<noteq> None \<Longrightarrow> t \<noteq> NULL \<and> t < fresh (heap k')"
      using wfD(4,5) [OF wf] fr by (auto simp: k'(2) less_SucI)
  qed
  show "queue k' = queue k"
  proof
    fix ow
    show "queue k' ow = queue k ow"
    proof (cases "ow = LockQ l")
      case True
      then show ?thesis using lists none by (simp add: queue_def qo h')
    next
      case False
      then show ?thesis using lists old [of ow] by (auto simp: queue_def qo h' split: option.split)
    qed
  qed
  show "l = ?l" by (rule k'(1))
  show "\<exists>h q. k' = k\<lparr>heap := h, locks := (locks k)(l \<mapsto> \<lparr>lock_name = nm, held = 0, lock_queue = q\<rparr>)\<rparr>"
    using k'(2) by blast
qed

section \<open>Thread::Fork of a new thread\<close>

lemma StackAllocate_ok:
  assumes pf: "platform_ok pf" and T: "threads k t = Some T"
  shows "\<exists>T' m. Thread_StackAllocate pf t func arg k =
      Inr (k\<lparr>interrupt := m, threads := (threads k)(t \<mapsto> T'), frames := (frames k)(t := [RootF])\<rparr>) \<and>
    getLevel pf m = getLevel pf (interrupt k) \<and> thread_name T' = thread_name T \<and>
    (\<forall>st. st \<noteq> JUST_CREATED \<longrightarrow> thread_ok pf (T'\<lparr>status := st\<rparr>) [RootF]) \<and>
    machineState T' (InitialPCState (host pf)) = Some func \<and>
    machineState T' (InitialArgState (host pf)) = Some arg"
proof -
  obtain blk m where blk: "AllocBoundedArray pf (StackSize * 4) (interrupt k) = (blk, m)" by fastforce
  obtain top b where b: "init_stack (host pf) (addr_ThreadRoot pf) blk = (top, b)" by fastforce
  have "b (fencepost_index (host pf)) = Some STACK_FENCEPOST"
    using b by (auto simp: init_stack_def fencepost_index_def Let_def split: host.splits)
  moreover have "getLevel pf m = getLevel pf (interrupt k)"
    using platform_okD(4) [OF pf, of "StackSize * 4" "interrupt k"] blk by simp
  ultimately show ?thesis using T blk b
    by (intro exI [of _ "T\<lparr>stackTop := Some top, stack := Some b,
          machineState := (machineState T)
            (PCState (host pf) \<mapsto> addr_ThreadRoot pf, StartupPCState (host pf) \<mapsto> addr_InterruptEnable pf,
             InitialPCState (host pf) \<mapsto> func, InitialArgState (host pf) \<mapsto> arg,
             WhenDonePCState (host pf) \<mapsto> addr_ThreadFinish pf)\<rparr>"] exI [of _ m])
       (simp add: Thread_StackAllocate_def thread_ok_def state_indices_neq state_indices_neq [symmetric])
qed

lemma ForkNew_ok:
  assumes pf: "platform_ok pf" and k: "kinv pf k" and user: "user_frames (frames k (currentThread k))"
  shows "\<exists>T h m. let t = fresh (heap k);
      k' = k\<lparr>frames := (frames k)(t := [RootF]), threads := (threads k)(t \<mapsto> T),
             heap := h, interrupt := m\<rparr>
    in exec_stmt pf (ForkNew nm func arg) k = Inr k' \<and> threads k t = None \<and>
       status T = READY \<and> thread_name T = nm \<and>
       machineState T (InitialPCState (host pf)) = Some func \<and>
       machineState T (InitialArgState (host pf)) = Some arg \<and>
       getLevel pf m = getLevel pf (interrupt k) \<and>
       queue k' = (queue k)(ReadyQ := queue k ReadyQ @ [t]) \<and> kinv pf k'"
proof -
  let ?t = "fresh (heap k)" and ?h1 = "heap k\<lparr>fresh := Suc (fresh (heap k))\<rparr>"
  let ?T0 = "\<lparr>stackTop = None, machineState = Map.empty, stack = None,
      status = JUST_CREATED, thread_name = nm\<rparr>"
  let ?k1 = "k\<lparr>heap := ?h1, threads := (threads k)(?t \<mapsto> ?T0), frames := (frames k)(?t := [])\<rparr>"
  have wf: "wf k" and inv: "inv pf (queue k) (threads k) (frames k) (currentThread k)
      (threadToBeDestroyed k) (getLevel pf (interrupt k))"
    using k by (simp_all add: kinv_def)
  have new: "new_Thread nm k = (?t, ?k1)" by (simp add: new_Thread_def alloc_def)
  have wf1: "wf ?k1"
    using wf_alloc(1) [OF wf] wfD(1) [OF wf] by (auto simp: wf_def heap_ok_def rep_def)
  from StackAllocate_ok [OF pf, of ?k1 ?t ?T0 func arg] obtain T m where sa:
    "Thread_StackAllocate pf ?t func arg ?k1 =
      Inr (?k1\<lparr>interrupt := m, threads := (threads ?k1)(?t \<mapsto> T), frames := (frames ?k1)(?t := [RootF])\<rparr>)"
    "getLevel pf m = getLevel pf (interrupt k)" "thread_name T = nm"
    "thread_ok pf (T\<lparr>status := READY\<rparr>) [RootF]"
    "machineState T (InitialPCState (host pf)) = Some func"
    "machineState T (InitialArgState (host pf)) = Some arg" by auto
  let ?m1 = "snd (SetLevel pf IntOff m)"
  let ?k2 = "k\<lparr>heap := ?h1, threads := (threads k)(?t \<mapsto> T), frames := (frames k)(?t := [RootF]), interrupt := ?m1\<rparr>"
  have wf2: "wf ?k2" using wf1 by (simp add: wf_def)
  have q2: "queue ?k2 = queue k"
    using wf_alloc(2) [OF wf] by (simp add: queue_def fun_eq_iff cong: option.case_cong)
  from ReadyToRun_ok [OF wf2, of ?t T] q2 obtain h where h:
    "Scheduler_ReadyToRun ?t ?k2 = Inr (?k2\<lparr>threads := (threads k)(?t \<mapsto> T\<lparr>status := READY\<rparr>), heap := h\<rparr>)"
    "wf (?k2\<lparr>threads := (threads k)(?t \<mapsto> T\<lparr>status := READY\<rparr>), heap := h\<rparr>)"
    "queue (?k2\<lparr>threads := (threads k)(?t \<mapsto> T\<lparr>status := READY\<rparr>), heap := h\<rparr>) =
      (queue k)(ReadyQ := queue k ReadyQ @ [?t])"
    by auto
  let ?m2 = "snd (SetLevel pf (getLevel pf m) ?m1)"
  let ?k' = "k\<lparr>frames := (frames k)(?t := [RootF]), threads := (threads k)(?t \<mapsto> T\<lparr>status := READY\<rparr>),
      heap := h, interrupt := ?m2\<rparr>"
  have eq: "exec_stmt pf (ForkNew nm func arg) k = Inr ?k'"
    using new sa(1) h(1) pf by (simp add: Thread_Fork_def set_level_ok)
  have q': "queue ?k' = (queue k)(ReadyQ := queue k ReadyQ @ [?t])"
    using h(3) by (simp add: queue_def fun_eq_iff cong: option.case_cong)
  have lvl: "getLevel pf ?m2 = getLevel pf (interrupt k)" using pf sa(2) by (simp add: platform_okD)
  have "wf ?k'" using h(2) by (simp add: wf_def)
  moreover have "inv pf ((queue k)(ReadyQ := queue k ReadyQ @ [?t]))
      ((threads k)(?t \<mapsto> T\<lparr>status := READY\<rparr>)) ((frames k)(?t := [RootF])) (currentThread k)
      (threadToBeDestroyed k) (getLevel pf (interrupt k))"
    by (rule inv_fork [OF inv user wf_fresh_thread [OF wf] sa(4)]) simp
  ultimately have "kinv pf ?k'" using q' lvl by (simp add: kinv_def)
  then show ?thesis using eq q' lvl sa wf_fresh_thread [OF wf] unfolding Let_def
    by (intro exI [of _ "T\<lparr>status := READY\<rparr>"] exI [of _ h] exI [of _ ?m2]) simp
qed

section \<open>Thread::Finish and the loop of Thread::Sleep\<close>

lemma Finish_ok:
  assumes pf: "platform_ok pf" and k: "kinv pf k" and user: "user_frames (frames k (currentThread k))"
  shows "\<exists>C m. let c = currentThread k;
      k' = k\<lparr>interrupt := m, threadToBeDestroyed := c, threads := (threads k)(c \<mapsto> C\<lparr>status := BLOCKED\<rparr>),
             frames := (frames k)(c := SleepF # frames k c)\<rparr>
    in threads k c = Some C \<and> Thread_Finish pf c k = Inr k' \<and> getLevel pf m = IntOff \<and>
       queue k' = queue k \<and> kinv pf k'"
proof -
  let ?c = "currentThread k" and ?m = "snd (SetLevel pf IntOff (interrupt k))"
  have wf: "wf k" and inv: "inv pf (queue k) (threads k) (frames k) ?c (threadToBeDestroyed k)
      (getLevel pf (interrupt k))"
    using k by (simp_all add: kinv_def)
  from inv_sleep [OF inv user user_resumable [OF user], of "queue k" ?c] user_waits_for [OF user]
  obtain C where C: "threads k ?c = Some C"
    and inv': "inv pf (queue k) ((threads k)(?c \<mapsto> C\<lparr>status := BLOCKED\<rparr>))
      ((frames k)(?c := SleepF # frames k ?c)) ?c ?c IntOff" by auto
  let ?k' = "k\<lparr>interrupt := ?m, threadToBeDestroyed := ?c,
      threads := (threads k)(?c \<mapsto> C\<lparr>status := BLOCKED\<rparr>), frames := (frames k)(?c := SleepF # frames k ?c)\<rparr>"
  have "Thread_Finish pf ?c k = Inr ?k'"
    using C pf by (simp add: Thread_Finish_def Thread_Sleep_def set_level_ok platform_okD setStatus_def push_def)
  moreover have "wf ?k'" using wf C wf_threads(1) [OF wf, of ?c] by (simp add: wf_def)
  ultimately show ?thesis using C inv' pf
    by (intro exI [of _ C] exI [of _ ?m]) (simp add: kinv_def platform_okD)
qed

lemma run_handlers_ok:
  assumes pf: "platform_ok pf"
  shows "kinvF pf F k \<Longrightarrow> safe (\<lambda>k'. kinvF pf F k' \<and> currentThread k' = currentThread k \<and>
      frames k' = frames k) (run_handlers pf ss k)"
proof (induction ss arbitrary: k)
  case Nil
  then show ?case by simp
next
  case (Cons s ss)
  show ?case
  proof (cases "semaphores k s")
    case None
    then show ?thesis by (simp add: Semaphore_V_def set_level_def case_prod_unfold Let_def)
  next
    case (Some S)
    from Semaphore_V_ok [OF pf Cons.prems Some] obtain k' where
      "Semaphore_V pf s k = Inr k'" "kinvF pf F k'" "currentThread k' = currentThread k" "frames k' = frames k"
      by (fastforce simp: Let_def)
    with Cons.IH [of k'] show ?thesis by simp
  qed
qed

lemma Sleep_dispatch:
  assumes k: "kinvF pf ((frames k)(currentThread k := SleepF # fs)) k"
    and fs: "frames k (currentThread k) = fs" "resumable fs" and Q: "queue k ReadyQ = n # q"
  shows "\<exists>T h. let c = currentThread k;
      k' = k\<lparr>heap := h, currentThread := n, threads := (threads k)(n \<mapsto> T\<lparr>status := RUNNING\<rparr>),
             frames := (frames k)(c := RunF # fs)\<rparr>
    in threads k n = Some T \<and> Sleep_loop pf k = Inr k' \<and>
       queue k' = (queue k)(ReadyQ := q) \<and> kinv pf k'"
proof -
  let ?c = "currentThread k"
  have wf: "wf k" and inv: "inv pf (queue k) (threads k) ((frames k)(?c := SleepF # fs)) ?c
      (threadToBeDestroyed k) (getLevel pf (interrupt k))"
    using k by (simp_all add: kinvF_def)
  from inv_dispatch [OF inv Q fs(2)] obtain T where T: "threads k n = Some T"
    and inv': "inv pf ((queue k)(ReadyQ := q)) ((threads k)(n \<mapsto> T\<lparr>status := RUNNING\<rparr>))
      ((frames k)(?c := RunF # fs)) n (threadToBeDestroyed k) (getLevel pf (interrupt k))" by blast
  from FindNextToRun_ok [OF wf Q] obtain h where h: "Scheduler_FindNextToRun k = Inr (n, k\<lparr>heap := h\<rparr>)"
    "wf (k\<lparr>heap := h\<rparr>)" "queue (k\<lparr>heap := h\<rparr>) = (queue k)(ReadyQ := q)" by blast
  let ?k' = "k\<lparr>heap := h, currentThread := n, threads := (threads k)(n \<mapsto> T\<lparr>status := RUNNING\<rparr>),
      frames := (frames k)(?c := RunF # fs)\<rparr>"
  from invD(6) [OF inv] obtain C where C: "threads k ?c = Some C" by blast
  have run: "Scheduler_Run pf n (k\<lparr>heap := h\<rparr>) = Inr ?k'"
    using Scheduler_Run_ok [of "k\<lparr>heap := h\<rparr>" C pf _ n T] C T fs invD(3) [OF inv C] by simp
  have eq: "Sleep_loop pf k = Inr ?k'"
    using h(1) run wf_not_NULL [OF wf T] by (simp add: Sleep_loop_def)
  have "wf ?k'" using wf_threads(1) [OF h(2), of n] T by (simp add: wf_def)
  moreover have q': "queue ?k' = (queue k)(ReadyQ := q)"
    using h(3) by (simp add: queue_def fun_eq_iff cong: option.case_cong)
  ultimately have "kinv pf ?k'" using inv' by (simp add: kinv_def)
  then show ?thesis using T eq q' unfolding Let_def by blast
qed

lemma Sleep_idle:
  assumes pf: "platform_ok pf" and k: "kinvF pf ((frames k)(currentThread k := SleepF # fs)) k"
    and fs: "frames k (currentThread k) = fs" and Q: "queue k ReadyQ = []"
  shows "if Idle pf (interrupt k) = None then Sleep_loop pf k = Inl Halted
    else safe (kinv pf) (Sleep_loop pf k)"
proof -
  let ?F = "(frames k)(currentThread k := SleepF # fs)"
  have none: "Scheduler_FindNextToRun k = Inr (NULL, k)"
    using FindNextToRun_none [OF _ Q] k by (simp add: kinvF_def)
  show ?thesis
  proof (cases "Idle pf (interrupt k)")
    case None
    then show ?thesis using none by (simp add: Sleep_loop_def)
  next
    case (Some r)
    obtain ss m where r: "r = (ss, m)" by fastforce
    have "kinvF pf ?F (k\<lparr>interrupt := m\<rparr>)"
    proof (rule kinvF_level [OF k])
      show "in_kernel (?F (currentThread k)) \<Longrightarrow> getLevel pf m = IntOff"
        using kinvF_in_kernel [OF k] platform_okD(5) [OF pf Some [unfolded r]] by simp
    qed
    from run_handlers_ok [OF pf this, of ss] have
      "safe (kinv pf) (bindE (run_handlers pf ss (k\<lparr>interrupt := m\<rparr>))
        (\<lambda>k. Inr (push (currentThread k) SleepF k)))"
      by (rule safe_bind) (use fs in \<open>simp add: kinv_kinvF push_def\<close>)
    then show ?thesis using none Some r by (simp add: Sleep_loop_def)
  qed
qed

lemma Sleep_loop_ok:
  assumes pf: "platform_ok pf" and k: "kinvF pf ((frames k)(currentThread k := SleepF # fs)) k"
    and fs: "frames k (currentThread k) = fs" "resumable fs"
  shows "if queue k ReadyQ = [] \<and> Idle pf (interrupt k) = None then Sleep_loop pf k = Inl Halted
    else safe (kinv pf) (Sleep_loop pf k)"
proof (cases "queue k ReadyQ")
  case Nil
  with Sleep_idle [OF pf k fs(1)] show ?thesis by simp
next
  case (Cons n q)
  from Sleep_dispatch [OF k fs Cons] Cons show ?thesis by (auto simp: Let_def)
qed

end
