(* ===== verification/StepPreserve.thy ===== *)
theory StepPreserve
  imports StepSafe
begin

text \<open>
  The invariant through one machine step: every statement, every frame, \<open>step\<close> and
  \<open>sys_step\<close>. The results are summed up as \<open>step_safe\<close> and \<open>reachable_kinv\<close>.
\<close>

section \<open>Statements\<close>

lemma inv_synch [simp]:
  "inv pf (Q(SynchQ sl := xs)) th fr cur dst lvl = inv pf Q th fr cur dst lvl"
proof -
  have "(Q(SynchQ sl := xs)) ow = Q ow" if "thread_queue ow" for ow using that by auto
  then show ?thesis unfolding inv_def by (simp cong: conj_cong)
qed

lemma kinv_push:
  assumes k: "kinv pf k" and user: "user_frames (frames k (currentThread k))" and f: "user_frame f"
  shows "kinv pf (push (currentThread k) f k)"
    and "user_frames (frames (push (currentThread k) f k) (currentThread (push (currentThread k) f k)))"
  using k user f inv_user_frames [of pf "queue k" "threads k" "frames k" "currentThread k"
      "threadToBeDestroyed k" "getLevel pf (interrupt k)" "f # frames k (currentThread k)"
      "getLevel pf (interrupt k)"]
  by (simp_all add: kinv_def push_def)

lemma SynchList_queue:
  assumes k: "kinv pf k" and sl: "synchlists k sl = Some SL" and h: "wf (k\<lparr>heap := h\<rparr>)"
    "queue (k\<lparr>heap := h\<rparr>) = (queue k)(SynchQ sl := xs)"
  shows "kinv pf (k\<lparr>heap := h\<rparr>)"
  using k h by (simp add: kinv_def)

lemma synch_remove:
  assumes k: "kinv pf k" and sl: "synchlists k sl = Some SL"
  shows "\<exists>x h. List_Remove (sl_list SL) (heap k) = Inr (x, h) \<and> kinv pf (k\<lparr>heap := h\<rparr>) \<and>
    (case queue k (SynchQ sl) of [] \<Rightarrow> x = NULL \<and> h = heap k
     | y # ys \<Rightarrow> x = y \<and> queue (k\<lparr>heap := h\<rparr>) = (queue k)(SynchQ sl := ys))"
proof (cases "queue k (SynchQ sl)")
  case Nil
  with k sl show ?thesis
    using queue_remove_empty [of k "SynchQ sl" "sl_list SL"] by (simp add: kinv_def)
next
  case (Cons y ys)
  have wf: "wf k" using k by (simp add: kinv_def)
  from queue_remove [OF wf, of "SynchQ sl" "sl_list SL"] sl Cons obtain h where
    "List_Remove (sl_list SL) (heap k) = Inr (y, h)" "wf (k\<lparr>heap := h\<rparr>)"
    "queue (k\<lparr>heap := h\<rparr>) = (queue k)(SynchQ sl := ys)" by auto
  with SynchList_queue [OF k sl] Cons show ?thesis by auto
qed

lemma kinv_simps [simp]:
  "kinv pf (k\<lparr>history := hist\<rparr>) = kinv pf k"
  "kinv pf (k\<lparr>printed := out\<rparr>) = kinv pf k"
  "kinv pf (k\<lparr>locktest1 := lt\<rparr>) = kinv pf k"
  by (simp_all add: kinv_def)

lemma Yield_ok:
  assumes "platform_ok pf" and "kinv pf k" and "user_frames (frames k (currentThread k))"
  shows "safe (kinv pf) (Thread_Yield pf (currentThread k) k)"
proof (cases "queue k ReadyQ")
  case Nil
  from Yield_alone [OF assms this] show ?thesis by auto
next
  case (Cons n q)
  from Yield_switch [OF assms this] show ?thesis by (auto simp: Let_def)
qed

lemma P_loop_ok:
  assumes pf: "platform_ok pf" and k: "kinv pf k" and user: "user_frames (frames k (currentThread k))"
    and off: "getLevel pf (interrupt k) = IntOff"
  shows "safe (kinv pf) (Semaphore_P_loop pf s l k)"
proof (cases "semaphores k s")
  case None
  then show ?thesis by (simp add: Semaphore_P_loop_def)
next
  case (Some S)
  with P_loop_blocks [OF k user off Some, of l] P_loop_passes [OF pf k user Some, of l]
  show ?thesis by (cases "sem_value S = 0") (auto simp: Let_def)
qed

lemma Acquire_loop_ok:
  assumes pf: "platform_ok pf" and k: "kinv pf k" and user: "user_frames (frames k (currentThread k))"
    and off: "getLevel pf (interrupt k) = IntOff"
  shows "safe (kinv pf) (Lock_Acquire_loop pf s l k)"
proof (cases "locks k s")
  case None
  then show ?thesis by (simp add: Lock_Acquire_loop_def)
next
  case (Some L)
  with Acquire_loop_blocks [OF k user off Some, of l] Acquire_loop_passes [OF pf k user Some, of l]
  show ?thesis by (cases "held L = 0") (auto simp: Let_def)
qed

lemma kinv_off:
  assumes "platform_ok pf" and "kinv pf k" and "user_frames (frames k (currentThread k))"
  defines "k0 \<equiv> snd (set_level pf IntOff k)"
  shows "kinv pf k0" and "user_frames (frames k0 (currentThread k0))"
    and "getLevel pf (interrupt k0) = IntOff"
  using assms kinv_level [OF assms(2,3)] by (simp_all add: set_level_ok platform_okD)

lemma V_ok:
  assumes pf: "platform_ok pf" and k: "kinv pf k"
  shows "safe (kinv pf) (Semaphore_V pf s k)"
proof (cases "semaphores k s")
  case None
  then show ?thesis by (simp add: Semaphore_V_def set_level_def case_prod_unfold Let_def)
next
  case (Some S)
  from Semaphore_V_ok [OF pf k [unfolded kinv_kinvF] Some] show ?thesis
    by (auto simp: Let_def kinv_kinvF)
qed

lemma Release_ok:
  assumes pf: "platform_ok pf" and k: "kinv pf k"
  shows "safe (kinv pf) (Lock_Release pf l k)"
proof (cases "locks k l")
  case None
  then show ?thesis by (simp add: Lock_Release_def set_level_def case_prod_unfold Let_def)
next
  case (Some L)
  from Lock_Release_ok [OF pf k [unfolded kinv_kinvF] Some] show ?thesis
    by (auto simp: Let_def kinv_kinvF)
qed

lemma kinv_new_lock:
  assumes k: "kinv pf k" and new: "new_Lock nm k = (l, k')"
  shows "kinv pf k'"
proof -
  have wf: "wf k" using k by (simp add: kinv_def)
  from wf_new_lock(5) [OF wf new] have "threads k' = threads k" "frames k' = frames k"
    "currentThread k' = currentThread k" "threadToBeDestroyed k' = threadToBeDestroyed k"
    "interrupt k' = interrupt k" by auto
  with k wf_new_lock(1,2) [OF wf new] show ?thesis by (simp add: kinv_def)
qed

lemma exec_stmt_ok:
  assumes pf: "platform_ok pf" and k: "kinv pf k" and user: "user_frames (frames k (currentThread k))"
  shows "safe (kinv pf) (exec_stmt pf s k)"
proof (cases s)
  case (ForkNew nm func arg)
  with ForkNew_ok [OF assms, of nm func arg] show ?thesis by (auto simp: Let_def)
next
  case (NewLocktest1 nm)
  then show ?thesis using kinv_new_lock [OF k] by (auto split: prod.split)
next
  case CurrentFinish
  with Finish_ok [OF assms] show ?thesis by (auto simp: Let_def)
next
  case (SemP s)
  with P_loop_ok [OF pf kinv_off [OF assms]] show ?thesis
    by (simp add: Semaphore_P_def case_prod_unfold Let_def)
next
  case (Acquire r)
  with Acquire_loop_ok [OF pf kinv_off [OF assms]] show ?thesis
    by (simp add: Lock_Acquire_def case_prod_unfold Let_def)
next
  case (ListAppend sl itm)
  have wf: "wf k" using k by (simp add: kinv_def)
  show ?thesis
  proof (cases "synchlists k sl")
    case (Some SL)
    with queue_append [OF wf, of "SynchQ sl" "sl_list SL" itm] SynchList_queue [OF k Some] ListAppend
    show ?thesis by auto
  qed (use ListAppend in simp)
next
  case (WaitNonEmpty sl)
  show ?thesis
  proof (cases "synchlists k sl")
    case (Some SL)
    with WaitNonEmpty k show ?thesis
      by (cases "listobjs (heap k) (sl_list SL)")
         (simp_all add: SynchList_wait_def List_IsEmpty_def Condition_Wait_def assertE_def tolerated_def)
  qed (simp add: WaitNonEmpty SynchList_wait_def)
next
  case (TakeFirst sl)
  then show ?thesis
  proof (cases "synchlists k sl")
    case (Some SL)
    from synch_remove [OF k Some] obtain x h where
      "List_Remove (sl_list SL) (heap k) = Inr (x, h)" "kinv pf (k\<lparr>heap := h\<rparr>)" by blast
    with Some TakeFirst show ?thesis
      by (simp add: SynchList_take_def log_event_def assertE_def tolerated_def)
  qed (simp add: SynchList_take_def)
qed (use assms in \<open>auto simp: printf_def Yield_ok V_ok Release_ok Condition_Wait_def tolerated_def
    Condition_Signal_def Condition_Broadcast_def kinv_push intro!: safe_deref\<close>)

section \<open>Frames\<close>

lemma Run_resume_ok:
  assumes k: "kinv pf k" and fs: "resumable (frames k (currentThread k))"
  shows "\<exists>th fr. Scheduler_Run_resume k =
      Inr (k\<lparr>threads := th, frames := fr, threadToBeDestroyed := NULL\<rparr>) \<and>
    fr (currentThread k) = frames k (currentThread k) \<and>
    th (currentThread k) = threads k (currentThread k) \<and>
    (\<forall>t. t \<noteq> threadToBeDestroyed k \<longrightarrow> th t = threads k t \<and> fr t = frames k t) \<and>
    (threadToBeDestroyed k \<noteq> NULL \<longrightarrow> th (threadToBeDestroyed k) = None) \<and>
    kinv pf (k\<lparr>threads := th, frames := fr, threadToBeDestroyed := NULL\<rparr>)"
proof (cases "threadToBeDestroyed k = NULL")
  case True
  then show ?thesis using k
    by (intro exI [of _ "threads k"] exI [of _ "frames k"]) (simp add: Scheduler_Run_resume_def kinv_def wf_def)
next
  case False
  let ?d = "threadToBeDestroyed k"
  have wf: "wf k" and inv: "inv pf (queue k) (threads k) (frames k) (currentThread k) ?d
      (getLevel pf (interrupt k))"
    using k by (simp_all add: kinv_def)
  note d = inv_destroy [OF inv resumable_not_asleep [OF fs] False]
  have "wf (k\<lparr>threads := (threads k)(?d := None), frames := (frames k)(?d := []), threadToBeDestroyed := NULL\<rparr>)"
    using wf_threads(2) [OF wf, of ?d] by (simp add: wf_def)
  then show ?thesis using d False
    by (intro exI [of _ "(threads k)(?d := None)"] exI [of _ "(frames k)(?d := [])"])
       (auto simp: Scheduler_Run_resume_def delete_Thread_def kinv_def)
qed

lemma ThreadRoot_ok:
  assumes k: "kinv pf k" and T: "threads k (currentThread k) = Some T" "thread_ok pf T [RootF]"
    and nil: "frames k (currentThread k) = []"
  shows "\<exists>pc arg. machineState T (InitialPCState (host pf)) = Some pc \<and>
    machineState T (InitialArgState (host pf)) = Some arg \<and>
    (let k' = k\<lparr>frames := (frames k)(currentThread k :=
        [CallF (addr_InterruptEnable pf) 0, CallF pc arg, CallF (addr_ThreadFinish pf) 0])\<rparr>
     in ThreadRoot pf k = Inr k' \<and> kinv pf k')"
proof -
  have wf: "wf k" and inv: "inv pf (queue k) (threads k) (frames k) (currentThread k)
      (threadToBeDestroyed k) (getLevel pf (interrupt k))"
    using k by (simp_all add: kinv_def)
  have user: "user_frames (frames k (currentThread k))" using nil by simp
  from T(2) obtain pc arg where "machineState T (StartupPCState (host pf)) = Some (addr_InterruptEnable pf)"
    "machineState T (InitialPCState (host pf)) = Some pc" "machineState T (InitialArgState (host pf)) = Some arg"
    "machineState T (WhenDonePCState (host pf)) = Some (addr_ThreadFinish pf)"
    by (auto simp: thread_ok_def)
  then show ?thesis
    using wf inv_user_frames [OF inv user, of "[CallF (addr_InterruptEnable pf) 0, CallF pc arg,
        CallF (addr_ThreadFinish pf) 0]" "getLevel pf (interrupt k)"] T nil
    by (simp add: ThreadRoot_def kinv_def)
qed

lemma call_addr_ok:
  assumes pf: "platform_ok pf" and k: "kinv pf k" and user: "user_frames (frames k (currentThread k))"
  shows "safe (kinv pf) (call_addr pf a arg k)"
  using Finish_ok [OF assms] kinv_level [OF k user] kinv_push(1) [OF k user, of "CodeF (program pf a arg)"]
  by (auto simp: call_addr_def Let_def)

section \<open>Steps\<close>

text \<open>The state in which \<open>Sleep\<close> finds nothing to run and no interrupt to wait for.\<close>

definition halting :: "'m platform \<Rightarrow> 'm kernel \<Rightarrow> bool" where
  "halting pf k \<longleftrightarrow> asleep (frames k (currentThread k)) \<and> queue k ReadyQ = [] \<and>
     Idle pf (interrupt k) = None"

lemma step_safe:
  assumes pf: "platform_ok pf" and k: "kinv pf k"
  shows "if halting pf k then step pf k = Inl Halted else safe (kinv pf) (step pf k)"
proof (cases "frames k (currentThread k)")
  case Nil
  then show ?thesis by (simp add: step_def halting_def)
next
  case (Cons f fs)
  let ?c = "currentThread k" and ?fr = "(frames k)(currentThread k := fs)"
  have wf: "wf k" and inv: "inv pf (queue k) (threads k) (frames k) ?c
      (threadToBeDestroyed k) (getLevel pf (interrupt k))"
    using k by (simp_all add: kinv_def)
  have step: "step pf k = exec_frame pf f (pop k)" using Cons by (simp add: step_def)
  have pop: "pop k = k\<lparr>frames := ?fr\<rparr>" using Cons by (simp add: pop_def)
  show ?thesis
  proof (cases "f = SleepF")
    case True
    from invD(6) [OF inv] Cons True have res: "resumable fs" by (auto simp: running_def)
    have "kinvF pf ((frames (pop k))(currentThread (pop k) := SleepF # fs)) (pop k)"
      using k Cons True by (simp add: pop kinv_kinvF fun_upd_idem)
    from Sleep_loop_ok [OF pf this _ res] show ?thesis
      by (auto simp: step True pop halting_def Cons split: if_splits)
  next
    case False
    have "\<not> halting pf k" using Cons False by (cases f) (simp_all add: halting_def)
    moreover
    note p = inv_pop [OF inv Cons False]
    have kp: "kinv pf (pop k)" using p(1) wf by (simp add: pop kinv_def)
    have "safe (kinv pf) (step pf k)"
    proof (cases "f = RunF")
      case True
      with Run_resume_ok [OF kp] p(3) show ?thesis by (auto simp: step pop)
    next
      case notRun: False
      have user: "user_frames (frames (pop k) (currentThread (pop k)))" using p(4) notRun by (simp add: pop)
      have off: "\<not> user_frame f \<Longrightarrow> getLevel pf (interrupt (pop k)) = IntOff" using p(2) by (simp add: pop)
      show ?thesis
      proof (cases f)
        case RootF
        from invD(6) [OF inv] obtain T where T: "threads k ?c = Some T" "running (frames k ?c)" by blast
        then have "fs = []" using Cons RootF by (auto simp: running_def)
        with ThreadRoot_ok [OF kp, of T] T invD(3) [OF inv T(1)] Cons RootF show ?thesis
          by (auto simp: step pop Let_def)
      next
        case (CodeF ss)
        then show ?thesis
        proof (cases ss)
          case (Cons s ss')
          from exec_stmt_ok [OF pf kinv_push [OF kp user, of "CodeF ss'"]] CodeF Cons
          show ?thesis by (simp add: step)
        qed (use kp step in simp)
      next
        case (MapcarF func pt)
        show ?thesis
          using kp kinv_push(1) [OF kinv_push [OF kp user, of "MapcarNextF func pt"]]
          by (auto simp: step MapcarF push_def intro!: safe_deref)
      next
        case (MapcarNextF func pt)
        then show ?thesis using kp user by (auto simp: step intro!: safe_deref kinv_push)
      next
        case (YieldF l)
        then show ?thesis using pf kinv_level [OF kp user] by (simp add: step set_level_ok)
      qed (use pf kp user off step False notRun in
           \<open>simp_all add: call_addr_ok P_loop_ok Acquire_loop_ok\<close>)
    qed
    ultimately show ?thesis by simp
  qed
qed

lemma sys_step_kinv:
  assumes pf: "platform_ok pf" and k: "kinv pf k" and step: "sys_step pf k k'"
  shows "kinv pf k'"
  using step
proof cases
  case thread_step
  with step_safe [OF pf k] show ?thesis by (simp split: if_splits)
next
  case time_slice
  have inv: "inv pf (queue k) (threads k) (frames k) (currentThread k)
      (threadToBeDestroyed k) (getLevel pf (interrupt k))" using k by (simp add: kinv_def)
  have "\<not> in_kernel (frames k (currentThread k))" using invD(8) [OF inv] time_slice(1) by auto
  then have "user_frames (frames k (currentThread k))" using invD(6) [OF inv] running_user by blast
  with Yield_ok [OF pf k] time_slice(2) show ?thesis by simp
next
  case (device s)
  with V_ok [OF pf k, of s] show ?thesis by simp
qed

lemma reachable_kinv:
  assumes pf: "platform_ok pf" and "reachable pf k0 k" and "kinv pf k0"
  shows "kinv pf k"
  using assms(2,3) by (induction rule: reachable.induct) (auto intro: sys_step_kinv [OF pf])

end
