(* ===== verification/KernelSpec.thy ===== *)
theory KernelSpec
  imports StepPreserve
begin

text \<open>
  The abstract kernel: what the thread system and the synchronization objects promise,
  without heap, stacks or interrupt level. \<open>quiet\<close> moves do not change the running thread;
  \<open>switch\<close> moves dispatch the head of the ready queue. The detailed kernel refines it: each
  step is a sequence of quiet moves, then at most one switch.
\<close>

section \<open>Abstract state\<close>

record astate =
  aq :: "owner \<Rightarrow> ptr list"
  ast :: "ptr \<Rightarrow> ThreadStatus option"
  afr :: "ptr \<Rightarrow> frame list"
  acur :: ptr
  adst :: ptr
  asem :: "ptr \<Rightarrow> word32 option"
  aheld :: "ptr \<Rightarrow> word32 option"
  ahist :: "event list"

definition statuses :: "(ptr \<Rightarrow> Thread option) \<Rightarrow> ptr \<Rightarrow> ThreadStatus option" where
  "statuses th = (\<lambda>t. map_option status (th t))"

definition sem_values :: "(ptr \<Rightarrow> Semaphore option) \<Rightarrow> ptr \<Rightarrow> word32 option" where
  "sem_values sems = (\<lambda>s. map_option sem_value (sems s))"

definition helds :: "(ptr \<Rightarrow> Lock option) \<Rightarrow> ptr \<Rightarrow> word32 option" where
  "helds lks = (\<lambda>l. map_option held (lks l))"

lemma abs_fun_upd [simp]:
  "statuses (th(t \<mapsto> T)) = (statuses th)(t \<mapsto> status T)"
  "statuses (th(t := None)) = (statuses th)(t := None)"
  "sem_values (sems(s \<mapsto> S)) = (sem_values sems)(s \<mapsto> sem_value S)"
  "helds (lks(l \<mapsto> L)) = (helds lks)(l \<mapsto> held L)"
  by (auto simp: statuses_def sem_values_def helds_def)

lemma abs_fun_apply:
  "statuses th t = map_option status (th t)"
  "sem_values sems s = map_option sem_value (sems s)"
  "helds lks l = map_option held (lks l)"
  by (simp_all add: statuses_def sem_values_def helds_def)

definition absF :: "(ptr \<Rightarrow> frame list) \<Rightarrow> 'm kernel \<Rightarrow> astate" where
  "absF F k = \<lparr>aq = queue k, ast = statuses (threads k), afr = F, acur = currentThread k,
     adst = threadToBeDestroyed k, asem = sem_values (semaphores k), aheld = helds (locks k),
     ahist = history k\<rparr>"

definition abs_of :: "'m kernel \<Rightarrow> astate" where
  "abs_of k = absF (frames k) k"

section \<open>Abstract moves\<close>

definition idle_code :: "frame list \<Rightarrow> bool" where
  "idle_code fs \<longleftrightarrow> user_frames fs \<or> fs = [RootF] \<or> (\<exists>l us. fs = YieldF l # us \<and> user_frames us)"

inductive quiet :: "astate \<Rightarrow> astate \<Rightarrow> bool" where
  code: "idle_code (afr a (acur a)) \<Longrightarrow> user_frames us \<Longrightarrow>
    quiet a (a\<lparr>afr := (afr a)(acur a := us)\<rparr>)"
| resume: "afr a (acur a) = RunF # fs \<Longrightarrow> adst a = NULL \<Longrightarrow>
    quiet a (a\<lparr>afr := (afr a)(acur a := fs)\<rparr>)"
| destroy: "afr a (acur a) = RunF # fs \<Longrightarrow> adst a = d \<Longrightarrow> d \<noteq> NULL \<Longrightarrow> d \<noteq> acur a \<Longrightarrow>
    quiet a (a\<lparr>afr := (afr a)(acur a := fs, d := []), ast := (ast a)(d := None), adst := NULL\<rparr>)"
| spawn: "user_frames (afr a (acur a)) \<Longrightarrow> ast a t = None \<Longrightarrow> t \<noteq> NULL \<Longrightarrow>
    quiet a (a\<lparr>aq := (aq a)(ReadyQ := aq a ReadyQ @ [t]), ast := (ast a)(t \<mapsto> READY),
               afr := (afr a)(t := [RootF])\<rparr>)"
| finish: "user_frames (afr a (acur a)) \<Longrightarrow>
    quiet a (a\<lparr>ast := (ast a)(acur a \<mapsto> BLOCKED),
               afr := (afr a)(acur a := SleepF # afr a (acur a)), adst := acur a\<rparr>)"
| pass: "afr a (acur a) = us \<or> afr a (acur a) = SemPF s l # us \<Longrightarrow> user_frames us \<Longrightarrow>
    asem a s = Some v \<Longrightarrow> v \<noteq> 0 \<Longrightarrow>
    quiet a (a\<lparr>afr := (afr a)(acur a := us), asem := (asem a)(s \<mapsto> v - 1),
               ahist := ahist a @ [EvP s (acur a)]\<rparr>)"
| wait: "afr a (acur a) = us \<or> afr a (acur a) = SemPF s l # us \<Longrightarrow> user_frames us \<Longrightarrow>
    asem a s = Some 0 \<Longrightarrow>
    quiet a (a\<lparr>aq := (aq a)(SemQ s := aq a (SemQ s) @ [acur a]), ast := (ast a)(acur a \<mapsto> BLOCKED),
               afr := (afr a)(acur a := SleepF # SemPF s l # us)\<rparr>)"
| acquire: "afr a (acur a) = us \<or> afr a (acur a) = AcquireF m l # us \<Longrightarrow> user_frames us \<Longrightarrow>
    aheld a m = Some 0 \<Longrightarrow>
    quiet a (a\<lparr>afr := (afr a)(acur a := us), aheld := (aheld a)(m \<mapsto> 1),
               ahist := ahist a @ [EvAcquire m (acur a)]\<rparr>)"
| await: "afr a (acur a) = us \<or> afr a (acur a) = AcquireF m l # us \<Longrightarrow> user_frames us \<Longrightarrow>
    aheld a m = Some v \<Longrightarrow> v \<noteq> 0 \<Longrightarrow>
    quiet a (a\<lparr>aq := (aq a)(LockQ m := aq a (LockQ m) @ [acur a]), ast := (ast a)(acur a \<mapsto> BLOCKED),
               afr := (afr a)(acur a := SleepF # AcquireF m l # us)\<rparr>)"
| signal: "asem a s = Some v \<Longrightarrow> aq a (SemQ s) = [] \<Longrightarrow>
    quiet a (a\<lparr>asem := (asem a)(s \<mapsto> v + 1), ahist := ahist a @ [EvV s]\<rparr>)"
| signal_wake: "asem a s = Some v \<Longrightarrow> aq a (SemQ s) = t # q \<Longrightarrow>
    quiet a (a\<lparr>aq := (aq a)(SemQ s := q, ReadyQ := aq a ReadyQ @ [t]), ast := (ast a)(t \<mapsto> READY),
               asem := (asem a)(s \<mapsto> v + 1), ahist := ahist a @ [EvV s]\<rparr>)"
| release: "aheld a m = Some v \<Longrightarrow> aq a (LockQ m) = [] \<Longrightarrow>
    quiet a (a\<lparr>aheld := (aheld a)(m \<mapsto> 0), ahist := ahist a @ [EvRelease m (acur a)]\<rparr>)"
| release_wake: "aheld a m = Some v \<Longrightarrow> aq a (LockQ m) = t # q \<Longrightarrow>
    quiet a (a\<lparr>aq := (aq a)(LockQ m := q, ReadyQ := aq a ReadyQ @ [t]), ast := (ast a)(t \<mapsto> READY),
               aheld := (aheld a)(m \<mapsto> 0), ahist := ahist a @ [EvRelease m (acur a)]\<rparr>)"
| new_lock: "aheld a m = None \<Longrightarrow> quiet a (a\<lparr>aheld := (aheld a)(m \<mapsto> 0)\<rparr>)"
| put: "quiet a (a\<lparr>aq := (aq a)(SynchQ sl := aq a (SynchQ sl) @ [x])\<rparr>)"
| take: "aq a (SynchQ sl) = x # xs \<Longrightarrow>
    quiet a (a\<lparr>aq := (aq a)(SynchQ sl := xs), ahist := ahist a @ [EvTake sl x]\<rparr>)"

inductive switch :: "astate \<Rightarrow> astate \<Rightarrow> bool" where
  dispatch: "afr a (acur a) = SleepF # fs \<Longrightarrow> aq a ReadyQ = n # q \<Longrightarrow>
    switch a (a\<lparr>aq := (aq a)(ReadyQ := q), ast := (ast a)(n \<mapsto> RUNNING),
                afr := (afr a)(acur a := RunF # fs), acur := n\<rparr>)"
| yield: "user_frames (afr a (acur a)) \<Longrightarrow> aq a ReadyQ = n # q \<Longrightarrow> n \<noteq> acur a \<Longrightarrow>
    switch a (a\<lparr>aq := (aq a)(ReadyQ := q @ [acur a]), ast := (ast a)(acur a \<mapsto> READY, n \<mapsto> RUNNING),
                afr := (afr a)(acur a := RunF # YieldF l # afr a (acur a)), acur := n\<rparr>)"

text \<open>
  What one step of the kernel does: quiet moves, or one switch, before which the running
  thread may have run on but no status has changed.
\<close>

definition moves :: "astate \<Rightarrow> astate \<Rightarrow> bool" where
  "moves a c \<longleftrightarrow> quiet\<^sup>*\<^sup>* a c \<or> (\<exists>b. quiet\<^sup>*\<^sup>* a b \<and> ast b = ast a \<and> switch b c)"

lemma moves_quiet: "quiet\<^sup>*\<^sup>* a b \<Longrightarrow> moves a b"
  by (auto simp: moves_def)

lemma moves_refl [simp]: "moves a a"
  by (simp add: moves_quiet)

lemma moves_quiet1: "quiet a b \<Longrightarrow> moves a b"
  by (auto intro: moves_quiet)

lemma moves_switch: "switch a b \<Longrightarrow> moves a b"
  by (auto simp: moves_def)

lemma quiet_moves: "quiet a b \<Longrightarrow> ast b = ast a \<Longrightarrow> moves b c \<Longrightarrow> moves a c"
  unfolding moves_def by (metis converse_rtranclp_into_rtranclp)

end
