(* ===== verification/KernelRefine.thy ===== *)
theory KernelRefine
  imports KernelSpec
begin

text \<open>
  The detailed kernel refines the abstract one: \<open>sys_step_refines\<close>. The lemmas follow the
  code: \<open>V\<close> and \<open>Release\<close>, \<open>P\<close> and \<open>Acquire\<close>, \<open>Yield\<close>, \<open>Fork\<close>, \<open>Finish\<close>, \<open>Sleep\<close>, then
  statements, frames and steps.
\<close>

section \<open>Synchronization objects\<close>

lemma absF_simps [simp]:
  "aq (absF F k) = queue k" "ast (absF F k) = statuses (threads k)" "afr (absF F k) = F"
  "acur (absF F k) = currentThread k" "adst (absF F k) = threadToBeDestroyed k"
  "asem (absF F k) = sem_values (semaphores k)" "aheld (absF F k) = helds (locks k)"
  "ahist (absF F k) = history k"
  by (simp_all add: absF_def)

lemma abs_ignores [simp]:
  "absF F (k\<lparr>interrupt := m\<rparr>) = absF F k"
  "absF F (k\<lparr>printed := out\<rparr>) = absF F k"
  "absF F (k\<lparr>locktest1 := lt\<rparr>) = absF F k"
  "absF F (k\<lparr>frames := fr\<rparr>) = absF F k"
  by (simp_all add: absF_def)

lemma abs_frames: "abs_of (k\<lparr>frames := fr\<rparr>) = (abs_of k)\<lparr>afr := fr\<rparr>"
  by (simp add: abs_of_def absF_def)

lemma V_refines:
  assumes pf: "platform_ok pf" and k: "kinvF pf F k" and V: "Semaphore_V pf s k = Inr k'"
  shows "quiet (absF F k) (absF F k')" and "kinvF pf F k'" and "currentThread k' = currentThread k"
    and "frames k' = frames k"
proof -
  obtain S where S: "semaphores k s = Some S"
    using V by (cases "semaphores k s") (auto simp: Semaphore_V_def set_level_def case_prod_unfold Let_def)
  from Semaphore_V_ok [OF pf k S] V obtain th h m where
    k': "k' = k\<lparr>threads := th, heap := h, semaphores := (semaphores k)(s \<mapsto> S\<lparr>sem_value := sem_value S + 1\<rparr>),
      history := history k @ [EvV s], interrupt := m\<rparr>"
    and inv: "kinvF pf F k'" and w: "wakes (SemQ s) k k'" by (auto simp: Let_def)
  have f: "currentThread k' = currentThread k" "threadToBeDestroyed k' = threadToBeDestroyed k"
    "semaphores k' = (semaphores k)(s \<mapsto> S\<lparr>sem_value := sem_value S + 1\<rparr>)" "locks k' = locks k"
    "history k' = history k @ [EvV s]" by (simp_all add: k')
  show "kinvF pf F k'" by (rule inv)
  show "currentThread k' = currentThread k" "frames k' = frames k" by (simp_all add: k')
  show "quiet (absF F k) (absF F k')"
  proof (cases "queue k (SemQ s)")
    case Nil
    have v: "asem (absF F k) s = Some (sem_value S)" using S by (simp add: abs_fun_apply)
    from Nil w have "queue k' = queue k" "threads k' = threads k" by (simp_all add: wakes_def)
    then have "absF F k' = (absF F k)\<lparr>asem := (asem (absF F k))(s \<mapsto> sem_value S + 1),
        ahist := ahist (absF F k) @ [EvV s]\<rparr>"
      by (simp add: absF_def f)
    with quiet.signal [of "absF F k", OF v] Nil show ?thesis by simp
  next
    case (Cons t ts)
    have v: "asem (absF F k) s = Some (sem_value S)" using S by (simp add: abs_fun_apply)
    from Cons w obtain T where "queue k' = (queue k)(SemQ s := ts, ReadyQ := queue k ReadyQ @ [t])"
      "threads k' = (threads k)(t \<mapsto> T\<lparr>status := READY\<rparr>)" by (auto simp: wakes_def)
    then have "absF F k' = (absF F k)\<lparr>aq := (aq (absF F k))(SemQ s := ts, ReadyQ := aq (absF F k) ReadyQ @ [t]),
        ast := (ast (absF F k))(t \<mapsto> READY), asem := (asem (absF F k))(s \<mapsto> sem_value S + 1),
        ahist := ahist (absF F k) @ [EvV s]\<rparr>"
      by (simp add: absF_def f)
    with quiet.signal_wake [of "absF F k", OF v] Cons show ?thesis by simp
  qed
qed

lemma Release_refines:
  assumes pf: "platform_ok pf" and k: "kinvF pf F k" and R: "Lock_Release pf l k = Inr k'"
  shows "quiet (absF F k) (absF F k')" and "frames k' = frames k"
proof -
  obtain L where L: "locks k l = Some L"
    using R by (cases "locks k l") (auto simp: Lock_Release_def set_level_def case_prod_unfold Let_def)
  from Lock_Release_ok [OF pf k L] R obtain th h m where
    k': "k' = k\<lparr>threads := th, heap := h, locks := (locks k)(l \<mapsto> L\<lparr>held := 0\<rparr>),
      history := history k @ [EvRelease l (currentThread k)], interrupt := m\<rparr>"
    and w: "wakes (LockQ l) k k'" by (auto simp: Let_def)
  have f: "currentThread k' = currentThread k" "threadToBeDestroyed k' = threadToBeDestroyed k"
    "locks k' = (locks k)(l \<mapsto> L\<lparr>held := 0\<rparr>)" "semaphores k' = semaphores k"
    "history k' = history k @ [EvRelease l (currentThread k)]" by (simp_all add: k')
  show "frames k' = frames k" by (simp add: k')
  have v: "aheld (absF F k) l = Some (held L)" using L by (simp add: abs_fun_apply)
  show "quiet (absF F k) (absF F k')"
  proof (cases "queue k (LockQ l)")
    case Nil
    with w have "queue k' = queue k" "threads k' = threads k" by (simp_all add: wakes_def)
    then have "absF F k' = (absF F k)\<lparr>aheld := (aheld (absF F k))(l \<mapsto> 0),
        ahist := ahist (absF F k) @ [EvRelease l (acur (absF F k))]\<rparr>"
      by (simp add: absF_def f)
    with quiet.release [of "absF F k", OF v] Nil show ?thesis by simp
  next
    case (Cons t ts)
    with w obtain T where "queue k' = (queue k)(LockQ l := ts, ReadyQ := queue k ReadyQ @ [t])"
      "threads k' = (threads k)(t \<mapsto> T\<lparr>status := READY\<rparr>)" by (auto simp: wakes_def)
    then have "absF F k' = (absF F k)\<lparr>aq := (aq (absF F k))(LockQ l := ts, ReadyQ := aq (absF F k) ReadyQ @ [t]),
        ast := (ast (absF F k))(t \<mapsto> READY), aheld := (aheld (absF F k))(l \<mapsto> 0),
        ahist := ahist (absF F k) @ [EvRelease l (acur (absF F k))]\<rparr>"
      by (simp add: absF_def f)
    with quiet.release_wake [of "absF F k", OF v] Cons show ?thesis by simp
  qed
qed

text \<open>
  \<open>P\<close> and \<open>Acquire\<close>, from the first test (the frames are \<open>us\<close>) or a later one (\<open>SemPF\<close> or
  \<open>AcquireF\<close> was just popped); \<open>fs\<close> are the frames before that.
\<close>

lemma P_loop_refines:
  assumes pf: "platform_ok pf" and k: "kinv pf k" and us: "frames k (currentThread k) = us" "user_frames us"
    and off: "getLevel pf (interrupt k) = IntOff" and P: "Semaphore_P_loop pf s l k = Inr k'"
    and fs: "F = (frames k)(currentThread k := fs)" "fs = us \<or> fs = SemPF s l # us"
  shows "quiet (absF F k) (abs_of k')"
proof -
  obtain S where S: "semaphores k s = Some S"
    using P by (cases "semaphores k s") (auto simp: Semaphore_P_loop_def)
  have user: "user_frames (frames k (currentThread k))" using us by simp
  have v: "asem (absF F k) s = Some (sem_value S)" using S by (simp add: abs_fun_apply)
  have at: "afr (absF F k) (acur (absF F k)) = us \<or> afr (absF F k) (acur (absF F k)) = SemPF s l # us"
    using fs by simp
  show ?thesis
  proof (cases "sem_value S = 0")
    case True
    from P_loop_blocks [OF k user off S True, of l] P us(1) obtain h C where
      k': "k' = k\<lparr>heap := h, frames := (frames k)(currentThread k := SleepF # SemPF s l # us),
          threads := (threads k)(currentThread k \<mapsto> C\<lparr>status := BLOCKED\<rparr>)\<rparr>"
      and q: "queue k' = (queue k)(SemQ s := queue k (SemQ s) @ [currentThread k])"
      by (auto simp: Let_def)
    from quiet.wait [OF at us(2)] v True q show ?thesis
      by (simp add: abs_of_def absF_def fs(1) k')
  next
    case False
    from P_loop_passes [OF pf k user S False, of l] P obtain m where
      k': "k' = k\<lparr>semaphores := (semaphores k)(s \<mapsto> S\<lparr>sem_value := sem_value S - 1\<rparr>),
        history := history k @ [EvP s (currentThread k)], interrupt := m\<rparr>"
      and q: "queue k' = queue k" by (auto simp: Let_def)
    from quiet.pass [OF at us(2) v False] q us(1) show ?thesis
      by (simp add: abs_of_def absF_def fs(1) k' fun_upd_idem)
  qed
qed

lemma Acquire_loop_refines:
  assumes pf: "platform_ok pf" and k: "kinv pf k" and us: "frames k (currentThread k) = us" "user_frames us"
    and off: "getLevel pf (interrupt k) = IntOff" and A: "Lock_Acquire_loop pf m l k = Inr k'"
    and fs: "F = (frames k)(currentThread k := fs)" "fs = us \<or> fs = AcquireF m l # us"
  shows "quiet (absF F k) (abs_of k')"
proof -
  obtain L where L: "locks k m = Some L"
    using A by (cases "locks k m") (auto simp: Lock_Acquire_loop_def)
  have user: "user_frames (frames k (currentThread k))" using us by simp
  have v: "aheld (absF F k) m = Some (held L)" using L by (simp add: abs_fun_apply)
  have at: "afr (absF F k) (acur (absF F k)) = us \<or> afr (absF F k) (acur (absF F k)) = AcquireF m l # us"
    using fs by simp
  show ?thesis
  proof (cases "held L = 0")
    case False
    from Acquire_loop_blocks [OF k user off L False, of l] A us(1) obtain h C where
      k': "k' = k\<lparr>heap := h, frames := (frames k)(currentThread k := SleepF # AcquireF m l # us),
          threads := (threads k)(currentThread k \<mapsto> C\<lparr>status := BLOCKED\<rparr>)\<rparr>"
      and q: "queue k' = (queue k)(LockQ m := queue k (LockQ m) @ [currentThread k])"
      by (auto simp: Let_def)
    from quiet.await [OF at us(2) v False] q show ?thesis
      by (simp add: abs_of_def absF_def fs(1) k')
  next
    case True
    from Acquire_loop_passes [OF pf k user L True, of l] A obtain mm where
      k': "k' = k\<lparr>locks := (locks k)(m \<mapsto> L\<lparr>held := 1\<rparr>),
        history := history k @ [EvAcquire m (currentThread k)], interrupt := mm\<rparr>"
      and q: "queue k' = queue k" by (auto simp: Let_def)
    from quiet.acquire [OF at us(2)] v True q us(1) show ?thesis
      by (simp add: abs_of_def absF_def fs(1) k' fun_upd_idem)
  qed
qed

section \<open>Threads\<close>

lemma code_move:
  "idle_code (frames k (currentThread k)) \<Longrightarrow> user_frames us \<Longrightarrow>
     quiet (abs_of k) (abs_of (k\<lparr>frames := (frames k)(currentThread k := us)\<rparr>))"
  using quiet.code [of "abs_of k" us] by (simp add: abs_of_def absF_def)

lemma user_idle [simp]: "user_frames us \<Longrightarrow> idle_code us"
  by (simp add: idle_code_def)

lemma push_code_move:
  "user_frames (frames k (currentThread k)) \<Longrightarrow> user_frame f \<Longrightarrow>
     quiet (abs_of k) (abs_of (push (currentThread k) f k))"
  unfolding push_def by (rule code_move) simp_all

lemma Yield_refines:
  assumes pf: "platform_ok pf" and k: "kinv pf k" and user: "user_frames (frames k (currentThread k))"
    and Y: "Thread_Yield pf (currentThread k) k = Inr k'"
  shows "abs_of k' = abs_of k \<or> switch (abs_of k) (abs_of k')"
proof (cases "queue k ReadyQ")
  case Nil
  from Yield_alone [OF pf k user Nil] Y show ?thesis by (auto simp: abs_of_def)
next
  case (Cons n q)
  from Yield_switch [OF pf k user Cons] Y obtain C T h m where
    k': "k' = k\<lparr>interrupt := m, heap := h, currentThread := n,
        threads := (threads k)(currentThread k \<mapsto> C\<lparr>status := READY\<rparr>, n \<mapsto> T\<lparr>status := RUNNING\<rparr>),
        frames := (frames k)(currentThread k :=
          RunF # YieldF (getLevel pf (interrupt k)) # frames k (currentThread k))\<rparr>"
    and n: "n \<noteq> currentThread k"
    and q: "queue k' = (queue k)(ReadyQ := q @ [currentThread k])" by (auto simp: Let_def)
  from switch.yield [of "abs_of k" n q "getLevel pf (interrupt k)"] user Cons n q
  show ?thesis by (simp add: abs_of_def absF_def k')
qed

lemma ForkNew_refines:
  assumes pf: "platform_ok pf" and k: "kinv pf k" and user: "user_frames (frames k (currentThread k))"
    and F: "exec_stmt pf (ForkNew nm func arg) k = Inr k'"
  shows "quiet (abs_of k) (abs_of k')"
proof -
  let ?t = "fresh (heap k)"
  from ForkNew_ok [OF pf k user, of nm func arg] F obtain T h m where
    k': "k' = k\<lparr>frames := (frames k)(?t := [RootF]), threads := (threads k)(?t \<mapsto> T),
      heap := h, interrupt := m\<rparr>" and new: "threads k ?t = None" and st: "status T = READY"
    and q: "queue k' = (queue k)(ReadyQ := queue k ReadyQ @ [?t])" by (auto simp: Let_def)
  have "?t \<noteq> NULL" using wfD(1) [of k] k by (auto simp: kinv_def heap_ok_def rep_def)
  with quiet.spawn [of "abs_of k" ?t] user new q st show ?thesis
    by (simp add: abs_of_def absF_def k' abs_fun_apply)
qed

lemma Finish_refines:
  assumes pf: "platform_ok pf" and k: "kinv pf k" and user: "user_frames (frames k (currentThread k))"
    and F: "Thread_Finish pf (currentThread k) k = Inr k'"
  shows "quiet (abs_of k) (abs_of k')"
proof -
  from Finish_ok [OF pf k user] F obtain C m where
    k': "k' = k\<lparr>interrupt := m, threadToBeDestroyed := currentThread k,
      threads := (threads k)(currentThread k \<mapsto> C\<lparr>status := BLOCKED\<rparr>),
      frames := (frames k)(currentThread k := SleepF # frames k (currentThread k))\<rparr>"
    and q: "queue k' = queue k" by (auto simp: Let_def)
  from quiet.finish [of "abs_of k"] user q show ?thesis by (simp add: abs_of_def absF_def k')
qed

lemma run_handlers_refines:
  assumes pf: "platform_ok pf"
  shows "kinvF pf F k \<Longrightarrow> run_handlers pf ss k = Inr k' \<Longrightarrow>
    quiet\<^sup>*\<^sup>* (absF F k) (absF F k') \<and> frames k' = frames k \<and> currentThread k' = currentThread k"
proof (induction ss arbitrary: k)
  case Nil
  then show ?case by simp
next
  case (Cons s ss)
  then obtain k1 where k1: "Semaphore_V pf s k = Inr k1" "run_handlers pf ss k1 = Inr k'"
    by (auto simp: bindE_eq_Inr)
  note v = V_refines [OF pf Cons.prems(1) k1(1)]
  from Cons.IH [OF v(2) k1(2)] v show ?case
    by (auto intro: converse_rtranclp_into_rtranclp)
qed

lemma Sleep_loop_refines:
  assumes pf: "platform_ok pf" and F: "F = (frames k)(currentThread k := SleepF # fs)"
    and k: "kinvF pf F k" and fs: "frames k (currentThread k) = fs" "resumable fs"
    and S: "Sleep_loop pf k = Inr k'"
  shows "moves (absF F k) (abs_of k')"
proof (cases "queue k ReadyQ")
  case (Cons n q)
  from Sleep_dispatch [OF k [unfolded F] fs Cons] S obtain T h where
    k': "k' = k\<lparr>heap := h, currentThread := n, threads := (threads k)(n \<mapsto> T\<lparr>status := RUNNING\<rparr>),
      frames := (frames k)(currentThread k := RunF # fs)\<rparr>"
    and q: "queue k' = (queue k)(ReadyQ := q)" by (auto simp: Let_def)
  from switch.dispatch [of "absF F k" fs n q] Cons q have "switch (absF F k) (abs_of k')"
    by (simp add: abs_of_def absF_def k' F)
  then show ?thesis by (rule moves_switch)
next
  case Nil
  have none: "Scheduler_FindNextToRun k = Inr (NULL, k)"
    using FindNextToRun_none [OF _ Nil] k by (simp add: kinvF_def)
  with S obtain ss m where idle: "Idle pf (interrupt k) = Some (ss, m)"
    by (cases "Idle pf (interrupt k)") (auto simp: Sleep_loop_def)
  from S none idle obtain k1 where k1: "run_handlers pf ss (k\<lparr>interrupt := m\<rparr>) = Inr k1"
    "k' = push (currentThread k1) SleepF k1"
    by (auto simp: Sleep_loop_def bindE_eq_Inr)
  have "in_kernel (F (currentThread k))" by (simp add: F in_kernel_def)
  then have "kinvF pf F (k\<lparr>interrupt := m\<rparr>)"
    using kinvF_level [OF k] kinvF_in_kernel [OF k] platform_okD(5) [OF pf idle] by simp
  from run_handlers_refines [OF pf this k1(1)] have q: "quiet\<^sup>*\<^sup>* (absF F k) (absF F k1)"
    and "frames k1 = frames k" "currentThread k1 = currentThread k" by auto
  then have "abs_of k' = absF F k1" using fs by (simp add: k1(2) push_def abs_of_def F)
  with q show ?thesis by (simp add: moves_quiet)
qed

section \<open>Statements, frames and steps\<close>

lemma kinv_off_abs [simp]: "platform_ok pf \<Longrightarrow> abs_of (snd (set_level pf l k)) = abs_of k"
  by (simp add: set_level_ok abs_of_def)

lemma exec_stmt_refines:
  assumes pf: "platform_ok pf" and k: "kinv pf k" and user: "user_frames (frames k (currentThread k))"
    and S: "exec_stmt pf s k = Inr k'"
  shows "moves (abs_of k) (abs_of k')"
proof (cases s)
  case (Printf str)
  with S show ?thesis by (auto simp: printf_def abs_of_def)
next
  case CurrentYield
  with Yield_refines [OF pf k user] S show ?thesis by (auto intro: moves_switch)
next
  case CurrentFinish
  with Finish_refines [OF pf k user] S show ?thesis by (auto intro: moves_quiet1)
next
  case (ForkNew nm func arg)
  with ForkNew_refines [OF pf k user] S show ?thesis by (auto intro: moves_quiet1 simp del: exec_stmt.simps)
next
  case (NewLocktest1 nm)
  obtain l k1 where new: "new_Lock (CLiteral nm) k = (l, k1)" by fastforce
  with S NewLocktest1 have k': "k' = k1\<lparr>locktest1 := l\<rparr>" by simp
  have wf: "wf k" using k by (simp add: kinv_def)
  note n = wf_new_lock [OF wf new]
  from n(5) obtain h q where k1: "k1 = k\<lparr>heap := h,
    locks := (locks k)(l \<mapsto> \<lparr>lock_name = CLiteral nm, held = 0, lock_queue = q\<rparr>)\<rparr>" by blast
  from quiet.new_lock [of "abs_of k" l] n(2,4) have "quiet (abs_of k) (abs_of k')"
    by (simp add: abs_of_def absF_def k' k1 abs_fun_apply)
  then show ?thesis by (rule moves_quiet1)
next
  case (SemP s)
  let ?k0 = "snd (set_level pf IntOff k)"
  from SemP S have "Semaphore_P_loop pf s (fst (set_level pf IntOff k)) ?k0 = Inr k'"
    by (simp add: Semaphore_P_def case_prod_unfold Let_def)
  from P_loop_refines [OF pf kinv_off(1) [OF pf k user] refl kinv_off(2,3) [OF pf k user] this,
      of "frames ?k0" "frames ?k0 (currentThread ?k0)"]
  show ?thesis using pf by (intro moves_quiet1) (simp add: abs_of_def [of ?k0, symmetric])
next
  case (Acquire r)
  let ?k0 = "snd (set_level pf IntOff k)"
  from Acquire S have "Lock_Acquire_loop pf (lock_ptr r k) (fst (set_level pf IntOff k)) ?k0 = Inr k'"
    by (simp add: Lock_Acquire_def case_prod_unfold Let_def)
  from Acquire_loop_refines [OF pf kinv_off(1) [OF pf k user] refl kinv_off(2,3) [OF pf k user] this,
      of "frames ?k0" "frames ?k0 (currentThread ?k0)"]
  show ?thesis using pf by (intro moves_quiet1) (simp add: abs_of_def [of ?k0, symmetric])
next
  case (SemV s)
  with V_refines [OF pf k [unfolded kinv_kinvF]] S show ?thesis
    by (auto simp: abs_of_def intro: moves_quiet1)
next
  case (Release r)
  with Release_refines [OF pf k [unfolded kinv_kinvF]] S show ?thesis
    by (auto simp: abs_of_def intro: moves_quiet1)
next
  case (ListAppend sl itm)
  have wf: "wf k" using k by (simp add: kinv_def)
  from S ListAppend obtain SL where SL: "synchlists k sl = Some SL"
    by (cases "synchlists k sl") auto
  with queue_append [OF wf, of "SynchQ sl" "sl_list SL" itm] S ListAppend obtain h where
    "k' = k\<lparr>heap := h\<rparr>" "queue k' = (queue k)(SynchQ sl := queue k (SynchQ sl) @ [itm])" by auto
  with quiet.put [of "abs_of k" sl itm] show ?thesis
    by (intro moves_quiet1) (simp add: abs_of_def absF_def)
next
  case (TakeFirst sl)
  from S TakeFirst obtain SL where SL: "synchlists k sl = Some SL"
    by (cases "synchlists k sl") (auto simp: SynchList_take_def)
  from synch_remove [OF k SL] obtain x h where xh: "List_Remove (sl_list SL) (heap k) = Inr (x, h)"
    "case queue k (SynchQ sl) of [] \<Rightarrow> x = NULL \<and> h = heap k
     | y # ys \<Rightarrow> x = y \<and> queue (k\<lparr>heap := h\<rparr>) = (queue k)(SynchQ sl := ys)" by blast
  with S SL TakeFirst have k': "k' = k\<lparr>heap := h, history := history k @ [EvTake sl x]\<rparr>" and "x \<noteq> NULL"
    by (auto simp: SynchList_take_def log_event_def bindE_eq_Inr)
  with xh(2) obtain ys where "queue k (SynchQ sl) = x # ys"
    "queue k' = (queue k)(SynchQ sl := ys)" by (auto split: list.splits)
  with quiet.take [of "abs_of k" sl x ys] show ?thesis
    by (intro moves_quiet1) (simp add: abs_of_def absF_def k')
next
  case (WaitNonEmpty sl)
  with S have "k' = k"
    by (auto simp: SynchList_wait_def Condition_Wait_def bindE_eq_Inr split: if_splits)
  then show ?thesis by simp
qed (use S user in \<open>auto simp: bindE_eq_Inr abs_of_def printf_def Condition_Wait_def
    Condition_Signal_def Condition_Broadcast_def
    intro!: moves_quiet1 push_code_move [unfolded abs_of_def]\<close>)

text \<open>Returning into \<open>Run\<close> after \<open>SWITCH\<close>.\<close>

lemma resume_refines:
  assumes f: "frames k (currentThread k) = RunF # fs" and R: "Scheduler_Run_resume (pop k) = Inr k'"
  shows "quiet (abs_of k) (abs_of k')"
proof (cases "threadToBeDestroyed k = NULL")
  case True
  with R have "k' = pop k" by (simp add: Scheduler_Run_resume_def pop_def)
  with quiet.resume [of "abs_of k" fs] f True show ?thesis
    by (simp add: abs_of_def absF_def pop_def)
next
  case False
  let ?d = "threadToBeDestroyed k"
  from R False have d: "?d \<noteq> currentThread k" and
    k': "k' = k\<lparr>threads := (threads k)(?d := None),
      frames := (frames k)(currentThread k := fs, ?d := []), threadToBeDestroyed := NULL\<rparr>"
    using f by (auto simp: Scheduler_Run_resume_def delete_Thread_def bindE_eq_Inr pop_def)
  from quiet.destroy [of "abs_of k" fs ?d] f False d show ?thesis
    by (simp add: abs_of_def absF_def k')
qed

lemma call_addr_refines:
  assumes pf: "platform_ok pf" and k: "kinv pf k" and user: "user_frames (frames k (currentThread k))"
    and C: "call_addr pf a arg k = Inr k'"
  shows "abs_of k' = abs_of k \<or> quiet (abs_of k) (abs_of k')"
proof -
  consider "a = addr_InterruptEnable pf" | "a \<noteq> addr_InterruptEnable pf" "a = addr_ThreadFinish pf"
    | "a \<noteq> addr_InterruptEnable pf" "a \<noteq> addr_ThreadFinish pf" by blast
  then show ?thesis
  proof cases
    case 1
    with C show ?thesis by (auto simp: call_addr_def abs_of_def)
  next
    case 2
    with C Finish_refines [OF pf k user] show ?thesis by (simp add: call_addr_def)
  next
    case 3
    with C push_code_move [OF user, of "CodeF (program pf a arg)"] show ?thesis
      by (auto simp: call_addr_def)
  qed
qed

lemma step_refines:
  assumes pf: "platform_ok pf" and k: "kinv pf k" and S: "step pf k = Inr k'"
  shows "moves (abs_of k) (abs_of k')"
proof (cases "frames k (currentThread k)")
  case Nil
  with S show ?thesis by (simp add: step_def)
next
  case (Cons f fs)
  let ?c = "currentThread k"
  have wf: "wf k" and inv: "inv pf (queue k) (threads k) (frames k) ?c
      (threadToBeDestroyed k) (getLevel pf (interrupt k))"
    using k by (simp_all add: kinv_def)
  have step: "exec_frame pf f (pop k) = Inr k'" using S Cons by (simp add: step_def)
  have pop: "pop k = k\<lparr>frames := (frames k)(?c := fs)\<rparr>" using Cons by (simp add: pop_def)
  have F: "frames k = (frames (pop k))(currentThread (pop k) := f # fs)"
    using Cons by (simp add: pop fun_upd_idem)
  have absF: "absF (frames k) (pop k) = abs_of k" by (simp add: pop abs_of_def)
  show ?thesis
  proof (cases "f = SleepF")
    case True
    from invD(6) [OF inv] Cons True have res: "resumable fs" by (auto simp: running_def)
    have "kinvF pf (frames k) (pop k)" using k by (simp add: pop kinv_kinvF)
    from Sleep_loop_refines [OF pf F [unfolded True] this _ res] step True show ?thesis
      by (simp add: absF) (simp add: pop)
  next
    case False
    note p = inv_pop [OF inv Cons False]
    have kp: "kinv pf (pop k)" using p(1) wf by (simp add: pop kinv_def)
    show ?thesis
    proof (cases "f = RunF")
      case True
      with resume_refines [of k fs k'] Cons step show ?thesis by (auto intro: moves_quiet1)
    next
      case notRun: False
      have us: "user_frames fs" using p(4) notRun by simp
      have usp: "user_frames (frames (pop k) (currentThread (pop k)))" using us by (simp add: pop)
      have off: "\<not> user_frame f \<Longrightarrow> getLevel pf (interrupt (pop k)) = IntOff" using p(2) by (simp add: pop)
      have code: "quiet (abs_of k) (abs_of (k\<lparr>frames := (frames k)(?c := us')\<rparr>))"
        if "idle_code (f # fs)" "user_frames us'" for us'
        using code_move [of k us'] that Cons by simp
      have fsp: "frames (pop k) (currentThread (pop k)) = fs" by (simp add: pop)
      show ?thesis
      proof (cases f)
        case (SemPF s l)
        with P_loop_refines [OF pf kp fsp us off _ F] step absF show ?thesis
          by (auto intro: moves_quiet1)
      next
        case (AcquireF m l)
        with Acquire_loop_refines [OF pf kp fsp us off _ F] step absF show ?thesis
          by (auto intro: moves_quiet1)
      next
        case (CallF a arg)
        have "quiet (abs_of k) (abs_of (pop k))" unfolding pop
          by (rule code) (use us CallF in simp_all)
        with call_addr_refines [OF pf kp usp, of a arg k'] step CallF show ?thesis
          by (auto intro: quiet_moves moves_quiet1 simp: pop abs_frames)
      next
        case (CodeF ss)
        show ?thesis
        proof (cases ss)
          case Nil
          have "quiet (abs_of k) (abs_of (pop k))" unfolding pop
            by (rule code) (use us CodeF in simp_all)
          with step CodeF Nil show ?thesis by (auto intro: moves_quiet1)
        next
          case (Cons s ss')
          let ?k1 = "push ?c (CodeF ss') (pop k)"
          have "quiet (abs_of k) (abs_of ?k1)" unfolding pop push_def
            using code [of "CodeF ss' # fs"] us CodeF by simp
          moreover have "kinv pf ?k1" "user_frames (frames ?k1 (currentThread ?k1))"
            using kinv_push [OF kp usp, of "CodeF ss'"] by (simp_all add: pop)
          moreover have "exec_stmt pf s ?k1 = Inr k'" using step CodeF Cons by (simp add: pop)
          moreover have "ast (abs_of ?k1) = ast (abs_of k)" by (simp add: pop push_def abs_frames)
          ultimately show ?thesis using exec_stmt_refines [OF pf] by (blast intro: quiet_moves)
        qed
      next
        case (MapcarF func pt)
        with step us show ?thesis
          by (auto simp: pop push_def bindE_eq_Inr split: if_splits intro!: moves_quiet1 code)
      next
        case (MapcarNextF func pt)
        with step us show ?thesis
          by (auto simp: pop push_def bindE_eq_Inr split: if_splits intro!: moves_quiet1 code)
      next
        case (YieldF l)
        have "quiet (abs_of k) (abs_of (pop k))" unfolding pop
          by (rule code) (use us YieldF in \<open>auto simp: idle_code_def\<close>)
        with step YieldF pf show ?thesis by (auto intro: moves_quiet1)
      next
        case RootF
        from invD(6) [OF inv] have "running (frames k ?c)" by blast
        then have nil: "fs = []" using Cons RootF by (auto simp: running_def)
        from step RootF obtain startup pc arg wd where
          "k' = k\<lparr>frames := (frames k)(?c := [CallF startup 0, CallF pc arg, CallF wd 0])\<rparr>"
          by (auto simp: ThreadRoot_def pop bindE_eq_Inr nil)
        with code RootF nil show ?thesis by (auto simp: idle_code_def intro!: moves_quiet1)
      qed (use False notRun in simp_all)
    qed
  qed
qed

lemma user_if_on:
  assumes k: "kinv pf k" and "getLevel pf (interrupt k) = IntOn"
  shows "user_frames (frames k (currentThread k))"
proof -
  have inv: "inv pf (queue k) (threads k) (frames k) (currentThread k)
      (threadToBeDestroyed k) (getLevel pf (interrupt k))" using k by (simp add: kinv_def)
  have "\<not> in_kernel (frames k (currentThread k))" using invD(8) [OF inv] assms(2) by auto
  then show ?thesis using invD(6) [OF inv] running_user by blast
qed

lemma sys_step_refines:
  assumes pf: "platform_ok pf" and k: "kinv pf k" and S: "sys_step pf k k'"
  shows "moves (abs_of k) (abs_of k')"
  using S
proof cases
  case thread_step
  with step_refines [OF pf k] show ?thesis .
next
  case time_slice
  with Yield_refines [OF pf k user_if_on [OF k]] show ?thesis by (auto intro: moves_switch)
next
  case (device s)
  with V_refines [OF pf k [unfolded kinv_kinvF]] show ?thesis
    by (auto simp: abs_of_def intro: moves_quiet1)
qed

end
