(* ===== verification/SpecInv.thy ===== *)
theory SpecInv
  imports KernelRefine
begin

text \<open>
  Invariants of the abstract kernel: where the waiting threads are, that no wakeup is lost,
  mutual exclusion of locks and the counting law of semaphores. By refinement they hold of
  the detailed kernel (\<open>abstract_invariant\<close>).
\<close>

section \<open>Placement\<close>

definition aplace :: "ThreadStatus option \<Rightarrow> frame list \<Rightarrow> owner option" where
  "aplace st fs = (case st of None \<Rightarrow> None
     | Some READY \<Rightarrow> Some ReadyQ | Some BLOCKED \<Rightarrow> waits_for fs | _ \<Rightarrow> None)"

lemma aplace_simps [simp]:
  "aplace None fs = None"
  "aplace (Some READY) fs = Some ReadyQ"
  "aplace (Some BLOCKED) fs = waits_for fs"
  "aplace (Some RUNNING) fs = None"
  "aplace (Some JUST_CREATED) fs = None"
  by (simp_all add: aplace_def)

definition ainv :: "astate \<Rightarrow> bool" where
  "ainv a \<longleftrightarrow>
     (\<forall>ow. thread_queue ow \<longrightarrow>
        distinct (aq a ow) \<and> (\<forall>t \<in> set (aq a ow). aplace (ast a t) (afr a t) = Some ow)) \<and>
     (asleep (afr a (acur a)) \<or> ast a (acur a) = Some RUNNING) \<and>
     (adst a \<noteq> NULL \<longrightarrow> ast a (adst a) = Some BLOCKED \<and> waits_for (afr a (adst a)) = None)"

lemma ainvD:
  assumes "ainv a"
  shows "thread_queue ow \<Longrightarrow> distinct (aq a ow)"
    and "thread_queue ow \<Longrightarrow> t \<in> set (aq a ow) \<Longrightarrow> aplace (ast a t) (afr a t) = Some ow"
    and "\<not> asleep (afr a (acur a)) \<Longrightarrow> ast a (acur a) = Some RUNNING"
    and "adst a \<noteq> NULL \<Longrightarrow> ast a (adst a) = Some BLOCKED"
    and "adst a \<noteq> NULL \<Longrightarrow> waits_for (afr a (adst a)) = None"
  using assms unfolding ainv_def by blast+

lemma ainvI:
  assumes "\<And>ow. thread_queue ow \<Longrightarrow> distinct (aq a ow)"
    and "\<And>ow t. thread_queue ow \<Longrightarrow> t \<in> set (aq a ow) \<Longrightarrow> aplace (ast a t) (afr a t) = Some ow"
    and "\<not> asleep (afr a (acur a)) \<Longrightarrow> ast a (acur a) = Some RUNNING"
    and "adst a \<noteq> NULL \<Longrightarrow> ast a (adst a) = Some BLOCKED \<and> waits_for (afr a (adst a)) = None"
  shows "ainv a"
  using assms unfolding ainv_def by blast

lemma kinv_ainv: "kinv pf k \<Longrightarrow> ainv (abs_of k)"
  unfolding kinv_def
proof (elim conjE)
  assume inv: "inv pf (queue k) (threads k) (frames k) (currentThread k) (threadToBeDestroyed k)
    (getLevel pf (interrupt k))"
  have pl: "aplace (statuses (threads k) t) fs = place (threads k t) fs" for t fs
    by (simp add: place_def aplace_def abs_fun_apply split: option.splits)
  show "ainv (abs_of k)"
  proof (rule ainvI)
    show "thread_queue ow \<Longrightarrow> distinct (aq (abs_of k) ow)" for ow
      using invD(1) [OF inv] by (simp add: abs_of_def)
    show "thread_queue ow \<Longrightarrow> t \<in> set (aq (abs_of k) ow) \<Longrightarrow>
        aplace (ast (abs_of k) t) (afr (abs_of k) t) = Some ow" for ow t
      using invD(2) [OF inv] by (simp add: abs_of_def pl)
    show "\<not> asleep (afr (abs_of k) (acur (abs_of k))) \<Longrightarrow> ast (abs_of k) (acur (abs_of k)) = Some RUNNING"
      using invD(6) [OF inv] by (auto simp: abs_of_def abs_fun_apply)
    show "adst (abs_of k) \<noteq> NULL \<Longrightarrow> ast (abs_of k) (adst (abs_of k)) = Some BLOCKED \<and>
        waits_for (afr (abs_of k) (adst (abs_of k))) = None"
      using invD(7) [OF inv] by (auto simp: abs_of_def abs_fun_apply)
  qed
qed

lemma idle_code_simps:
  assumes "idle_code fs"
  shows "\<not> asleep fs" and "waits_for fs = None"
  using assms by (auto simp: idle_code_def user_not_asleep user_waits_for)

lemma running_frames:
  assumes I: "ainv a" and "\<not> asleep (afr a (acur a))"
  shows "ainv (a\<lparr>afr := (afr a)(acur a := us)\<rparr>)"
  using ainvD(3) [OF assms(1,2)] ainvD [OF I]
  by (intro ainvI) (auto dest: ainvD(2) [OF I])

text \<open>The running thread blocks, on the queue its frames wait for, or for good (\<open>Finish\<close>).\<close>

lemma block_ainv:
  assumes I: "ainv a" and run: "\<not> asleep (afr a (acur a))"
    and Q: "\<And>ow. thread_queue ow \<Longrightarrow>
      Q ow = (if waits_for fs = Some ow then aq a ow @ [acur a] else aq a ow)"
    and dst: "d = adst a \<or> d = acur a \<and> waits_for fs = None"
  shows "ainv (a\<lparr>aq := Q, ast := (ast a)(acur a \<mapsto> BLOCKED), afr := (afr a)(acur a := SleepF # fs), adst := d\<rparr>)"
proof (rule ainvI, goal_cases)
  case (1 ow)
  have "acur a \<notin> set (aq a ow)" using ainvD(2) [OF I 1, of "acur a"] ainvD(3) [OF I run] by auto
  then show ?case using ainvD(1) [OF I 1] Q [OF 1] by simp
next
  case (2 ow t)
  have "acur a \<notin> set (aq a ow)" using ainvD(2) [OF I 2(1), of "acur a"] ainvD(3) [OF I run] by auto
  then show ?case using 2 Q [OF 2(1)] ainvD(2) [OF I 2(1), of t] by (auto split: if_splits)
next
  case 3
  then show ?case by simp
next
  case 4
  then show ?case using dst ainvD(3) [OF I run] ainvD(4,5) [OF I] by auto
qed

text \<open>The first waiter of a queue becomes ready.\<close>

lemma wake_ainv:
  assumes I: "ainv a" and Q: "aq a ow = t # q" and ow: "thread_queue ow" "ow \<noteq> ReadyQ"
  shows "ainv (a\<lparr>aq := (aq a)(ow := q, ReadyQ := aq a ReadyQ @ [t]), ast := (ast a)(t \<mapsto> READY)\<rparr>)"
    and "ast a t = Some BLOCKED" and "waits_for (afr a t) = Some ow"
proof -
  have p: "aplace (ast a t) (afr a t) = Some ow" using ainvD(2) [OF I ow(1), of t] Q by simp
  then show t: "ast a t = Some BLOCKED" "waits_for (afr a t) = Some ow"
    using ow(2) by (auto simp: aplace_def split: option.splits ThreadStatus.splits)
  have only: "t \<notin> set (aq a o')" if "thread_queue o'" "o' \<noteq> ow" for o'
    using ainvD(2) [OF I that(1), of t] p that(2) by auto
  have dist: "distinct (t # q)" using ainvD(1) [OF I ow(1)] Q by simp
  show "ainv (a\<lparr>aq := (aq a)(ow := q, ReadyQ := aq a ReadyQ @ [t]), ast := (ast a)(t \<mapsto> READY)\<rparr>)"
  proof (rule ainvI, goal_cases)
    case (1 o')
    then show ?case using ainvD(1) [OF I 1] only [OF 1] dist ow by auto
  next
    case (2 o' u)
    then show ?case using ainvD(2) [OF I 2(1), of u] ainvD(2) [OF I ow(1), of u] only [OF 2(1)] dist ow Q
      by (auto split: if_splits)
  next
    case 3
    then show ?case using ainvD(3) [OF I] t by auto
  next
    case 4
    then show ?case using ainvD(4,5) [OF I] t by auto
  qed
qed

lemma ainv_ignores [simp]:
  "ainv (a\<lparr>ahist := es\<rparr>) = ainv a"
  "ainv (a\<lparr>asem := sv\<rparr>) = ainv a"
  "ainv (a\<lparr>aheld := lv\<rparr>) = ainv a"
  "ainv (a\<lparr>aq := (aq a)(SynchQ sl := xs)\<rparr>) = ainv a"
proof -
  show "ainv (a\<lparr>ahist := es\<rparr>) = ainv a" "ainv (a\<lparr>asem := sv\<rparr>) = ainv a" "ainv (a\<lparr>aheld := lv\<rparr>) = ainv a"
    by (simp_all add: ainv_def)
  have "((aq a)(SynchQ sl := xs)) ow = aq a ow" if "thread_queue ow" for ow using that by auto
  then show "ainv (a\<lparr>aq := (aq a)(SynchQ sl := xs)\<rparr>) = ainv a" unfolding ainv_def by (simp cong: conj_cong)
qed

lemma trying_not_asleep:
  "fs = us \<or> fs = SemPF s l # us \<Longrightarrow> user_frames us \<Longrightarrow> \<not> asleep fs"
  "fs = us \<or> fs = AcquireF m l # us \<Longrightarrow> user_frames us \<Longrightarrow> \<not> asleep fs"
  by (auto simp: user_not_asleep)

lemma destroy_ainv:
  assumes I: "ainv a" and "adst a \<noteq> NULL" and "\<not> asleep (afr a (acur a))"
  shows "ainv (a\<lparr>afr := (afr a)(adst a := []), ast := (ast a)(adst a := None), adst := NULL\<rparr>)"
  using assms ainvD [OF I] by (intro ainvI) (auto dest: ainvD(2) [OF I])

lemma spawn_ainv:
  assumes I: "ainv a" and new: "ast a t = None" and run: "\<not> asleep (afr a (acur a))"
  shows "ainv (a\<lparr>aq := (aq a)(ReadyQ := aq a ReadyQ @ [t]), ast := (ast a)(t \<mapsto> READY),
      afr := (afr a)(t := [RootF])\<rparr>)"
proof (rule ainvI, goal_cases)
  case (1 ow)
  then show ?case using ainvD(1) [OF I 1] ainvD(2) [OF I 1, of t] new by auto
next
  case (2 ow u)
  then show ?case using ainvD(2) [OF I 2(1), of u] new by (auto split: if_splits)
next
  case 3
  then show ?case using ainvD(3) [OF I run] new by auto
next
  case 4
  then show ?case using ainvD(4,5) [OF I] new by auto
qed

lemma quiet_ainv: "quiet a b \<Longrightarrow> ainv a \<Longrightarrow> ainv b"
proof (induction rule: quiet.induct)
  case (code a us)
  then show ?case by (intro running_frames) (simp_all add: idle_code_simps)
next
  case (resume a fs)
  then show ?case by (intro running_frames) simp_all
next
  case (destroy a fs d)
  let ?a = "a\<lparr>afr := (afr a)(acur a := fs)\<rparr>"
  have "ast a (acur a) = Some RUNNING" using ainvD(3) [OF destroy.prems] destroy.hyps by simp
  then show ?case using destroy ainvD(1,2,4,5) [OF destroy.prems]
    by (intro ainvI) (auto dest: ainvD(2) [OF destroy.prems])
next
  case (spawn a t)
  then show ?case by (intro spawn_ainv) (simp_all add: user_not_asleep)
next
  case (finish a)
  from block_ainv [OF finish.prems, of "aq a" "afr a (acur a)" "acur a"] finish.hyps
  show ?case by (simp add: user_not_asleep user_waits_for)
next
  case (pass a us s l v)
  from running_frames [OF pass.prems, of us] trying_not_asleep(1) [OF pass.hyps(1,2)]
  show ?case by simp
next
  case (wait a us s l)
  from block_ainv [OF wait.prems, of "(aq a)(SemQ s := aq a (SemQ s) @ [acur a])" "SemPF s l # us" "adst a"]
    trying_not_asleep(1) [OF wait.hyps(1,2)]
  show ?case by simp
next
  case (acquire a us m l)
  from running_frames [OF acquire.prems, of us] trying_not_asleep(2) [OF acquire.hyps(1,2)]
  show ?case by simp
next
  case (await a us m l v)
  from block_ainv [OF await.prems, of "(aq a)(LockQ m := aq a (LockQ m) @ [acur a])" "AcquireF m l # us" "adst a"]
    trying_not_asleep(2) [OF await.hyps(1,2)]
  show ?case by simp
next
  case (signal_wake a s v t q)
  from wake_ainv(1) [OF signal_wake.prems signal_wake.hyps(2)] show ?case by simp
next
  case (release_wake a m v t q)
  from wake_ainv(1) [OF release_wake.prems release_wake.hyps(2)] show ?case by simp
qed simp_all

lemma switch_ainv: "switch a b \<Longrightarrow> ainv a \<Longrightarrow> ainv b"
proof (induction rule: switch.induct)
  case (dispatch a fs n q)
  note I = dispatch.prems
  have n: "ast a n = Some READY"
    using ainvD(2) [OF I, of ReadyQ n] dispatch.hyps(2)
    by (auto simp: aplace_def dest: waits_for_queue split: option.splits ThreadStatus.splits)
  have dist: "distinct (n # q)" using ainvD(1) [OF I, of ReadyQ] dispatch.hyps(2) by simp
  have w: "waits_for (((afr a)(acur a := RunF # fs)) u) = waits_for (afr a u)" for u
    using dispatch.hyps(1) by simp
  then have pl: "aplace st (((afr a)(acur a := RunF # fs)) u) = aplace st (afr a u)" for st u
    by (simp only: aplace_def)
  show ?case
  proof (rule ainvI, goal_cases)
    case (1 ow)
    then show ?case using ainvD(1) [OF I 1] dist by simp
  next
    case (2 ow u)
    then have "u \<in> set (aq a ow)" "u \<noteq> n"
      using dispatch.hyps(2) dist ainvD(2) [OF I 2(1), of n] n by (auto split: if_splits)
    with ainvD(2) [OF I 2(1), of u] show ?case using pl [of "ast a u" u] by auto
  next
    case 4
    then show ?case using ainvD(4,5) [OF I] n w by auto
  qed simp
next
  case (yield a n q l)
  note I = yield.prems
  have n: "ast a n = Some READY"
    using ainvD(2) [OF I, of ReadyQ n] yield.hyps(2)
    by (auto simp: aplace_def dest: waits_for_queue split: option.splits ThreadStatus.splits)
  have c: "ast a (acur a) = Some RUNNING"
    using ainvD(3) [OF I] yield.hyps(1) by (simp add: user_not_asleep)
  have "distinct (n # q)" using ainvD(1) [OF I, of ReadyQ] yield.hyps(2) by simp
  moreover have "acur a \<notin> set (aq a ow)" if "thread_queue ow" for ow
    using ainvD(2) [OF I that, of "acur a"] c by auto
  ultimately show ?case using ainvD(1,4,5) [OF I] ainvD(2) [OF I, of ReadyQ] n c yield.hyps
    by (intro ainvI) (auto split: if_splits dest: ainvD(2) [OF I])
qed

end
