(* ===== verification/SpecWakeup.thy ===== *)
theory SpecWakeup
  imports SpecSync
begin

text \<open>
  No lost wakeups. A thread is \<open>woken\<close> when it was taken off the queue of a semaphore or lock
  and has not tested it again. While threads wait for a semaphore, its value is at most the
  number of woken threads; while threads wait for a free lock, some thread is woken.
\<close>

section \<open>Woken threads\<close>

definition woken :: "owner \<Rightarrow> astate \<Rightarrow> ptr set" where
  "woken ow a = {t. (\<exists>st. ast a t = Some st \<and> st \<noteq> BLOCKED) \<and> waits_for (afr a t) = Some ow}"

fun testing :: "owner \<Rightarrow> frame list \<Rightarrow> bool" where
  "testing (SemQ s) (SemPF s' l # us) = (s = s')"
| "testing (LockQ m) (AcquireF m' l # us) = (m = m')"
| "testing ow fs = False"

lemma woken_quiet:
  "quiet a b \<Longrightarrow> ainv a \<Longrightarrow> t \<in> woken ow a \<Longrightarrow>
     t \<in> woken ow b \<or> t = acur a \<and> testing ow (afr a t)"
proof (induction rule: quiet.induct)
  case (destroy a fs d)
  then show ?case using ainvD(4) [OF destroy.prems(1)] by (auto simp: woken_def)
qed (auto simp: woken_def idle_code_simps user_waits_for)

lemma woken_switch: "switch a b \<Longrightarrow> t \<in> woken ow a \<Longrightarrow> t \<in> woken ow b"
  by (induction rule: switch.induct) (auto simp: woken_def user_waits_for)

definition few_threads :: "astate \<Rightarrow> bool" where
  "few_threads a \<longleftrightarrow> finite {t. ast a t \<noteq> None}"

lemma few_upd:
  assumes "few_threads a" and "\<And>u. u \<noteq> t \<Longrightarrow> u \<noteq> t' \<Longrightarrow> ast b u = ast a u"
  shows "few_threads b"
proof -
  have "{u. ast b u \<noteq> None} \<subseteq> insert t (insert t' {u. ast a u \<noteq> None})" using assms(2) by auto
  then show ?thesis using assms(1) unfolding few_threads_def by (simp add: finite_subset)
qed

lemma few_quiet: "quiet a b \<Longrightarrow> few_threads a \<Longrightarrow> few_threads b"
  by (induction rule: quiet.induct) (erule few_upd; auto)+

lemma few_switch: "switch a b \<Longrightarrow> few_threads a \<Longrightarrow> few_threads b"
  by (induction rule: switch.induct) (erule few_upd; auto)+

lemma finite_woken: "few_threads a \<Longrightarrow> finite (woken ow a)"
  unfolding few_threads_def woken_def by (rule finite_subset [rotated]) auto

section \<open>Semaphores\<close>

definition sem_awake :: "ptr \<Rightarrow> astate \<Rightarrow> bool" where
  "sem_awake s a \<longleftrightarrow> few_threads a \<and>
     (\<forall>v. aq a (SemQ s) \<noteq> [] \<longrightarrow> asem a s = Some v \<longrightarrow> unat v \<le> card (woken (SemQ s) a))"

lemma sem_awake_mono:
  assumes "sem_awake s a" and "few_threads b" and "woken (SemQ s) a \<subseteq> woken (SemQ s) b"
    and "aq b (SemQ s) = aq a (SemQ s)" and "asem b s = asem a s"
  shows "sem_awake s b"
  using assms card_mono [OF finite_woken [OF assms(2)] assms(3)]
  by (fastforce simp: sem_awake_def intro: le_trans)

lemma sem_awake_quiet:
  assumes q: "quiet a b" and I: "ainv a" and A: "sem_awake s a"
  shows "sem_awake s b"
proof -
  have few: "few_threads b" using few_quiet [OF q] A by (simp add: sem_awake_def)
  have other: ?thesis if "\<not> testing (SemQ s) (afr a (acur a))" "aq b (SemQ s) = aq a (SemQ s)" "asem b s = asem a s"
    using sem_awake_mono [OF A few] woken_quiet [OF q I, of _ "SemQ s"] that by blast
  show ?thesis using q
  proof cases
    case (pass us s' l v)
    show ?thesis
    proof (cases "s' = s")
      case True
      have "woken (SemQ s) a - {acur a} \<subseteq> woken (SemQ s) b"
        using woken_quiet [OF q I, of _ "SemQ s"] by blast
      then have "card (woken (SemQ s) a) - 1 \<le> card (woken (SemQ s) b)"
        using card_mono [OF finite_woken [OF few]] by (metis card_Diff_singleton_if diff_le_self le_trans)
      moreover have "unat (v - 1) = unat v - 1" using pass by (simp add: unat_minus_one)
      ultimately show ?thesis using A few pass True by (fastforce simp: sem_awake_def)
    next
      case False
      with pass show ?thesis by (intro other) (auto simp: user_frame.simps elim: testing.elims)
    qed
  next
    case (wait us s' l)
    then show ?thesis
    proof (cases "s' = s")
      case False
      with wait show ?thesis by (intro other) (auto elim: testing.elims)
    qed (use few in \<open>simp add: sem_awake_def\<close>)
  next
    case (signal s' v)
    show ?thesis
    proof (cases "s' = s")
      case True
      then show ?thesis using signal few by (simp add: sem_awake_def)
    next
      case False
      have "woken (SemQ s) a = woken (SemQ s) b" using signal by (simp add: woken_def)
      with sem_awake_mono [OF A few] False signal show ?thesis by simp
    qed
  next
    case (signal_wake s' v t q')
    note t = wake_ainv(2,3) [OF I signal_wake(3)]
    have mono: "insert t (woken (SemQ s') a) \<subseteq> woken (SemQ s') b" "woken ow a \<subseteq> woken ow b" for ow
      using signal_wake t by (auto simp: woken_def)
    show ?thesis
    proof (cases "s' = s")
      case True
      have "t \<notin> woken (SemQ s') a" using t by (simp add: woken_def)
      then have "Suc (card (woken (SemQ s) a)) \<le> card (woken (SemQ s) b)"
        using card_mono [OF finite_woken [OF few] mono(1)] finite_woken [of a "SemQ s"] A True
        by (simp add: sem_awake_def)
      moreover have "unat (v + 1) \<le> Suc (unat v)" by (simp add: unat_word_ariths)
      ultimately show ?thesis using A few signal_wake True by (fastforce simp: sem_awake_def)
    next
      case False
      with sem_awake_mono [OF A few mono(2)] signal_wake show ?thesis by simp
    qed
  next
    case (release m v)
    have "woken (SemQ s) a = woken (SemQ s) b" using release by (simp add: woken_def)
    with sem_awake_mono [OF A few] release show ?thesis by simp
  next
    case (release_wake m v t q')
    have "woken (SemQ s) a \<subseteq> woken (SemQ s) b" using release_wake by (auto simp: woken_def)
    with sem_awake_mono [OF A few] release_wake show ?thesis by simp
  next
    case (new_lock m)
    have "woken (SemQ s) a = woken (SemQ s) b" using new_lock by (simp add: woken_def)
    with sem_awake_mono [OF A few] new_lock show ?thesis by simp
  next
    case (put sl x)
    have "woken (SemQ s) a = woken (SemQ s) b" using put by (simp add: woken_def)
    with sem_awake_mono [OF A few] put show ?thesis by simp
  next
    case (take sl x xs)
    have "woken (SemQ s) a = woken (SemQ s) b" using take by (simp add: woken_def)
    with sem_awake_mono [OF A few] take show ?thesis by simp
  qed (intro other; auto simp: idle_code_def elim: testing.elims)+
qed

lemma sem_awake_switch:
  assumes sw: "switch a b" and A: "sem_awake s a"
  shows "sem_awake s b"
proof -
  have "few_threads b" using few_switch [OF sw] A by (simp add: sem_awake_def)
  moreover have "woken (SemQ s) a \<subseteq> woken (SemQ s) b" using woken_switch [OF sw] by blast
  moreover have "aq b (SemQ s) = aq a (SemQ s)" "asem b s = asem a s" using sw by (cases; simp)+
  ultimately show ?thesis using sem_awake_mono [OF A] by blast
qed

interpretation sem_wakeup: spec_invariant "sem_awake s" for s
  by unfold_locales (auto intro: sem_awake_quiet sem_awake_switch)

section \<open>Locks\<close>

definition lock_awake :: "ptr \<Rightarrow> astate \<Rightarrow> bool" where
  "lock_awake m a \<longleftrightarrow>
     (aq a (LockQ m) \<noteq> [] \<longrightarrow> aheld a m = Some 0 \<longrightarrow> woken (LockQ m) a \<noteq> {})"

lemma lock_awake_mono:
  assumes "lock_awake m a" and "woken (LockQ m) a \<subseteq> woken (LockQ m) b"
    and "aq b (LockQ m) \<noteq> [] \<longrightarrow> aheld b m = Some 0 \<longrightarrow> aq a (LockQ m) \<noteq> [] \<and> aheld a m = Some 0"
  shows "lock_awake m b"
  using assms unfolding lock_awake_def by blast

lemma lock_awake_quiet:
  assumes q: "quiet a b" and I: "ainv a" and A: "lock_awake m a"
    and free: "aheld a m = None \<Longrightarrow> aq a (LockQ m) = []"
  shows "lock_awake m b"
proof -
  have other: ?thesis if "\<not> testing (LockQ m) (afr a (acur a))"
    "aq b (LockQ m) = aq a (LockQ m)" "aheld b m = aheld a m"
  proof (rule lock_awake_mono [OF A])
    show "woken (LockQ m) a \<subseteq> woken (LockQ m) b"
      using woken_quiet [OF q I, of _ "LockQ m"] that(1) by blast
  qed (simp add: that)
  show ?thesis using q
  proof cases
    case (acquire us m' l)
    show ?thesis
    proof (cases "m' = m")
      case True
      then show ?thesis using acquire by (simp add: lock_awake_def)
    next
      case False
      with acquire show ?thesis by (intro other) (auto elim: testing.elims)
    qed
  next
    case (await us m' l v)
    show ?thesis
    proof (cases "m' = m")
      case True
      then show ?thesis using await by (simp add: lock_awake_def)
    next
      case False
      with await show ?thesis by (intro other) (auto elim: testing.elims)
    qed
  next
    case (release m' v)
    have "woken (LockQ m) a = woken (LockQ m) b" using release by (simp add: woken_def)
    with lock_awake_mono [OF A] release show ?thesis by (simp add: lock_awake_def)
  next
    case (release_wake m' v t q')
    note t = wake_ainv(2,3) [OF I release_wake(3)]
    show ?thesis
    proof (cases "m' = m")
      case True
      have "t \<in> woken (LockQ m) b" using release_wake t True by (auto simp: woken_def)
      then show ?thesis by (auto simp: lock_awake_def)
    next
      case False
      have "woken (LockQ m) a \<subseteq> woken (LockQ m) b" using release_wake by (auto simp: woken_def)
      with lock_awake_mono [OF A] release_wake False show ?thesis by simp
    qed
  next
    case (signal s v)
    have "woken (LockQ m) a = woken (LockQ m) b" using signal by (simp add: woken_def)
    with lock_awake_mono [OF A] signal show ?thesis by simp
  next
    case (signal_wake s v t q')
    have "woken (LockQ m) a \<subseteq> woken (LockQ m) b" using signal_wake by (auto simp: woken_def)
    with lock_awake_mono [OF A] signal_wake show ?thesis by simp
  next
    case (new_lock m')
    have "woken (LockQ m) a = woken (LockQ m) b" using new_lock by (simp add: woken_def)
    with lock_awake_mono [OF A] new_lock free show ?thesis by (auto simp: lock_awake_def)
  next
    case (put sl x)
    have "woken (LockQ m) a = woken (LockQ m) b" using put by (simp add: woken_def)
    with lock_awake_mono [OF A] put show ?thesis by simp
  next
    case (take sl x xs)
    have "woken (LockQ m) a = woken (LockQ m) b" using take by (simp add: woken_def)
    with lock_awake_mono [OF A] take show ?thesis by simp
  next
    case (pass us s l v)
    then show ?thesis by (intro other) (auto elim: testing.elims)
  next
    case (wait us s l)
    then show ?thesis by (intro other) (auto elim: testing.elims)
  qed (intro other; auto simp: idle_code_def elim: testing.elims)+
qed

lemma lock_awake_switch:
  assumes sw: "switch a b" and A: "lock_awake m a"
  shows "lock_awake m b"
proof -
  have "woken (LockQ m) a \<subseteq> woken (LockQ m) b" using woken_switch [OF sw] by blast
  moreover have "aq b (LockQ m) = aq a (LockQ m)" "aheld b m = aheld a m" using sw by (cases; simp)+
  ultimately show ?thesis using lock_awake_mono [OF A] by simp
qed

text \<open>A lock that does not exist has no waiters; needed for the locks created later.\<close>

definition lock_wakeup :: "ptr \<Rightarrow> astate \<Rightarrow> bool" where
  "lock_wakeup m a \<longleftrightarrow> lock_awake m a \<and> (aheld a m = None \<longrightarrow> aq a (LockQ m) = [])"

lemma no_lock_no_waiters:
  "quiet a b \<Longrightarrow> (aheld a m = None \<longrightarrow> aq a (LockQ m) = []) \<Longrightarrow> aheld b m = None \<longrightarrow> aq b (LockQ m) = []"
  by (induction rule: quiet.induct) auto

lemma no_lock_no_waiters_switch:
  "switch a b \<Longrightarrow> (aheld a m = None \<longrightarrow> aq a (LockQ m) = []) \<Longrightarrow> aheld b m = None \<longrightarrow> aq b (LockQ m) = []"
  by (induction rule: switch.induct) auto

lemma lock_wakeup_quiet: "quiet a b \<Longrightarrow> ainv a \<Longrightarrow> lock_wakeup m a \<Longrightarrow> lock_wakeup m b"
  using lock_awake_quiet [of a b m] no_lock_no_waiters [of a b m] by (simp add: lock_wakeup_def)

lemma lock_wakeup_switch: "switch a b \<Longrightarrow> lock_wakeup m a \<Longrightarrow> lock_wakeup m b"
  using lock_awake_switch [of a b m] no_lock_no_waiters_switch [of a b m] by (simp add: lock_wakeup_def)

interpretation lock_wakeups: spec_invariant "lock_wakeup m" for m
  by unfold_locales (auto intro: lock_wakeup_quiet lock_wakeup_switch)

end
