(* ===== verification/SpecFifo.thy ===== *)
theory SpecFifo
  imports SpecInv
begin

text \<open>
  Scheduling order. Over any execution, the threads dispatched so far followed by the ready
  queue are the old ready queue followed by the threads made ready since: first come, first
  served, with no thread overtaken.
\<close>

section \<open>Moves\<close>

lemma quiet_ready:
  "quiet a b \<Longrightarrow> \<exists>new. aq b ReadyQ = aq a ReadyQ @ new"
  by (induction rule: quiet.induct) auto

lemma quiet_current: "quiet a b \<Longrightarrow> acur b = acur a"
  by (induction rule: quiet.induct) auto

lemma quiet_status: "quiet a b \<Longrightarrow> ast b t = Some RUNNING \<Longrightarrow> ast a t = Some RUNNING"
  by (induction rule: quiet.induct) (auto split: if_splits)

lemma quiets_ready:
  assumes "quiet\<^sup>*\<^sup>* a b"
  shows "acur b = acur a" and "ast b t = Some RUNNING \<Longrightarrow> ast a t = Some RUNNING"
    and "\<exists>new. aq b ReadyQ = aq a ReadyQ @ new"
proof -
  have "acur b = acur a \<and> (ast b t = Some RUNNING \<longrightarrow> ast a t = Some RUNNING) \<and>
      (\<exists>new. aq b ReadyQ = aq a ReadyQ @ new)"
    using assms
    by (induction rule: rtranclp_induct) (auto simp: quiet_current dest: quiet_ready quiet_status)
  then show "acur b = acur a" "ast b t = Some RUNNING \<Longrightarrow> ast a t = Some RUNNING"
    "\<exists>new. aq b ReadyQ = aq a ReadyQ @ new" by blast+
qed

lemma quiets_ainv: "quiet\<^sup>*\<^sup>* a b \<Longrightarrow> ainv a \<Longrightarrow> ainv b"
  by (induction rule: rtranclp_induct) (auto intro: quiet_ainv)

lemma switch_ready:
  assumes "switch a b" and I: "ainv a"
  shows "\<exists>q new. aq a ReadyQ = acur b # q \<and> aq b ReadyQ = q @ new \<and>
    ast a (acur b) = Some READY \<and> ast b (acur b) = Some RUNNING"
proof -
  have "ast a n = Some READY" if "aq a ReadyQ = n # q" for n q
    using ainvD(2) [OF I, of ReadyQ n] that
    by (auto simp: aplace_def dest: waits_for_queue split: option.splits ThreadStatus.splits)
  note ready = this
  show ?thesis using assms(1) by cases (use ready in auto)
qed

section \<open>Executions\<close>

text \<open>The thread a step dispatched, if it did: it runs now and did not before.\<close>

definition is_running :: "'m kernel \<Rightarrow> ptr \<Rightarrow> bool" where
  "is_running k t = (case threads k t of None \<Rightarrow> False | Some T \<Rightarrow> status T = RUNNING)"

definition dispatched :: "'m kernel \<Rightarrow> 'm kernel \<Rightarrow> ptr list" where
  "dispatched k k' =
     (if \<not> is_running k (currentThread k') \<and> is_running k' (currentThread k')
      then [currentThread k'] else [])"

lemma is_running_abs: "is_running k t \<longleftrightarrow> ast (abs_of k) t = Some RUNNING"
  by (simp add: is_running_def abs_of_def abs_fun_apply split: option.splits)

lemma moves_fifo:
  assumes "moves (abs_of k) (abs_of k')" and I: "ainv (abs_of k)"
  shows "\<exists>new. dispatched k k' @ queue k' ReadyQ = queue k ReadyQ @ new"
proof -
  consider "quiet\<^sup>*\<^sup>* (abs_of k) (abs_of k')" |
    b where "quiet\<^sup>*\<^sup>* (abs_of k) b" "ast b = ast (abs_of k)" "switch b (abs_of k')"
    using assms(1) by (auto simp: moves_def)
  then show ?thesis
  proof cases
    case 1
    note q = quiets_ready [OF 1]
    have "dispatched k k' = []"
      using q(2) by (auto simp: dispatched_def is_running_abs)
    with q(3) show ?thesis by (simp add: abs_of_def)
  next
    case (2 b)
    from quiets_ready(3) [OF 2(1)] obtain new where new: "aq b ReadyQ = queue k ReadyQ @ new"
      by (auto simp: abs_of_def)
    from switch_ready [OF 2(3) quiets_ainv [OF 2(1) I]] obtain ns new' where
      s: "aq b ReadyQ = currentThread k' # ns" "queue k' ReadyQ = ns @ new'"
      "ast b (currentThread k') = Some READY" "ast (abs_of k') (currentThread k') = Some RUNNING"
      by (auto simp: abs_of_def)
    then have "dispatched k k' = [currentThread k']"
      using 2(2) by (simp add: dispatched_def is_running_abs)
    moreover have "currentThread k' # ns = queue k ReadyQ @ new" using s(1) new by simp
    ultimately have "dispatched k k' @ queue k' ReadyQ = queue k ReadyQ @ new @ new'"
      using s(2) by (metis append.assoc append_Cons append_Nil)
    then show ?thesis by blast
  qed
qed

fun execution :: "'m platform \<Rightarrow> 'm kernel list \<Rightarrow> bool" where
  "execution pf (k # k' # ks) = (sys_step pf k k' \<and> execution pf (k' # ks))"
| "execution pf ks = True"

fun dispatches :: "'m kernel list \<Rightarrow> ptr list" where
  "dispatches (k # k' # ks) = dispatched k k' @ dispatches (k' # ks)"
| "dispatches ks = []"

lemma execution_fifo:
  assumes pf: "platform_ok pf"
  shows "kinv pf k \<Longrightarrow> execution pf (k # ks) \<Longrightarrow>
    \<exists>new. dispatches (k # ks) @ queue (last (k # ks)) ReadyQ = queue k ReadyQ @ new"
proof (induction ks arbitrary: k)
  case Nil
  then show ?case by simp
next
  case (Cons k' ks)
  then have step: "sys_step pf k k'" by simp
  have k': "kinv pf k'" by (rule sys_step_kinv [OF pf Cons.prems(1) step])
  from moves_fifo [OF sys_step_refines [OF pf Cons.prems(1) step] kinv_ainv [OF Cons.prems(1)]]
  obtain new where "dispatched k k' @ queue k' ReadyQ = queue k ReadyQ @ new" by blast
  moreover from Cons.IH [OF k'] Cons.prems(2) obtain new' where
    "dispatches (k' # ks) @ queue (last (k' # ks)) ReadyQ = queue k' ReadyQ @ new'" by auto
  ultimately have "dispatches (k # k' # ks) @ queue (last (k # k' # ks)) ReadyQ =
      queue k ReadyQ @ new @ new'" by (metis append.assoc dispatches.simps(1) last_ConsR list.discI)
  then show ?case by blast
qed

end
