(* ===== verification/Utility.thy ===== *)
theory Utility
  imports Prelude "HOL-Library.Signed_Division"
begin

text \<open>
  \<open>utility.h\<close> and \<open>utility.cc\<close>: the arithmetic macros and the debugging flags. C's integer
  division truncates towards zero, which is \<open>sdiv\<close> and \<open>smod\<close> here.
\<close>

section \<open>Macros of utility.h\<close>

definition c_min :: "int \<Rightarrow> int \<Rightarrow> int" where
  "c_min a b = (if a < b then a else b)"

definition c_max :: "int \<Rightarrow> int \<Rightarrow> int" where
  "c_max a b = (if a > b then a else b)"

definition divRoundDown :: "int \<Rightarrow> int \<Rightarrow> int" where
  "divRoundDown n s = n sdiv s"

definition divRoundUp :: "int \<Rightarrow> int \<Rightarrow> int" where
  "divRoundUp n s = n sdiv s + (if n smod s > 0 then 1 else 0)"

section \<open>Debugging flags\<close>

text \<open>
  \<open>strchr s c != 0\<close>: the terminating \<open>NUL\<close> is part of the string for \<open>strchr\<close>.
\<close>

definition strchr_found :: "string \<Rightarrow> char \<Rightarrow> bool" where
  "strchr_found s c \<longleftrightarrow> c \<in> set s \<or> c = CHR 0x00"

text \<open>The static variable \<open>enableFlags\<close>; \<open>None\<close> is \<open>NULL\<close>.\<close>

type_synonym debug_flags = "string option"

definition DebugInit :: "string option \<Rightarrow> debug_flags \<Rightarrow> debug_flags" where
  "DebugInit flagList enableFlags = flagList"

definition DebugIsEnabled :: "char \<Rightarrow> debug_flags \<Rightarrow> bool" where
  "DebugIsEnabled flag enableFlags =
     (case enableFlags of
        Some fl \<Rightarrow> strchr_found fl flag \<or> strchr_found fl (CHR ''+'')
      | None \<Rightarrow> False)"

text \<open>\<open>msg\<close> is the formatted message (\<open>vfprintf\<close>); the result is what is printed.\<close>

definition DEBUG :: "char \<Rightarrow> string \<Rightarrow> debug_flags \<Rightarrow> string list" where
  "DEBUG flag msg enableFlags = (if DebugIsEnabled flag enableFlags then [msg] else [])"

section \<open>Rounding\<close>

lemma sdiv_smod_pos:
  fixes n s :: int
  assumes "0 < s"
  shows "n sdiv s = (if 0 \<le> n then n div s else - ((- n) div s))"
    and "n smod s = (if 0 \<le> n then n mod s else - ((- n) mod s))"
  using assms by (auto simp: signed_divide_int_def signed_modulo_int_def sgn_if)

lemma divRoundUp_bounds:
  assumes s: "0 < s"
  shows "(divRoundUp n s - 1) * s < n" and "n \<le> divRoundUp n s * s"
proof -
  define q r where "q = (if 0 \<le> n then n div s else - ((- n) div s))"
    and "r = (if 0 \<le> n then n mod s else - ((- n) mod s))"
  have n: "n = q * s + r"
    using div_mult_mod_eq [of n s] div_mult_mod_eq [of "- n" s]
    unfolding q_def r_def mult_minus_left by (simp only: split: if_split) linarith
  have r: "- s < r" "r < s"
    using pos_mod_bound [OF s, of n] pos_mod_bound [OF s, of "- n"]
      pos_mod_sign [OF s, of n] pos_mod_sign [OF s, of "- n"] s
    unfolding r_def by (cases "0 \<le> n"; simp only: if_True if_False; linarith)+
  have up: "divRoundUp n s = q + (if r > 0 then 1 else 0)"
    by (simp add: divRoundUp_def sdiv_smod_pos [OF s] q_def r_def)
  show "(divRoundUp n s - 1) * s < n" and "n \<le> divRoundUp n s * s"
    using r n unfolding up by (auto simp: algebra_simps)
qed

end
