(* ===== verification/Boot.thy ===== *)
theory Boot
  imports ThreadTest SpecWakeup SpecFifo Utility
begin

text \<open>
  Starting and stopping: \<open>system.cc\<close> (\<open>Initialize\<close>, \<open>Cleanup\<close>, the timer handler), the
  constructor and destructor of \<open>Scheduler\<close>, and \<open>main.cc\<close>, for the build with \<open>-DTHREADS\<close>
  only. The state that \<open>main\<close> starts in satisfies the kernel's invariant.
\<close>

section \<open>atoi\<close>

definition is_space :: "char \<Rightarrow> bool" where
  "is_space c \<longleftrightarrow> c \<in> {CHR '' '', CHR 0x09, CHR 0x0A, CHR 0x0B, CHR 0x0C, CHR 0x0D}"

definition is_digit :: "char \<Rightarrow> bool" where
  "is_digit c \<longleftrightarrow> 48 \<le> (of_char c :: int) \<and> (of_char c :: int) \<le> 57"

fun digits_value :: "int \<Rightarrow> string \<Rightarrow> int" where
  "digits_value acc [] = acc"
| "digits_value acc (c # cs) =
     (if is_digit c then digits_value (acc * 10 + (of_char c - 48)) cs else acc)"

definition atoi :: "string \<Rightarrow> int" where
  "atoi s = (case dropWhile is_space s of
       [] \<Rightarrow> 0
     | c # cs \<Rightarrow>
         if c = CHR ''-'' then - digits_value 0 cs
         else if c = CHR ''+'' then digits_value 0 cs
         else digits_value 0 (c # cs))"

section \<open>Command line of Initialize\<close>

text \<open>\<open>seeds\<close>: the calls of \<open>RandomInit\<close> (\<open>sysdep\<close>), in order.\<close>

record options =
  debugArgs :: string
  randomYield :: bool
  seeds :: "int list"

definition default_options :: options where
  "default_options = \<lparr>debugArgs = '''', randomYield = False, seeds = []\<rparr>"

fun Initialize_args :: "string list \<Rightarrow> options \<Rightarrow> options result" where
  "Initialize_args [] opt = Inr opt"
| "Initialize_args (arg # argv) opt =
     (if arg = ''-d'' then
        (case argv of
           [] \<Rightarrow> Inr (opt\<lparr>debugArgs := ''+''\<rparr>)
         | d # argv \<Rightarrow> Initialize_args argv (opt\<lparr>debugArgs := d\<rparr>))
      else if arg = ''-rs'' then
        (case argv of
           [] \<Rightarrow> Inl (AssertionFailed ''system.cc'' 105)
         | n # argv \<Rightarrow> Initialize_args argv
             (opt\<lparr>seeds := seeds opt @ [atoi n], randomYield := True\<rparr>))
      else Initialize_args argv opt)"

section \<open>Kernel state\<close>

text \<open>Before \<open>Initialize\<close>: globals are zero, nothing is allocated.\<close>

definition kernel0 :: "'m \<Rightarrow> 'm kernel" where
  "kernel0 m =
     \<lparr>heap = empty_heap, threads = Map.empty, frames = (\<lambda>_. []), semaphores = Map.empty,
      locks = Map.empty, synchlists = Map.empty, currentThread = NULL, threadToBeDestroyed = NULL,
      readyList = NULL, interrupt = m, locktest1 = NULL, printed = [], history = []\<rparr>"

definition new_Scheduler :: "'m kernel \<Rightarrow> 'm kernel" where
  "new_Scheduler k =
     (let (scheduler, h) = alloc (heap k);
          (q, h) = new_List h
      in k\<lparr>heap := h, readyList := q\<rparr>)"

definition delete_Scheduler :: "'m kernel \<Rightarrow> 'm kernel result option" where
  "delete_Scheduler k =
     (case delete_List (readyList k) (heap k) of
        None \<Rightarrow> None
      | Some (Inl e) \<Rightarrow> Some (Inl e)
      | Some (Inr h) \<Rightarrow> Some (Inr (k\<lparr>heap := h\<rparr>)))"

text \<open>
  \<open>m\<close> is the hardware after \<open>new Interrupt\<close> and, if \<open>randomYield\<close>, \<open>new Timer\<close>. The result
  also has the debugging flags.
\<close>

definition Initialize ::
    "'m platform \<Rightarrow> (options \<Rightarrow> 'm) \<Rightarrow> string list \<Rightarrow> (debug_flags \<times> 'm kernel) result" where
  "Initialize pf hardware argv =
     bindE (Initialize_args (tl argv) default_options) (\<lambda>opt.
     let enableFlags = DebugInit (Some (debugArgs opt)) None;
         k = new_Scheduler (kernel0 (hardware opt));
         k = k\<lparr>threadToBeDestroyed := NULL\<rparr>;
         (t, k) = new_Thread ''main'' k;
         k = k\<lparr>currentThread := t\<rparr>
     in bindE (setStatus (currentThread k) RUNNING k) (\<lambda>k.
        Inr (enableFlags, k\<lparr>interrupt := Enable pf (interrupt k)\<rparr>)))"

text \<open>
  The handler of the timer: \<open>idle\<close> is \<open>interrupt->getStatus() == IdleMode\<close>, and the second
  argument is \<open>interrupt->YieldOnReturn()\<close>.
\<close>

definition TimerInterruptHandler :: "('m \<Rightarrow> bool) \<Rightarrow> ('m \<Rightarrow> 'm) \<Rightarrow> 'm \<Rightarrow> 'm" where
  "TimerInterruptHandler idle YieldOnReturn m = (if \<not> idle m then YieldOnReturn m else m)"

text \<open>\<open>Cleanup\<close>, up to \<open>Exit(0)\<close>; deleting the timer and the interrupt object is \<open>release\<close>.\<close>

definition Cleanup :: "('m \<Rightarrow> 'm) \<Rightarrow> 'm kernel \<Rightarrow> 'm kernel result option" where
  "Cleanup release k =
     (let k = printf (newline @ ''Cleaning up...'' @ newline) k
      in case delete_Scheduler k of
           None \<Rightarrow> None
         | Some (Inl e) \<Rightarrow> Some (Inl e)
         | Some (Inr k) \<Rightarrow> Some (Inr (k\<lparr>interrupt := release (interrupt k)\<rparr>)))"

section \<open>main\<close>

text \<open>
  The first loop over the arguments. \<open>argv[0][1]\<close> is the terminating \<open>NUL\<close> for a one
  character argument and past the end for an empty one; \<open>argv[1]\<close> of the last argument is
  \<open>NULL\<close>, which \<open>atoi\<close> dereferences.
\<close>

definition second_char :: "string \<Rightarrow> char result" where
  "second_char s = (case s of [] \<Rightarrow> Inl (BadIndex 1) | [c] \<Rightarrow> Inr (CHR 0x00) | c # d # _ \<Rightarrow> Inr d)"

fun main_args :: "string list \<Rightarrow> int \<Rightarrow> int result" where
  "main_args [] testnum = Inr testnum"
| "main_args (arg # argv) testnum =
     bindE (second_char arg) (\<lambda>c.
     if c = CHR ''q'' then
       (case argv of
          [] \<Rightarrow> Inl (BadPointer NULL)
        | n # argv \<Rightarrow> main_args argv (atoi n))
     else main_args argv 1)"

definition copyright :: string where
  "copyright = ''Copyright (c) 1992-1993 The Regents of the University of California.  All rights reserved.''"

text \<open>
  The second loop, from the values of \<open>argc\<close> and \<open>argv\<close> the first one leaves. The test of
  \<open>argc\<close> is at the head.
\<close>

fun main_options :: "int \<Rightarrow> string list \<Rightarrow> stmt list" where
  "main_options argc [] = []"
| "main_options argc (arg # argv) =
     (if argc > 0 then
        (if arg = ''-z'' then [Printf copyright] else []) @ main_options (argc - 1) argv
      else [])"

text \<open>What the main thread runs after \<open>Initialize\<close>; \<open>argc\<close> is 0 after the first loop.\<close>

definition main_code :: "int \<Rightarrow> word32 \<Rightarrow> word32 \<Rightarrow> word32 \<Rightarrow> stmt list" where
  "main_code testnum aS a1 a2 =
     ThreadTest testnum aS a1 a2 @ main_options (0 - 1) [] @ [CurrentFinish]"

definition main ::
    "'m platform \<Rightarrow> (options \<Rightarrow> 'm) \<Rightarrow> word32 \<Rightarrow> word32 \<Rightarrow> word32 \<Rightarrow> string list \<Rightarrow> 'm kernel result" where
  "main pf hardware aS a1 a2 argv =
     bindE (Initialize pf hardware argv) (\<lambda>(enableFlags, k).
     bindE (main_args (tl argv) 1) (\<lambda>testnum.
     Inr (k\<lparr>frames := (frames k)(currentThread k := [CodeF (main_code testnum aS a1 a2)])\<rparr>)))"

section \<open>The first state\<close>

text \<open>The scheduler, its list and the main thread are the objects 1, 2 and 3.\<close>

definition first_heap :: lheap where
  "first_heap = \<lparr>elems = Map.empty, listobjs = [2 \<mapsto> \<lparr>list_first = NULL, list_last = NULL\<rparr>], fresh = 4\<rparr>"

definition first_thread :: Thread where
  "first_thread = \<lparr>stackTop = None, machineState = Map.empty, stack = None, status = RUNNING,
     thread_name = ''main''\<rparr>"

lemma new_Scheduler_state:
  "new_Scheduler (kernel0 m) = (kernel0 m)\<lparr>heap := first_heap\<lparr>fresh := 3\<rparr>, readyList := 2\<rparr>"
  by (simp add: new_Scheduler_def kernel0_def empty_heap_def alloc_def new_List_def first_heap_def
      eval_nat_numeral)

lemma main_state:
  assumes "main pf hardware aS a1 a2 argv = Inr k"
  shows "\<exists>opt testnum. Initialize_args (tl argv) default_options = Inr opt \<and>
    main_args (tl argv) 1 = Inr testnum \<and>
    k = (kernel0 (Enable pf (hardware opt)))\<lparr>heap := first_heap, threads := [3 \<mapsto> first_thread],
      frames := (\<lambda>_. [])(3 := [CodeF (main_code testnum aS a1 a2)]), currentThread := 3, readyList := 2\<rparr>"
  using assms
  by (auto simp: main_def Initialize_def bindE_eq_Inr new_Scheduler_state alloc_def
      new_Thread_def setStatus_def Let_def)
     (simp_all add: kernel0_def first_heap_def first_thread_def fun_upd_def)

lemma first_heap_ok: "heap_ok first_heap" and first_lists: "lists_of first_heap = [2 \<mapsto> []]"
proof -
  have rep: "rep first_heap (\<lambda>_. [])"
    by (simp add: rep_def first_heap_def list_at_def)
  then show "heap_ok first_heap" by (rule rep_heap_ok)
  show "lists_of first_heap = [2 \<mapsto> []]"
    using rep_nodes [OF rep]
    by (auto simp: lists_of_def live_list_def entries_def first_heap_def fun_eq_iff)
qed

lemma main_kinv:
  assumes pf: "platform_ok pf" and main: "main pf hardware aS a1 a2 argv = Inr k"
  shows "kinv pf k" and "semaphores k = Map.empty" and "locks k = Map.empty" and "history k = []"
    and "\<And>ow. queue k ow = []" and "printed k = []"
proof -
  from main_state [OF main] obtain opt testnum where
    k: "k = (kernel0 (Enable pf (hardware opt)))\<lparr>heap := first_heap, threads := [3 \<mapsto> first_thread],
      frames := (\<lambda>_. [])(3 := [CodeF (main_code testnum aS a1 a2)]), currentThread := 3, readyList := 2\<rparr>"
    by blast
  show "semaphores k = Map.empty" "locks k = Map.empty" "history k = []" "printed k = []"
    by (simp_all add: k kernel0_def)
  have qo: "queue_of k ow = (if ow = ReadyQ then Some 2 else None)" for ow
    by (cases ow) (simp_all add: k kernel0_def)
  have h: "heap k = first_heap" by (simp add: k)
  show q: "queue k ow = []" for ow by (simp add: queue_def qo h first_lists)
  have "wf k"
    by (rule wfI) (auto simp: qo h first_heap_ok first_lists split: if_splits;
      simp add: k first_heap_def split: if_splits)+
  moreover have "inv pf (queue k) (threads k) (frames k) (currentThread k) (threadToBeDestroyed k)
      (getLevel pf (interrupt k))"
  proof -
    have f: "threads k = [3 \<mapsto> first_thread]" "frames k = (\<lambda>_. [])(3 := [CodeF (main_code testnum aS a1 a2)])"
      "currentThread k = 3" "threadToBeDestroyed k = NULL" by (simp_all add: k kernel0_def)
    show ?thesis unfolding f
      by (rule invI) (auto simp: q place_def first_thread_def thread_ok_def running_def
          in_kernel_def split: option.splits if_splits)
  qed
  ultimately show "kinv pf k" by (simp add: kinv_def)
qed

end
