(* ===== verification/Example.thy ===== *)
theory Example
  imports Boot
begin

text \<open>
  A concrete machine: interrupt level only, no devices (\<open>Idle\<close> finds nothing pending). It
  meets the assumptions on the platform, and the test programs run on it.
\<close>

definition plain_machine :: "IntStatus platform" where
  "plain_machine = \<lparr>host = HOST_i386, SetLevel = (\<lambda>l m. (m, l)), getLevel = (\<lambda>m. m),
     Enable = (\<lambda>m. IntOn), Idle = (\<lambda>m. None), AllocBoundedArray = (\<lambda>n m. (Map.empty, m)),
     addr_ThreadRoot = 1, addr_InterruptEnable = 2, addr_ThreadFinish = 3,
     program = test_program 10 11 12\<rparr>"

lemma plain_machine_ok: "platform_ok plain_machine"
  by (simp add: platform_ok_def plain_machine_def)

text \<open>\<open>nachos\<close> (the ping-pong test) and \<open>nachos -q 2\<close> (the lock test).\<close>

definition start :: "int \<Rightarrow> IntStatus kernel" where
  "start testnum = (kernel0 IntOn)\<lparr>heap := first_heap, threads := [3 \<mapsto> first_thread],
      frames := (\<lambda>_. [])(3 := [CodeF (main_code testnum 10 11 12)]), currentThread := 3, readyList := 2\<rparr>"

lemma start_main:
  "main plain_machine (\<lambda>_. IntOff) 10 11 12 [''nachos''] = Inr (start 1)"
  "main plain_machine (\<lambda>_. IntOff) 10 11 12 [''nachos'', ''-q'', ''2''] = Inr (start 2)"
proof -
  have arg: "main_args [''-q'', ''2''] 1 = Inr 2"
    by (simp add: second_char_def atoi_def is_space_def is_digit_def)
  show "main plain_machine (\<lambda>_. IntOff) 10 11 12 [''nachos''] = Inr (start 1)"
    "main plain_machine (\<lambda>_. IntOff) 10 11 12 [''nachos'', ''-q'', ''2''] = Inr (start 2)"
    using arg
    by (simp_all add: main_def Initialize_def new_Scheduler_state alloc_def new_Thread_def
        setStatus_def default_options_def plain_machine_def)
       (simp_all add: start_def kernel0_def first_heap_def first_thread_def fun_upd_def)
qed

lemmas start_kinv = main_kinv [OF plain_machine_ok start_main(1)] main_kinv [OF plain_machine_ok start_main(2)]

text \<open>Running the machine gives reachable states.\<close>

lemma run_reachable: "run pf n k = (k', None) \<Longrightarrow> reachable pf k k'"
proof (induction n arbitrary: k)
  case 0
  then show ?case by (simp add: reach_init)
next
  case (Suc n)
  then obtain k1 where k1: "step pf k = Inr k1" "reachable pf k1 k'" by (auto split: sum.splits)
  from k1(2) show ?case
  proof (induction rule: reachable.induct)
    case reach_init
    show ?case using k1(1) by (blast intro: reachable.intros sys_step.intros)
  next
    case (reach_step k2 k3)
    then show ?case by (blast intro: reachable.reach_step)
  qed
qed

lemma run_step: "step pf k = Inr k1 \<Longrightarrow> run pf (Suc n) k = run pf n k1"
  by simp

section \<open>One thread with a lock and a semaphore\<close>

text \<open>
  Thread 3 runs the statements \<open>ss\<close>; lock 4, semaphore 6 (value \<open>v\<close>) and synchronized list 8
  (with lock 4) are free and empty.
\<close>

definition solo_heap :: lheap where
  "solo_heap = \<lparr>elems = Map.empty,
     listobjs = (\<lambda>l. if l \<in> {2, 5, 7, 9} then Some \<lparr>list_first = NULL, list_last = NULL\<rparr> else None),
     fresh = 10\<rparr>"

definition solo :: "word32 \<Rightarrow> stmt list \<Rightarrow> IntStatus kernel" where
  "solo v ss = \<lparr>heap = solo_heap, threads = [3 \<mapsto> first_thread], frames = (\<lambda>_. [])(3 := [CodeF ss]),
     semaphores = [6 \<mapsto> \<lparr>sem_name = ''s'', sem_value = v, sem_queue = 7\<rparr>],
     locks = [4 \<mapsto> \<lparr>lock_name = CLiteral ''l'', held = 0, lock_queue = 5\<rparr>],
     synchlists = [8 \<mapsto> \<lparr>sl_list = 9, sl_lock = 4, sl_listEmpty = 1\<rparr>], currentThread = 3,
     threadToBeDestroyed = NULL, readyList = 2, interrupt = IntOn, locktest1 = NULL, printed = [],
     history = []\<rparr>"

lemma solo_heap_ok: "heap_ok solo_heap"
  and solo_lists: "lists_of solo_heap = (\<lambda>l. if l \<in> {2, 5, 7, 9} then Some [] else None)"
proof -
  have rep: "rep solo_heap (\<lambda>_. [])"
    by (auto simp: rep_def solo_heap_def list_at_def split: if_splits)
  then show "heap_ok solo_heap" by (rule rep_heap_ok)
  show "lists_of solo_heap = (\<lambda>l. if l \<in> {2, 5, 7, 9} then Some [] else None)"
    using rep_nodes [OF rep]
    by (auto simp: lists_of_def live_list_def entries_def solo_heap_def fun_eq_iff)
qed

lemma solo_kinv:
  shows "kinv plain_machine (solo v ss)" and "queue (solo v ss) ow = []"
proof -
  have qo: "queue_of (solo v ss) ow = (case ow of ReadyQ \<Rightarrow> Some 2
      | LockQ l \<Rightarrow> if l = 4 then Some 5 else None | SemQ s \<Rightarrow> if s = 6 then Some 7 else None
      | SynchQ l \<Rightarrow> if l = 8 then Some 9 else None)" for ow
    by (cases ow) (simp_all add: solo_def)
  have h: "heap (solo v ss) = solo_heap" by (simp add: solo_def)
  show q: "queue (solo v ss) ow = []" for ow
    by (auto simp: queue_def qo h solo_lists split: option.splits owner.splits if_splits)
  have th: "threads (solo v ss) t \<noteq> None \<Longrightarrow> t = 3" for t by (simp add: solo_def split: if_splits)
  have "wf (solo v ss)"
  proof (rule wfI)
    show "heap_ok (heap (solo v ss))" by (simp add: h solo_heap_ok)
    show "\<And>ow q. queue_of (solo v ss) ow = Some q \<Longrightarrow> lists_of (heap (solo v ss)) q \<noteq> None"
      by (auto simp: qo h solo_lists split: owner.splits if_splits)
    show "\<And>ow ow' q. queue_of (solo v ss) ow = Some q \<Longrightarrow> queue_of (solo v ss) ow' = Some q \<Longrightarrow> ow = ow'"
      by (auto simp: qo split: owner.splits if_splits)
    show "\<And>ow. queue_of (solo v ss) ow \<noteq> None \<Longrightarrow> owner_at ow < fresh (heap (solo v ss))"
      by (auto simp: qo h solo_heap_def split: owner.splits if_splits)
    show "\<And>t. threads (solo v ss) t \<noteq> None \<Longrightarrow> t \<noteq> NULL \<and> t < fresh (heap (solo v ss))"
      using th by (fastforce simp: h solo_heap_def)
  qed
  moreover have "inv plain_machine (queue (solo v ss)) (threads (solo v ss)) (frames (solo v ss))
      (currentThread (solo v ss)) (threadToBeDestroyed (solo v ss)) (getLevel plain_machine (interrupt (solo v ss)))"
  proof -
    have f: "threads (solo v ss) = [3 \<mapsto> first_thread]" "frames (solo v ss) = (\<lambda>_. [])(3 := [CodeF ss])"
      "currentThread (solo v ss) = 3" "threadToBeDestroyed (solo v ss) = NULL" by (simp_all add: solo_def)
    show ?thesis unfolding f
      by (rule invI) (auto simp: q place_def first_thread_def thread_ok_def running_def
          in_kernel_def split: option.splits if_splits)
  qed
  ultimately show "kinv plain_machine (solo v ss)" by (simp add: kinv_def)
qed

lemma solo_simps [simp]:
  "currentThread (solo v ss) = 3" "user_frames (frames (solo v ss) 3)"
  "semaphores (solo v ss) 6 = Some \<lparr>sem_name = ''s'', sem_value = v, sem_queue = 7\<rparr>"
  "locks (solo v ss) 4 = Some \<lparr>lock_name = CLiteral ''l'', held = 0, lock_queue = 5\<rparr>"
  "synchlists (solo v ss) 8 = Some \<lparr>sl_list = 9, sl_lock = 4, sl_listEmpty = 1\<rparr>"
  by (simp_all add: solo_def)

lemmas solo_queue = solo_kinv(2)

lemma solo_step: "step plain_machine (solo v (s # ss)) = exec_stmt plain_machine s (solo v ss)"
  by (simp add: step_def solo_def pop_def push_def)

lemma step_reachable: "step pf k = Inr k' \<Longrightarrow> reachable pf k k'"
  by (blast intro: reachable.intros sys_step.intros)

declare plain_machine_def [run_simps] solo_def [run_simps] solo_heap_def [run_simps]
  first_thread_def [run_simps]

lemma solo_lock_run:
  "\<exists>k. reachable plain_machine
      (solo v [Acquire (LockAt 4), Release (LockAt 4), Acquire (LockAt 4)]) k \<and>
    history k = [EvAcquire 4 3, EvRelease 4 3, EvAcquire 4 3]"
proof -
  have "\<exists>k. run plain_machine 3 (solo v [Acquire (LockAt 4), Release (LockAt 4), Acquire (LockAt 4)]) =
      (k, None) \<and> history k = [EvAcquire 4 3, EvRelease 4 3, EvAcquire 4 3]"
    by (simp add: run_simps numeral_3_eq_3)
  then show ?thesis by (blast intro: run_reachable)
qed

lemma solo_sem_run:
  "\<exists>k S. reachable plain_machine (solo 1 [SemP 6, SemV 6, SemP 6]) k \<and>
    history k = [EvP 6 3, EvV 6, EvP 6 3] \<and> semaphores k 6 = Some S \<and> sem_value S = 0"
proof -
  have "\<exists>k S. run plain_machine 3 (solo 1 [SemP 6, SemV 6, SemP 6]) = (k, None) \<and>
      history k = [EvP 6 3, EvV 6, EvP 6 3] \<and> semaphores k 6 = Some S \<and> sem_value S = 0"
    by (simp add: run_simps numeral_3_eq_3)
  then show ?thesis by (blast intro: run_reachable)
qed

text \<open>A thread that waits for a semaphore nobody signals: it is asleep and the machine halts.\<close>

lemma solo_wait_run:
  "\<exists>k. reachable plain_machine (solo 0 [SemP 6]) k \<and> step plain_machine k = Inl Halted \<and>
    (\<exists>T. threads k 3 = Some T \<and> status T = BLOCKED) \<and> waits_for (frames k 3) = Some (SemQ 6)"
proof -
  have "\<exists>k. run plain_machine 1 (solo 0 [SemP 6]) = (k, None) \<and> step plain_machine k = Inl Halted \<and>
    (\<exists>T. threads k 3 = Some T \<and> status T = BLOCKED) \<and> waits_for (frames k 3) = Some (SemQ 6)"
    by (simp add: run_simps List_Append_def set_first_def set_last_def Thread_Sleep_def setStatus_def
        Sleep_loop_def Scheduler_FindNextToRun_def)
  then show ?thesis by (blast intro: run_reachable)
qed

end
