(* ===== verification/KernelProps.thy ===== *)
theory KernelProps
  imports Example
begin

text \<open>
  What the invariants and the refinement give for every state the machine can reach, stated
  over the model of the code.
\<close>

section \<open>Consequences of the invariant\<close>

definition no_locks_held :: "'m kernel \<Rightarrow> bool" where
  "no_locks_held k \<longleftrightarrow> (\<forall>l L. locks k l = Some L \<longrightarrow> held L = 0)"

definition nobody_waits :: "'m kernel \<Rightarrow> bool" where
  "nobody_waits k \<longleftrightarrow> (\<forall>ow. thread_queue ow \<longrightarrow> queue k ow = [])"

lemma kinv_placement:
  assumes k: "kinv pf k"
  shows "distinct (queue k ReadyQ)"
    and "t \<in> set (queue k ReadyQ) \<longleftrightarrow> (\<exists>T. threads k t = Some T \<and> status T = READY)"
    and "threads k t = Some T \<Longrightarrow> status T = RUNNING \<Longrightarrow> t = currentThread k"
    and "\<exists>C. threads k (currentThread k) = Some C \<and>
      (status C = RUNNING \<or> asleep (frames k (currentThread k)))"
proof -
  have inv: "inv pf (queue k) (threads k) (frames k) (currentThread k)
      (threadToBeDestroyed k) (getLevel pf (interrupt k))" using k by (simp add: kinv_def)
  show "distinct (queue k ReadyQ)" using invD(1) [OF inv, of ReadyQ] by simp
  show "t \<in> set (queue k ReadyQ) \<longleftrightarrow> (\<exists>T. threads k t = Some T \<and> status T = READY)"
    using invD(2) [OF inv, of ReadyQ t]
    by (auto simp: place_def dest: waits_for_queue split: option.splits ThreadStatus.splits)
  show "threads k t = Some T \<Longrightarrow> status T = RUNNING \<Longrightarrow> t = currentThread k"
    using invD(5) [OF inv, of t T] by blast
  show "\<exists>C. threads k (currentThread k) = Some C \<and>
      (status C = RUNNING \<or> asleep (frames k (currentThread k)))"
    using invD(6) [OF inv] by blast
qed

lemma kinv_waiting:
  assumes k: "kinv pf k" and ow: "thread_queue ow" "ow \<noteq> ReadyQ"
  shows "distinct (queue k ow)"
    and "t \<in> set (queue k ow) \<longleftrightarrow>
      (\<exists>T. threads k t = Some T \<and> status T = BLOCKED \<and> waits_for (frames k t) = Some ow)"
proof -
  have inv: "inv pf (queue k) (threads k) (frames k) (currentThread k)
      (threadToBeDestroyed k) (getLevel pf (interrupt k))" using k by (simp add: kinv_def)
  show "distinct (queue k ow)" using invD(1) [OF inv ow(1)] .
  show "t \<in> set (queue k ow) \<longleftrightarrow>
      (\<exists>T. threads k t = Some T \<and> status T = BLOCKED \<and> waits_for (frames k t) = Some ow)"
    using invD(2) [OF inv ow(1), of t] ow(2)
    by (auto simp: place_def split: option.splits ThreadStatus.splits)
qed

lemma kinv_not_queued:
  assumes "kinv pf k" and "threads k t = None" and "thread_queue ow"
  shows "t \<notin> set (queue k ow)"
proof (cases "ow = ReadyQ")
  case True
  then show ?thesis using kinv_placement(2) [OF assms(1)] assms(2) by simp
next
  case False
  then show ?thesis using kinv_waiting(2) [OF assms(1,3)] assms(2) by simp
qed

lemma reachable_locks:
  assumes "platform_ok pf" and "kinv pf k0" and "history k0 = []" and "no_locks_held k0"
    and "reachable pf k0 k"
  shows "locks_agree (abs_of k)"
proof (rule locking.reach [OF assms(1,2) _ assms(5)])
  show "locks_agree (abs_of k0)"
    using assms(3,4)
    by (auto simp: locks_agree_def abs_of_def exclusive_def no_locks_held_def abs_fun_apply)
qed

lemma reachable_counts:
  assumes "platform_ok pf" and "kinv pf k0" and "history k0 = []" and "semaphores k0 s = Some S0"
    and "reachable pf k0 k"
  shows "counts s (sem_value S0) (abs_of k)"
proof (rule counting.reach [OF assms(1,2) _ assms(5)])
  show "counts s (sem_value S0) (abs_of k0)"
    using assms(3,4) by (simp add: counts_def abs_of_def abs_fun_apply balance_start)
qed

lemma kinv_few: "kinv pf k \<Longrightarrow> few_threads (abs_of k)"
proof -
  assume "kinv pf k"
  then have wf: "wf k" by (simp add: kinv_def)
  have "{t. ast (abs_of k) t \<noteq> None} \<subseteq> {..<fresh (heap k)}"
    using wfD(5) [OF wf] by (auto simp: abs_of_def abs_fun_apply)
  then show ?thesis unfolding few_threads_def by (rule finite_subset) simp
qed

lemma reachable_wakeups:
  assumes "platform_ok pf" and "kinv pf k0" and "nobody_waits k0" and "reachable pf k0 k"
  shows "sem_awake s (abs_of k)" and "lock_wakeup l (abs_of k)"
proof -
  show "sem_awake s (abs_of k)"
  proof (rule sem_wakeup.reach [OF assms(1,2) _ assms(4)])
    show "sem_awake s (abs_of k0)"
      using assms(3) kinv_few [OF assms(2)] by (simp add: sem_awake_def nobody_waits_def abs_of_def)
  qed
  show "lock_wakeup l (abs_of k)"
  proof (rule lock_wakeups.reach [OF assms(1,2) _ assms(4)])
    show "lock_wakeup l (abs_of k0)"
      using assms(3) by (simp add: lock_wakeup_def lock_awake_def nobody_waits_def abs_of_def)
  qed
qed

text \<open>When the machine halts, nobody is ready or running.\<close>

lemma halting_blocked:
  assumes k: "kinv pf k" and h: "halting pf k" and t: "threads k t = Some T"
  shows "status T = BLOCKED"
proof -
  have inv: "inv pf (queue k) (threads k) (frames k) (currentThread k)
      (threadToBeDestroyed k) (getLevel pf (interrupt k))" using k by (simp add: kinv_def)
  have "status T \<noteq> READY" using kinv_placement(2) [OF k, of t] t h by (auto simp: halting_def)
  moreover have "status T \<noteq> RUNNING"
    using invD(5) [OF inv t] invD(6) [OF inv] t h by (cases "t = currentThread k") (auto simp: halting_def)
  moreover have "status T \<noteq> JUST_CREATED" using invD(3) [OF inv t] by (simp add: thread_ok_def)
  ultimately show ?thesis by (cases "status T") simp_all
qed

lemma halting_not_woken: "kinv pf k \<Longrightarrow> halting pf k \<Longrightarrow> woken ow (abs_of k) = {}"
  using halting_blocked by (fastforce simp: woken_def abs_of_def abs_fun_apply)

lemma main_start:
  assumes "platform_ok pf" and "main pf hardware aS a1 a2 argv = Inr k0"
  shows "no_locks_held k0" and "nobody_waits k0"
  using main_kinv [OF assms] by (simp_all add: no_locks_held_def nobody_waits_def)

end
