(* ===== verification/TestRuns.thy ===== *)
theory TestRuns
  imports Boot
begin

text \<open>
  Running the test programs on any machine without timer interrupts: what is printed, and that
  the machine then halts. \<open>view\<close> is what the running thread sees; each lemma is one or a few
  steps.
\<close>

section \<open>Runs\<close>

definition runs :: "'m platform \<Rightarrow> 'm kernel \<Rightarrow> 'm kernel \<Rightarrow> bool" where
  "runs pf k k' \<longleftrightarrow> (\<exists>n. run pf n k = (k', None))"

lemma runs_refl [simp]: "runs pf k k"
  unfolding runs_def by (rule exI [of _ 0]) simp

lemma runs_step: "step pf k = Inr k1 \<Longrightarrow> runs pf k1 k' \<Longrightarrow> runs pf k k'"
  unfolding runs_def by (elim exE, rename_tac n, rule_tac x = "Suc n" in exI) simp

lemma runs1: "step pf k = Inr k' \<Longrightarrow> runs pf k k'"
  by (erule runs_step) simp

lemma runs_trans: "runs pf k k1 \<Longrightarrow> runs pf k1 k2 \<Longrightarrow> runs pf k k2"
proof -
  assume "runs pf k k1" and k2: "runs pf k1 k2"
  then obtain n where "run pf n k = (k1, None)" by (auto simp: runs_def)
  then show ?thesis using k2
    by (induction n arbitrary: k) (auto split: sum.splits intro: runs_step)
qed

lemma runs_end: "runs pf k k1 \<Longrightarrow> step pf k1 = Inl e \<Longrightarrow> \<exists>n. run pf n k = (k1, Some e)"
proof -
  assume "runs pf k k1" and e: "step pf k1 = Inl e"
  then obtain n where "run pf n k = (k1, None)" by (auto simp: runs_def)
  then have "run pf (n + 1) k = (k1, Some e)"
  proof (induction n arbitrary: k)
    case (Suc n)
    then obtain k2 where "step pf k = Inr k2" "run pf n k2 = (k1, None)" by (auto split: sum.splits)
    with Suc.IH show ?case by simp
  qed (simp add: e)
  then show ?thesis by blast
qed

text \<open>
  Thread \<open>c\<close> runs with frames \<open>us\<close>; \<open>q\<close> is the ready list, \<open>d\<close> the thread to be destroyed,
  \<open>out\<close> the output.
\<close>

definition view :: "'m platform \<Rightarrow> 'm kernel \<Rightarrow> ptr \<Rightarrow> frame list \<Rightarrow> ptr list \<Rightarrow> ptr \<Rightarrow> string list \<Rightarrow> bool" where
  "view pf k c us q d out \<longleftrightarrow> kinv pf k \<and> currentThread k = c \<and> frames k c = us \<and>
     queue k ReadyQ = q \<and> threadToBeDestroyed k = d \<and> printed k = out"

text \<open>What the step of thread \<open>c\<close> leaves alone.\<close>

definition same_locks :: "'m kernel \<Rightarrow> 'm kernel \<Rightarrow> bool" where
  "same_locks k k' \<longleftrightarrow> locks k' = locks k \<and> locktest1 k' = locktest1 k \<and>
     (\<forall>l. queue k' (LockQ l) = queue k (LockQ l))"

definition spares :: "ptr \<Rightarrow> 'm kernel \<Rightarrow> 'm kernel \<Rightarrow> bool" where
  "spares c k k' \<longleftrightarrow> (\<forall>t. t \<noteq> c \<longrightarrow> frames k' t = frames k t \<and>
     (\<forall>T. threads k t = Some T \<longrightarrow> (\<exists>T'. threads k' t = Some T' \<and> machineState T' = machineState T)))"

definition others :: "ptr \<Rightarrow> 'm kernel \<Rightarrow> 'm kernel \<Rightarrow> bool" where
  "others c k k' \<longleftrightarrow> same_locks k k' \<and> spares c k k'"

lemma othersI:
  assumes "locks k' = locks k" and "locktest1 k' = locktest1 k"
    and "\<And>l. queue k' (LockQ l) = queue k (LockQ l)"
    and "\<And>t. t \<noteq> c \<Longrightarrow> frames k' t = frames k t"
    and "\<And>t T. t \<noteq> c \<Longrightarrow> threads k t = Some T \<Longrightarrow> \<exists>T'. threads k' t = Some T' \<and> machineState T' = machineState T"
  shows "others c k k'"
  using assms by (simp add: others_def spares_def same_locks_def)

lemma step_kinv: "platform_ok pf \<Longrightarrow> kinv pf k \<Longrightarrow> step pf k = Inr k' \<Longrightarrow> kinv pf k'"
  using step_safe [of pf k] by (simp split: if_splits)

lemma view_not_null: "view pf k c us q d out \<Longrightarrow> c \<noteq> NULL"
proof -
  assume "view pf k c us q d out"
  then have k: "kinv pf k" "currentThread k = c" by (simp_all add: view_def)
  then have "threads k c \<noteq> None" using invD(6) by (fastforce simp: kinv_def)
  then show ?thesis using k(1) wfD(4) by (auto simp: kinv_def)
qed

section \<open>Steps\<close>

lemma printf_step:
  assumes pf: "platform_ok pf" and v: "view pf k c (CodeF (Printf s # ss) # us) q d out"
  shows "\<exists>k'. step pf k = Inr k' \<and> view pf k' c (CodeF ss # us) q d (out @ [s]) \<and> others c k k'"
proof -
  let ?k' = "k\<lparr>frames := (frames k)(c := CodeF ss # us), printed := out @ [s]\<rparr>"
  have step: "step pf k = Inr ?k'"
    using v by (simp add: view_def step_def pop_def push_def printf_def)
  from step_kinv [OF pf _ this] v show ?thesis using step
    by (auto simp: view_def intro!: othersI)
qed

lemma code_end_step:
  assumes pf: "platform_ok pf" and v: "view pf k c (CodeF [] # us) q d out"
  shows "\<exists>k'. step pf k = Inr k' \<and> view pf k' c us q d out \<and> others c k k'"
proof -
  let ?k' = "k\<lparr>frames := (frames k)(c := us)\<rparr>"
  have step: "step pf k = Inr ?k'" using v by (simp add: view_def step_def pop_def)
  from step_kinv [OF pf _ this] v show ?thesis using step
    by (auto simp: view_def intro!: othersI)
qed

text \<open>Returning from \<open>SWITCH\<close> and then from \<open>Yield\<close>.\<close>

lemma resume_step:
  assumes pf: "platform_ok pf" and v: "view pf k c (RunF # fs) q NULL out"
  shows "\<exists>k'. step pf k = Inr k' \<and> view pf k' c fs q NULL out \<and> others c k k'"
proof -
  let ?k' = "k\<lparr>frames := (frames k)(c := fs)\<rparr>"
  have step: "step pf k = Inr ?k'"
    using v by (simp add: view_def step_def pop_def Scheduler_Run_resume_def)
  from step_kinv [OF pf _ this] v show ?thesis using step
    by (auto simp: view_def intro!: othersI)
qed

lemma destroy_step:
  assumes pf: "platform_ok pf" and v: "view pf k c (RunF # fs) q d out" and d: "d \<noteq> NULL"
  shows "\<exists>k'. step pf k = Inr k' \<and> view pf k' c fs q NULL out \<and> threads k' d = None \<and>
    same_locks k k' \<and> (\<forall>t. t \<noteq> c \<longrightarrow> t \<noteq> d \<longrightarrow> frames k' t = frames k t)"
proof -
  have k: "kinv pf k" "currentThread k = c" "frames k c = RunF # fs" "threadToBeDestroyed k = d"
    using v by (simp_all add: view_def)
  have inv: "inv pf (queue k) (threads k) (frames k) c d (getLevel pf (interrupt k))"
    using k by (simp add: kinv_def)
  have dc: "d \<noteq> c" "threads k d \<noteq> None"
    using inv_destroy(1,2) [OF inv _ d] k(3) by simp_all
  then obtain D where D: "threads k d = Some D" by blast
  let ?k' = "k\<lparr>frames := (frames k)(c := fs, d := []), threads := (threads k)(d := None), threadToBeDestroyed := NULL\<rparr>"
  have step: "step pf k = Inr ?k'"
    using k d dc D by (simp add: step_def pop_def Scheduler_Run_resume_def delete_Thread_def)
  from step_kinv [OF pf k(1) this] v dc(1) show ?thesis using step
    by (auto simp: view_def same_locks_def)
qed

lemma yield_return_step:
  assumes pf: "platform_ok pf" and v: "view pf k c (YieldF l # us) q d out"
  shows "\<exists>k'. step pf k = Inr k' \<and> view pf k' c us q d out \<and> others c k k'"
proof -
  let ?k' = "k\<lparr>frames := (frames k)(c := us), interrupt := snd (SetLevel pf l (interrupt k))\<rparr>"
  have step: "step pf k = Inr ?k'" using v pf by (simp add: view_def step_def pop_def set_level_ok)
  from step_kinv [OF pf _ this] v show ?thesis using step
    by (auto simp: view_def intro!: othersI)
qed

lemma yield_step:
  assumes pf: "platform_ok pf" and v: "view pf k c (CodeF (CurrentYield # ss) # us) (n # q) d out"
    and us: "user_frames us"
  shows "\<exists>k' l. step pf k = Inr k' \<and> view pf k' n (frames k n) (q @ [c]) d out \<and> n \<noteq> c \<and>
    frames k' c = RunF # YieldF l # CodeF ss # us \<and> others c k k'"
proof -
  let ?k1 = "k\<lparr>frames := (frames k)(c := CodeF ss # us)\<rparr>"
  have k: "kinv pf k" "currentThread k = c" "frames k c = CodeF (CurrentYield # ss) # us"
    using v by (simp_all add: view_def)
  have k1: "kinv pf ?k1"
    using k us inv_user_frames [of pf "queue k" "threads k" "frames k" c "threadToBeDestroyed k"
      "getLevel pf (interrupt k)" "CodeF ss # us" "getLevel pf (interrupt k)"]
    by (simp add: kinv_def)
  from Yield_switch [OF pf k1, of n q] us v k obtain C T h m where
    y: "threads k c = Some C" "threads k n = Some T" "n \<noteq> c"
      "Thread_Yield pf c ?k1 = Inr (?k1\<lparr>interrupt := m, heap := h, currentThread := n,
        threads := (threads k)(c \<mapsto> C\<lparr>status := READY\<rparr>, n \<mapsto> T\<lparr>status := RUNNING\<rparr>),
        frames := (frames k)(c := RunF # YieldF (getLevel pf (interrupt k)) # CodeF ss # us)\<rparr>)"
      "queue (?k1\<lparr>interrupt := m, heap := h, currentThread := n,
        threads := (threads k)(c \<mapsto> C\<lparr>status := READY\<rparr>, n \<mapsto> T\<lparr>status := RUNNING\<rparr>),
        frames := (frames k)(c := RunF # YieldF (getLevel pf (interrupt k)) # CodeF ss # us)\<rparr>) =
       (queue k)(ReadyQ := q @ [c])"
    by (auto simp: view_def Let_def)
  let ?k' = "?k1\<lparr>interrupt := m, heap := h, currentThread := n,
        threads := (threads k)(c \<mapsto> C\<lparr>status := READY\<rparr>, n \<mapsto> T\<lparr>status := RUNNING\<rparr>),
        frames := (frames k)(c := RunF # YieldF (getLevel pf (interrupt k)) # CodeF ss # us)\<rparr>"
  have step: "step pf k = Inr ?k'" using k y(4) by (simp add: step_def pop_def push_def)
  from step_kinv [OF pf k(1) step] show ?thesis using step y v
    by (intro exI [of _ ?k'] exI [of _ "getLevel pf (interrupt k)"]) (auto simp: view_def intro!: othersI)
qed

text \<open>\<open>func\<close> and \<open>arg\<close> are what \<open>Fork\<close> stored for thread \<open>t\<close>.\<close>

definition forked :: "'m platform \<Rightarrow> 'm kernel \<Rightarrow> ptr \<Rightarrow> word32 \<Rightarrow> word32 \<Rightarrow> bool" where
  "forked pf k t func arg \<longleftrightarrow> (\<exists>T. threads k t = Some T \<and>
     machineState T (InitialPCState (host pf)) = Some func \<and>
     machineState T (InitialArgState (host pf)) = Some arg)"

lemma others_forked: "others c k k' \<Longrightarrow> t \<noteq> c \<Longrightarrow> forked pf k t func arg \<Longrightarrow> forked pf k' t func arg"
  by (fastforce simp: others_def spares_def forked_def)

lemma user_push:
  assumes "kinv pf k" and "frames k (currentThread k) = CodeF (s # ss) # us" and "user_frames us"
  defines "k1 \<equiv> k\<lparr>frames := (frames k)(currentThread k := CodeF ss # us)\<rparr>"
  shows "kinv pf k1" and "user_frames (frames k1 (currentThread k1))"
    and "step pf k = exec_stmt pf s k1"
  using assms inv_user_frames [of pf "queue k" "threads k" "frames k" "currentThread k"
      "threadToBeDestroyed k" "getLevel pf (interrupt k)" "CodeF ss # us" "getLevel pf (interrupt k)"]
  by (simp_all add: kinv_def step_def pop_def push_def)

lemma fork_step:
  assumes pf: "platform_ok pf" and us: "user_frames us"
    and v: "view pf k c (CodeF (ForkNew nm func arg # ss) # us) q d out"
  shows "\<exists>k' t. step pf k = Inr k' \<and> view pf k' c (CodeF ss # us) (q @ [t]) d out \<and> t \<noteq> c \<and>
    frames k' t = [RootF] \<and> forked pf k' t func arg \<and> threads k t = None \<and> same_locks k k' \<and>
    (\<forall>u. u \<noteq> c \<longrightarrow> u \<noteq> t \<longrightarrow> frames k' u = frames k u \<and> threads k' u = threads k u)"
proof -
  have k: "kinv pf k" "currentThread k = c" "frames k (currentThread k) = CodeF (ForkNew nm func arg # ss) # us"
    using v by (simp_all add: view_def)
  note u = user_push [OF k(1,3) us]
  let ?k1 = "k\<lparr>frames := (frames k)(currentThread k := CodeF ss # us)\<rparr>" and ?t = "fresh (heap k)"
  from ForkNew_ok [OF pf u(1,2), of nm func arg] obtain T h m where
    f: "exec_stmt pf (ForkNew nm func arg) ?k1 = Inr (?k1\<lparr>frames := (frames ?k1)(?t := [RootF]),
        threads := (threads k)(?t \<mapsto> T), heap := h, interrupt := m\<rparr>)"
      "threads k ?t = None" "machineState T (InitialPCState (host pf)) = Some func"
      "machineState T (InitialArgState (host pf)) = Some arg"
      "queue (?k1\<lparr>frames := (frames ?k1)(?t := [RootF]), threads := (threads k)(?t \<mapsto> T), heap := h,
        interrupt := m\<rparr>) = (queue k)(ReadyQ := queue k ReadyQ @ [?t])"
    by (auto simp: Let_def simp del: exec_stmt.simps)
  let ?k' = "?k1\<lparr>frames := (frames ?k1)(?t := [RootF]), threads := (threads k)(?t \<mapsto> T), heap := h, interrupt := m\<rparr>"
  have step: "step pf k = Inr ?k'" using u(3) f(1) by (simp del: exec_stmt.simps)
  have "threads k c \<noteq> None" using kinv_ainv [OF k(1)] invD(6) k(1,2) by (fastforce simp: kinv_def)
  then have "?t \<noteq> c" using f(2) by auto
  with step_kinv [OF pf k(1) step] step f v k(2) show ?thesis
    by (intro exI [of _ ?k'] exI [of _ ?t]) (simp add: view_def forked_def same_locks_def)
qed

text \<open>A new thread: \<open>ThreadRoot\<close>, \<open>InterruptEnable\<close>, then its procedure.\<close>

lemma root_steps:
  assumes pf: "platform_ok pf" and v: "view pf k c [RootF] q d out" and f: "forked pf k c func arg"
    and a: "func \<noteq> addr_InterruptEnable pf" "func \<noteq> addr_ThreadFinish pf"
  shows "\<exists>k'. runs pf k k' \<and>
    view pf k' c [CodeF (program pf func arg), CallF (addr_ThreadFinish pf) 0] q d out \<and> others c k k' \<and>
    getLevel pf (interrupt k') = IntOn"
proof -
  have k: "kinv pf k" "currentThread k = c" "frames k c = [RootF]" using v by (simp_all add: view_def)
  from f obtain T where T: "threads k c = Some T" "machineState T (InitialPCState (host pf)) = Some func"
    "machineState T (InitialArgState (host pf)) = Some arg" by (auto simp: forked_def)
  have inv: "inv pf (queue k) (threads k) (frames k) c (threadToBeDestroyed k) (getLevel pf (interrupt k))"
    using k by (simp add: kinv_def)
  have ok: "thread_ok pf T [RootF]" using invD(3) [OF inv T(1)] k(3) by simp
  let ?fin = "CallF (addr_ThreadFinish pf) 0"
  let ?k1 = "k\<lparr>frames := (frames k)(c := [CallF (addr_InterruptEnable pf) 0, CallF func arg, ?fin])\<rparr>"
  let ?k2 = "k\<lparr>frames := (frames k)(c := [CallF func arg, ?fin]), interrupt := Enable pf (interrupt k)\<rparr>"
  let ?k3 = "k\<lparr>frames := (frames k)(c := [CodeF (program pf func arg), ?fin]), interrupt := Enable pf (interrupt k)\<rparr>"
  have s1: "step pf k = Inr ?k1"
    using k T ok by (simp add: step_def pop_def ThreadRoot_def thread_ok_def)
  have s2: "step pf ?k1 = Inr ?k2" using k by (simp add: step_def pop_def call_addr_def)
  have s3: "step pf ?k2 = Inr ?k3" using k a by (simp add: step_def pop_def call_addr_def push_def)
  have "kinv pf ?k3"
    using step_kinv [OF pf step_kinv [OF pf step_kinv [OF pf k(1) s1] s2] s3] .
  moreover have "runs pf k ?k3" by (rule runs_step [OF s1 runs_step [OF s2 runs1 [OF s3]]])
  ultimately show ?thesis using v platform_okD(3) [OF pf]
    by (intro exI [of _ ?k3]) (auto simp: view_def intro!: othersI)
qed

section \<open>Finishing\<close>

lemma finish_state:
  assumes pf: "platform_ok pf" and k1: "kinv pf k1" and user: "user_frames (frames k1 (currentThread k1))"
    and k: "currentThread k1 = c" "queue k1 ReadyQ = q" "printed k1 = out" "frames k1 c = us"
  shows "\<exists>k'. Thread_Finish pf c k1 = Inr k' \<and> view pf k' c (SleepF # us) q c out \<and> same_locks k1 k' \<and>
    (\<forall>t. t \<noteq> c \<longrightarrow> frames k' t = frames k1 t \<and> threads k' t = threads k1 t)"
proof -
  from Finish_ok [OF pf k1 user] k obtain C m where
    "Thread_Finish pf c k1 = Inr (k1\<lparr>interrupt := m, threadToBeDestroyed := c,
      threads := (threads k1)(c \<mapsto> C\<lparr>status := BLOCKED\<rparr>), frames := (frames k1)(c := SleepF # us)\<rparr>)"
    "kinv pf (k1\<lparr>interrupt := m, threadToBeDestroyed := c,
      threads := (threads k1)(c \<mapsto> C\<lparr>status := BLOCKED\<rparr>), frames := (frames k1)(c := SleepF # us)\<rparr>)"
    by (auto simp: Let_def)
  with k show ?thesis
    by (intro exI [of _ "k1\<lparr>interrupt := m, threadToBeDestroyed := c,
      threads := (threads k1)(c \<mapsto> C\<lparr>status := BLOCKED\<rparr>), frames := (frames k1)(c := SleepF # us)\<rparr>"])
      (simp add: view_def same_locks_def)
qed

lemma finish_step:
  assumes pf: "platform_ok pf" and us: "user_frames us"
    and v: "view pf k c (CodeF (CurrentFinish # ss) # us) q d out"
  shows "\<exists>k'. step pf k = Inr k' \<and> view pf k' c (SleepF # CodeF ss # us) q c out \<and> others c k k' \<and>
    (\<forall>t. t \<noteq> c \<longrightarrow> threads k' t = threads k t)"
proof -
  have k: "kinv pf k" "currentThread k = c" "frames k (currentThread k) = CodeF (CurrentFinish # ss) # us"
    using v by (simp_all add: view_def)
  note u = user_push [OF k(1,3) us]
  from finish_state [OF pf u(1,2), of c q out "CodeF ss # us"] v k(2) u(3) show ?thesis
    by (auto simp: view_def same_locks_def intro!: othersI)
qed

lemma call_finish_step:
  assumes pf: "platform_ok pf" and us: "user_frames us" and ne: "addr_ThreadFinish pf \<noteq> addr_InterruptEnable pf"
    and v: "view pf k c (CallF (addr_ThreadFinish pf) 0 # us) q d out"
  shows "\<exists>k'. step pf k = Inr k' \<and> view pf k' c (SleepF # us) q c out \<and> others c k k' \<and>
    (\<forall>t. t \<noteq> c \<longrightarrow> threads k' t = threads k t)"
proof -
  have k: "kinv pf k" "currentThread k = c" "frames k c = CallF (addr_ThreadFinish pf) 0 # us"
    using v by (simp_all add: view_def)
  let ?k1 = "k\<lparr>frames := (frames k)(c := us)\<rparr>"
  have k1: "kinv pf ?k1" "user_frames (frames ?k1 (currentThread ?k1))"
    using k us inv_user_frames [of pf "queue k" "threads k" "frames k" c "threadToBeDestroyed k"
      "getLevel pf (interrupt k)" us "getLevel pf (interrupt k)"] by (simp_all add: kinv_def)
  have "step pf k = Thread_Finish pf c ?k1"
    using k ne by (simp add: step_def pop_def call_addr_def)
  with finish_state [OF pf k1, of c q out us] v k(2) show ?thesis
    by (auto simp: view_def same_locks_def intro!: othersI)
qed

lemma dispatch_step:
  assumes pf: "platform_ok pf" and v: "view pf k c (SleepF # fs) (n # q) d out" and n: "n \<noteq> c"
  shows "\<exists>k'. step pf k = Inr k' \<and> view pf k' n (frames k n) q d out \<and>
    frames k' c = RunF # fs \<and> others c k k'"
proof -
  have k: "kinv pf k" "currentThread k = c" "frames k c = SleepF # fs" "queue k ReadyQ = n # q"
    using v by (simp_all add: view_def)
  have inv: "inv pf (queue k) (threads k) (frames k) c (threadToBeDestroyed k) (getLevel pf (interrupt k))"
    using k by (simp add: kinv_def)
  have res: "resumable fs" using invD(6) [OF inv] k(3) by (auto simp: running_def)
  let ?k1 = "k\<lparr>frames := (frames k)(c := fs)\<rparr>"
  have k1: "kinvF pf ((frames ?k1)(currentThread ?k1 := SleepF # fs)) ?k1"
    using k(1,2) by (simp add: kinv_kinvF fun_upd_idem k(3))
  from Sleep_dispatch [OF k1 _ res, of n q] k obtain T h where
    "Sleep_loop pf ?k1 = Inr (?k1\<lparr>heap := h, currentThread := n, threads := (threads k)(n \<mapsto> T\<lparr>status := RUNNING\<rparr>),
      frames := (frames k)(c := RunF # fs)\<rparr>)" "threads k n = Some T"
    "queue (?k1\<lparr>heap := h, currentThread := n, threads := (threads k)(n \<mapsto> T\<lparr>status := RUNNING\<rparr>),
      frames := (frames k)(c := RunF # fs)\<rparr>) = (queue k)(ReadyQ := q)"
    by (auto simp: Let_def)
  moreover from this have step: "step pf k = Inr (?k1\<lparr>heap := h, currentThread := n,
      threads := (threads k)(n \<mapsto> T\<lparr>status := RUNNING\<rparr>), frames := (frames k)(c := RunF # fs)\<rparr>)"
    using k by (simp add: step_def pop_def)
  moreover note step_kinv [OF pf k(1) step]
  ultimately show ?thesis using v n by (auto simp: view_def intro!: othersI)
qed

lemma halt_step:
  assumes pf: "platform_ok pf" and v: "view pf k c (SleepF # fs) [] d out" and "\<And>m. Idle pf m = None"
  shows "step pf k = Inl Halted"
  using step_safe [OF pf, of k] v assms(3) by (simp add: view_def halting_def)

section \<open>Ping-pong\<close>

text \<open>
  Two threads: \<open>c\<close> runs with frames \<open>us\<close>, \<open>o\<close> is ready with frames \<open>vs\<close>.
\<close>

definition duo :: "'m platform \<Rightarrow> 'm kernel \<Rightarrow> ptr \<Rightarrow> frame list \<Rightarrow> ptr \<Rightarrow> frame list \<Rightarrow> string list \<Rightarrow> bool" where
  "duo pf k c us t vs out \<longleftrightarrow> view pf k c us [t] NULL out \<and> t \<noteq> c \<and> frames k t = vs"

lemma duo_print_yield:
  assumes pf: "platform_ok pf" and us: "user_frames us"
    and d: "duo pf k c (CodeF (Printf s # CurrentYield # ss) # us) t vs out"
  shows "\<exists>k' l. runs pf k k' \<and> duo pf k' t vs c (RunF # YieldF l # CodeF ss # us) (out @ [s]) \<and>
    (forked pf k t func arg \<longrightarrow> forked pf k' t func arg)"
proof -
  from d have v: "view pf k c (CodeF (Printf s # CurrentYield # ss) # us) [t] NULL out"
    and t: "t \<noteq> c" "frames k t = vs" by (simp_all add: duo_def)
  from printf_step [OF pf v] obtain k1 where k1: "step pf k = Inr k1"
    "view pf k1 c (CodeF (CurrentYield # ss) # us) [t] NULL (out @ [s])" "others c k k1" by blast
  from yield_step [OF pf k1(2) us] obtain k2 l where k2: "step pf k1 = Inr k2"
    "view pf k2 t (frames k1 t) ([] @ [c]) NULL (out @ [s])" "frames k2 c = RunF # YieldF l # CodeF ss # us"
    "others c k1 k2" by blast
  have "frames k1 t = vs" using k1(3) t by (simp add: others_def spares_def)
  with k2 t have "duo pf k2 t vs c (RunF # YieldF l # CodeF ss # us) (out @ [s])" by (simp add: duo_def)
  moreover have "runs pf k k2" by (rule runs_step [OF k1(1) runs1 [OF k2(1)]])
  moreover have "forked pf k t func arg \<longrightarrow> forked pf k2 t func arg"
    using others_forked [OF k1(3) t(1)] others_forked [OF k2(4) t(1)] by blast
  ultimately show ?thesis by blast
qed

lemma duo_resume:
  assumes pf: "platform_ok pf" and d: "duo pf k c (RunF # YieldF l # us) t vs out"
  shows "\<exists>k'. runs pf k k' \<and> duo pf k' c us t vs out"
proof -
  from d have v: "view pf k c (RunF # YieldF l # us) [t] NULL out" and t: "t \<noteq> c" "frames k t = vs"
    by (simp_all add: duo_def)
  from resume_step [OF pf v] obtain k1 where k1: "step pf k = Inr k1"
    "view pf k1 c (YieldF l # us) [t] NULL out" "others c k k1" by blast
  from yield_return_step [OF pf k1(2)] obtain k2 where k2: "step pf k1 = Inr k2"
    "view pf k2 c us [t] NULL out" "others c k1 k2" by blast
  have "duo pf k2 c us t vs out" using k1(3) k2(2,3) t by (simp add: duo_def others_def spares_def)
  moreover have "runs pf k k2" by (rule runs_step [OF k1(1) runs1 [OF k2(1)]])
  ultimately show ?thesis by blast
qed

text \<open>Both threads go once around their loops.\<close>

lemma duo_lap:
  assumes pf: "platform_ok pf" and us: "user_frames us" "user_frames vs"
    and d: "duo pf k c (CodeF (Printf s # CurrentYield # ss) # us) t
      (RunF # YieldF l # CodeF (Printf r # CurrentYield # rs) # vs) out"
  shows "\<exists>k' l'. runs pf k k' \<and>
    duo pf k' c (CodeF ss # us) t (RunF # YieldF l' # CodeF rs # vs) (out @ [s, r])"
proof -
  from duo_print_yield [OF pf us(1) d] obtain k1 l1 where k1: "runs pf k k1"
    "duo pf k1 t (RunF # YieldF l # CodeF (Printf r # CurrentYield # rs) # vs) c
      (RunF # YieldF l1 # CodeF ss # us) (out @ [s])" by blast
  from duo_resume [OF pf k1(2)] obtain k2 where k2: "runs pf k1 k2"
    "duo pf k2 t (CodeF (Printf r # CurrentYield # rs) # vs) c (RunF # YieldF l1 # CodeF ss # us) (out @ [s])"
    by blast
  from duo_print_yield [OF pf us(2) k2(2)] obtain k3 l3 where k3: "runs pf k2 k3"
    "duo pf k3 c (RunF # YieldF l1 # CodeF ss # us) t (RunF # YieldF l3 # CodeF rs # vs) ((out @ [s]) @ [r])"
    by blast
  from duo_resume [OF pf k3(2)] obtain k4 where k4: "runs pf k3 k4"
    "duo pf k4 c (CodeF ss # us) t (RunF # YieldF l3 # CodeF rs # vs) ((out @ [s]) @ [r])" by blast
  have "runs pf k k4" using k1(1) k2(1) k3(1) k4(1) by (blast intro: runs_trans)
  with k4(2) show ?thesis by (simp only: append_assoc append_Cons append_Nil) blast
qed

lemma SimpleThread_loop_simps:
  "i < n \<Longrightarrow> SimpleThread_loop w i n @ ss =
     Printf (looped w i) # CurrentYield # SimpleThread_loop w (Suc i) n @ ss"
  "SimpleThread_loop w n n = []"
  by (simp_all add: SimpleThread_loop_def upt_conv_Cons)

definition rounds :: "int \<Rightarrow> int \<Rightarrow> nat \<Rightarrow> nat \<Rightarrow> string list" where
  "rounds a b i n = concat (map (\<lambda>j. [looped a j, looped b j]) [i..<n])"

lemma duo_laps:
  assumes pf: "platform_ok pf" and us: "user_frames us" "user_frames vs"
  shows "i \<le> n \<Longrightarrow> duo pf k c (CodeF (SimpleThread_loop a i n @ ss) # us) t
      (RunF # YieldF l # CodeF (SimpleThread_loop b i n @ rs) # vs) out \<Longrightarrow>
    \<exists>k' l'. runs pf k k' \<and> duo pf k' c (CodeF ss # us) t (RunF # YieldF l' # CodeF rs # vs)
      (out @ rounds a b i n)"
proof (induction "n - i" arbitrary: i k l out)
  case 0
  then have "i = n" by simp
  with 0 show ?case by (intro exI [of _ k] exI [of _ l]) (simp add: SimpleThread_loop_simps rounds_def)
next
  case (Suc m)
  then have less: "i < n" by simp
  from duo_lap [OF pf us Suc.prems(2) [unfolded SimpleThread_loop_simps(1) [OF less]]]
  obtain k1 l1 where k1: "runs pf k k1"
    "duo pf k1 c (CodeF (SimpleThread_loop a (Suc i) n @ ss) # us) t
      (RunF # YieldF l1 # CodeF (SimpleThread_loop b (Suc i) n @ rs) # vs) (out @ [looped a i, looped b i])"
    by blast
  from Suc.hyps(1) [OF _ _ k1(2)] Suc.hyps(2) less obtain k2 l2 where k2: "runs pf k1 k2"
    "duo pf k2 c (CodeF ss # us) t (RunF # YieldF l2 # CodeF rs # vs)
      ((out @ [looped a i, looped b i]) @ rounds a b (Suc i) n)" by fastforce
  have "rounds a b i n = [looped a i, looped b i] @ rounds a b (Suc i) n"
    using less by (simp add: rounds_def upt_conv_Cons)
  with k2(2) have "duo pf k2 c (CodeF ss # us) t (RunF # YieldF l2 # CodeF rs # vs) (out @ rounds a b i n)"
    by simp
  with runs_trans [OF k1(1) k2(1)] show ?case by blast
qed

text \<open>The last part: both threads finish and the machine halts.\<close>

lemma duo_finish:
  assumes pf: "platform_ok pf" and idle: "\<And>m. Idle pf m = None"
    and ne: "addr_ThreadFinish pf \<noteq> addr_InterruptEnable pf"
    and d: "duo pf k c [CodeF [CurrentFinish]] t
      (RunF # YieldF l # [CodeF [], CallF (addr_ThreadFinish pf) 0]) out"
  shows "\<exists>k'. runs pf k k' \<and> step pf k' = Inl Halted \<and> printed k' = out \<and> threads k' c = None"
proof -
  from d have v: "view pf k c [CodeF [CurrentFinish]] [t] NULL out" and t: "t \<noteq> c"
    and ft: "frames k t = RunF # YieldF l # [CodeF [], CallF (addr_ThreadFinish pf) 0]"
    by (simp_all add: duo_def)
  have c: "c \<noteq> NULL" by (rule view_not_null [OF v])
  from finish_step [OF pf _ v] obtain k1 where k1: "step pf k = Inr k1"
    "view pf k1 c (SleepF # [CodeF []]) [t] c out" "others c k k1" by auto
  from dispatch_step [OF pf k1(2) t] obtain k2 where k2: "step pf k1 = Inr k2"
    "view pf k2 t (frames k1 t) [] c out" by blast
  have "frames k1 t = RunF # YieldF l # [CodeF [], CallF (addr_ThreadFinish pf) 0]"
    using k1(3) t ft by (simp add: others_def spares_def)
  with k2(2) have v2: "view pf k2 t (RunF # YieldF l # [CodeF [], CallF (addr_ThreadFinish pf) 0]) [] c out"
    by simp
  from destroy_step [OF pf v2 c] obtain k3 where k3: "step pf k2 = Inr k3"
    "view pf k3 t (YieldF l # [CodeF [], CallF (addr_ThreadFinish pf) 0]) [] NULL out"
    "threads k3 c = None" by blast
  let ?k4 = "k3\<lparr>frames := (frames k3)(t := [CodeF [], CallF (addr_ThreadFinish pf) 0]),
      interrupt := snd (SetLevel pf l (interrupt k3))\<rparr>"
  have k3': "kinv pf k3" "currentThread k3 = t"
    "frames k3 t = YieldF l # [CodeF [], CallF (addr_ThreadFinish pf) 0]"
    "queue k3 ReadyQ = []" "threadToBeDestroyed k3 = NULL" "printed k3 = out"
    using k3(2) by (simp_all add: view_def)
  have s4: "step pf k3 = Inr ?k4" using k3' pf by (simp add: step_def pop_def set_level_ok)
  let ?k5 = "?k4\<lparr>frames := (frames k3)(t := [CallF (addr_ThreadFinish pf) 0])\<rparr>"
  have s5: "step pf ?k4 = Inr ?k5" using k3' by (simp add: step_def pop_def)
  have k5: "kinv pf ?k5" by (rule step_kinv [OF pf step_kinv [OF pf k3'(1) s4] s5])
  then have v5: "view pf ?k5 t (CallF (addr_ThreadFinish pf) 0 # []) [] NULL out"
    using k3' by (simp add: view_def)
  from call_finish_step [OF pf _ ne v5] obtain k6 where k6: "step pf ?k5 = Inr k6"
    "view pf k6 t (SleepF # []) [] t out" "\<forall>u. u \<noteq> t \<longrightarrow> threads k6 u = threads ?k5 u" by auto
  then have kc: "threads k6 c = None" using k3(3) t by auto
  have "runs pf k k6"
    by (rule runs_step [OF k1(1) runs_step [OF k2(1) runs_step [OF k3(1)
          runs_step [OF s4 runs_step [OF s5 runs1 [OF k6(1)]]]]]])
  moreover have "step pf k6 = Inl Halted" by (rule halt_step [OF pf k6(2) idle])
  ultimately show ?thesis using k6(2) kc by (auto simp: view_def)
qed

lemma main_view:
  assumes pf: "platform_ok pf" and main: "main pf hardware aS a1 a2 argv = Inr k0"
    and args: "main_args (tl argv) 1 = Inr testnum"
  shows "view pf k0 3 [CodeF (main_code testnum aS a1 a2)] [] NULL []"
  using main_state [OF main] main_kinv [OF pf main] args
  by (auto simp: view_def kernel0_def)

lemma ping_pong_run:
  assumes pf: "platform_ok pf" and idle: "\<And>m. Idle pf m = None"
    and addr: "addr_ThreadFinish pf \<noteq> addr_InterruptEnable pf" "aS \<noteq> addr_InterruptEnable pf"
      "aS \<noteq> addr_ThreadFinish pf"
    and code: "program pf aS 1 = SimpleThread 1"
    and main: "main pf hardware aS a1 a2 argv = Inr k0" and args: "main_args (tl argv) 1 = Inr 1"
  shows "\<exists>n k. run pf n k0 = (k, Some Halted) \<and> printed k = rounds 0 1 0 5 \<and> threads k 3 = None"
proof -
  let ?fin = "CallF (addr_ThreadFinish pf) 0"
  have "main_code 1 aS a1 a2 = ForkNew ''forked thread'' aS 1 # SimpleThread_loop 0 0 5 @ [CurrentFinish]"
    by (simp add: main_code_def ThreadTest_def ThreadTest1_def SimpleThread_def)
  with main_view [OF pf main args] have
    "view pf k0 3 (CodeF (ForkNew ''forked thread'' aS 1 # SimpleThread_loop 0 0 5 @ [CurrentFinish]) # []) [] NULL []"
    by simp
  from fork_step [OF pf _ this] obtain k1 t where k1: "step pf k0 = Inr k1"
    "view pf k1 3 [CodeF (SimpleThread_loop 0 0 5 @ [CurrentFinish])] [t] NULL []" "t \<noteq> 3"
    "frames k1 t = [RootF]" "forked pf k1 t aS 1" by auto
  then have d1: "duo pf k1 3 (CodeF (Printf (looped 0 0) # CurrentYield #
      SimpleThread_loop 0 (Suc 0) 5 @ [CurrentFinish]) # []) t [RootF] []"
    by (simp add: duo_def SimpleThread_loop_simps)
  from duo_print_yield [OF pf _ d1] k1(5) obtain k2 l2 where k2: "runs pf k1 k2"
    "duo pf k2 t [RootF] 3 (RunF # YieldF l2 # [CodeF (SimpleThread_loop 0 (Suc 0) 5 @ [CurrentFinish])])
      [looped 0 0]" "forked pf k2 t aS 1" by (fastforce simp del: append_Nil2)
  from k2(2) have v2: "view pf k2 t [RootF] [3] NULL [looped 0 0]" by (simp add: duo_def)
  from root_steps [OF pf v2 k2(3) addr(2,3)] code obtain k3 where k3: "runs pf k2 k3"
    "view pf k3 t [CodeF (SimpleThread 1), ?fin] [3] NULL [looped 0 0]" "others t k2 k3" by auto
  then have d3: "duo pf k3 t (CodeF (Printf (looped 1 0) # CurrentYield # SimpleThread_loop 1 (Suc 0) 5 @ []) # [?fin])
      3 (RunF # YieldF l2 # [CodeF (SimpleThread_loop 0 (Suc 0) 5 @ [CurrentFinish])]) [looped 0 0]"
    using k2(2) SimpleThread_loop_simps(1) [of 0 5 1 "[]"]
    by (simp add: duo_def others_def spares_def SimpleThread_def)
  from duo_print_yield [OF pf _ d3, where func = 0 and arg = 0] obtain k4 l4 where k4: "runs pf k3 k4"
    "duo pf k4 3 (RunF # YieldF l2 # [CodeF (SimpleThread_loop 0 (Suc 0) 5 @ [CurrentFinish])]) t
      (RunF # YieldF l4 # CodeF (SimpleThread_loop 1 (Suc 0) 5 @ []) # [?fin]) ([looped 0 0] @ [looped 1 0])"
    by (auto simp del: append_Nil2)
  from duo_resume [OF pf k4(2)] obtain k5 where k5: "runs pf k4 k5"
    "duo pf k5 3 (CodeF (SimpleThread_loop 0 (Suc 0) 5 @ [CurrentFinish]) # []) t
      (RunF # YieldF l4 # CodeF (SimpleThread_loop 1 (Suc 0) 5 @ []) # [?fin]) ([looped 0 0] @ [looped 1 0])"
    by blast
  from duo_laps [OF pf _ _ _ k5(2)] obtain k6 l6 where k6: "runs pf k5 k6"
    "duo pf k6 3 [CodeF [CurrentFinish]] t (RunF # YieldF l6 # [CodeF [], ?fin])
      (([looped 0 0] @ [looped 1 0]) @ rounds 0 1 (Suc 0) 5)" by auto
  from duo_finish [OF pf idle addr(1) k6(2)] obtain k7 where k7: "runs pf k6 k7"
    "step pf k7 = Inl Halted" "printed k7 = ([looped 0 0] @ [looped 1 0]) @ rounds 0 1 (Suc 0) 5"
    "threads k7 3 = None" by blast
  have "rounds 0 1 0 5 = ([looped 0 0] @ [looped 1 0]) @ rounds 0 1 (Suc 0) 5"
    by (simp add: rounds_def upt_conv_Cons)
  moreover have "runs pf k0 k7"
    using runs1 [OF k1(1)] k2(1) k3(1) k4(1) k5(1) k6(1) k7(1) by (blast intro: runs_trans)
  ultimately show ?thesis using runs_end [OF _ k7(2)] k7(3,4) by metis
qed

end
