(* ===== verification/CodeSteps.thy ===== *)
theory CodeSteps
  imports TestRuns
begin

text \<open>
  Single steps of a thread that runs program code, with the resulting state written out: the
  statements on locks and on synchronized lists.
\<close>

text \<open>Thread \<open>c\<close> runs; it is about to execute the statements \<open>ss\<close>.\<close>

definition at_code :: "'m platform \<Rightarrow> 'm kernel \<Rightarrow> ptr \<Rightarrow> stmt list \<Rightarrow> frame list \<Rightarrow> bool" where
  "at_code pf k c ss us \<longleftrightarrow> kinv pf k \<and> currentThread k = c \<and> frames k c = CodeF ss # us \<and> user_frames us"

lemma at_codeD:
  assumes "at_code pf k c ss us"
  shows "kinv pf k" and "currentThread k = c" and "frames k c = CodeF ss # us" and "user_frames us"
  using assms by (simp_all add: at_code_def)

lemma at_code_next:
  assumes "at_code pf k c (s # ss) us"
  defines "k1 \<equiv> k\<lparr>frames := (frames k)(c := CodeF ss # us)\<rparr>"
  shows "step pf k = exec_stmt pf s k1" and "at_code pf k1 c ss us" and "queue k1 = queue k"
  using user_push [of pf k s ss us] assms by (simp_all add: at_code_def)

lemma at_code_step:
  assumes "platform_ok pf" and "at_code pf k c ss us" and "step pf k = Inr k'"
    and "currentThread k' = c" and "frames k' c = CodeF ss' # us"
  shows "at_code pf k' c ss' us"
  using assms step_kinv [OF assms(1) _ assms(3)] by (simp add: at_code_def)

lemma interrupts_off:
  assumes "platform_ok pf" and "kinv pf k" and "user_frames (frames k (currentThread k))"
  obtains m where "set_level pf IntOff k = (getLevel pf (interrupt k), k\<lparr>interrupt := m\<rparr>)"
    and "kinv pf (k\<lparr>interrupt := m\<rparr>)" and "getLevel pf m = IntOff"
  using assms kinv_level [OF assms(2,3)] by (simp add: set_level_ok platform_okD)

lemma acquire_free_step:
  assumes pf: "platform_ok pf" and a: "at_code pf k c (Acquire r # ss) us"
    and L: "lock_ptr r k = l" "locks k l = Some L" "held L = 0"
  shows "\<exists>m. let k' = k\<lparr>frames := (frames k)(c := CodeF ss # us), locks := (locks k)(l \<mapsto> L\<lparr>held := 1\<rparr>),
      history := history k @ [EvAcquire l c], interrupt := m\<rparr>
    in step pf k = Inr k' \<and> at_code pf k' c ss us \<and> queue k' = queue k"
proof -
  let ?k1 = "k\<lparr>frames := (frames k)(c := CodeF ss # us)\<rparr>"
  note n = at_code_next [OF a] and n1 = at_codeD [OF at_code_next(2) [OF a]]
  from interrupts_off [OF pf n1(1)] n1(2-4) obtain m where
    off: "set_level pf IntOff ?k1 = (getLevel pf (interrupt ?k1), ?k1\<lparr>interrupt := m\<rparr>)"
      "kinv pf (?k1\<lparr>interrupt := m\<rparr>)" by auto
  have ptr: "lock_ptr r ?k1 = l" using L(1) by (cases r) simp_all
  from Acquire_loop_passes [OF pf off(2), of l L "getLevel pf (interrupt k)"] n1(2-4) L(2,3)
  obtain m2 where "Lock_Acquire_loop pf l (getLevel pf (interrupt k)) (?k1\<lparr>interrupt := m\<rparr>) =
      Inr (?k1\<lparr>locks := (locks k)(l \<mapsto> L\<lparr>held := 1\<rparr>), history := history k @ [EvAcquire l c], interrupt := m2\<rparr>)"
    by (auto simp: Let_def)
  then have step: "step pf k = Inr (?k1\<lparr>locks := (locks k)(l \<mapsto> L\<lparr>held := 1\<rparr>),
      history := history k @ [EvAcquire l c], interrupt := m2\<rparr>)"
    using n(1) off(1) ptr by (simp add: Lock_Acquire_def)
  from at_code_step [OF pf a step] at_codeD(2) [OF a] queue_value(2) [of ?k1 l L] L(2) step
  show ?thesis by (intro exI [of _ m2]) (simp add: Let_def)
qed

lemma acquire_held_step:
  assumes pf: "platform_ok pf" and a: "at_code pf k c (Acquire r # ss) us"
    and L: "lock_ptr r k = l" "locks k l = Some L" "held L \<noteq> 0"
  shows "\<exists>h C m. let k' = k\<lparr>interrupt := m, heap := h,
      frames := (frames k)(c := SleepF # AcquireF l (getLevel pf (interrupt k)) # CodeF ss # us),
      threads := (threads k)(c \<mapsto> C\<lparr>status := BLOCKED\<rparr>)\<rparr>
    in step pf k = Inr k' \<and> kinv pf k' \<and> threads k c = Some C \<and>
       queue k' = (queue k)(LockQ l := queue k (LockQ l) @ [c])"
proof -
  let ?k1 = "k\<lparr>frames := (frames k)(c := CodeF ss # us)\<rparr>"
  note n = at_code_next [OF a] and n1 = at_codeD [OF at_code_next(2) [OF a]]
  from interrupts_off [OF pf n1(1)] n1(2-4) obtain m where
    off: "set_level pf IntOff ?k1 = (getLevel pf (interrupt ?k1), ?k1\<lparr>interrupt := m\<rparr>)"
      "kinv pf (?k1\<lparr>interrupt := m\<rparr>)" "getLevel pf m = IntOff" by auto
  have ptr: "lock_ptr r ?k1 = l" using L(1) by (cases r) simp_all
  have "step pf k = Lock_Acquire_loop pf l (getLevel pf (interrupt k)) (?k1\<lparr>interrupt := m\<rparr>)"
    using n(1) off(1) ptr by (simp add: Lock_Acquire_def)
  with Acquire_loop_blocks [OF off(2), of l L "getLevel pf (interrupt k)"] off(3) n1(2-4) L(2,3)
  show ?thesis by (auto simp: Let_def)
qed

lemma release_step:
  assumes pf: "platform_ok pf" and a: "at_code pf k c (Release r # ss) us"
    and L: "lock_ptr r k = l" "locks k l = Some L"
  shows "\<exists>th h m. let k' = k\<lparr>frames := (frames k)(c := CodeF ss # us), threads := th, heap := h,
      locks := (locks k)(l \<mapsto> L\<lparr>held := 0\<rparr>), history := history k @ [EvRelease l c], interrupt := m\<rparr>
    in step pf k = Inr k' \<and> at_code pf k' c ss us \<and> wakes (LockQ l) k k'"
proof -
  let ?k1 = "k\<lparr>frames := (frames k)(c := CodeF ss # us)\<rparr>"
  note n = at_code_next [OF a] and n1 = at_codeD [OF at_code_next(2) [OF a]]
  have ptr: "lock_ptr r ?k1 = l" using L(1) by (cases r) simp_all
  have w: "wakes (LockQ l) ?k1 x = wakes (LockQ l) k x" for x
    by (simp add: wakes_def cong: list.case_cong)
  from Lock_Release_ok [OF pf n1(1) [unfolded kinv_kinvF], of l L] L(2) n1(2) obtain th h m where
    r: "Lock_Release pf l ?k1 = Inr (?k1\<lparr>threads := th, heap := h, locks := (locks k)(l \<mapsto> L\<lparr>held := 0\<rparr>),
        history := history k @ [EvRelease l c], interrupt := m\<rparr>)"
      "wakes (LockQ l) k (?k1\<lparr>threads := th, heap := h, locks := (locks k)(l \<mapsto> L\<lparr>held := 0\<rparr>),
        history := history k @ [EvRelease l c], interrupt := m\<rparr>)"
    by (auto simp: Let_def w)
  then have step: "step pf k = Inr (?k1\<lparr>threads := th, heap := h, locks := (locks k)(l \<mapsto> L\<lparr>held := 0\<rparr>),
        history := history k @ [EvRelease l c], interrupt := m\<rparr>)"
    using n(1) ptr by simp
  from at_code_step [OF pf a step] at_codeD(2) [OF a] r(2) step
  show ?thesis by (intro exI [of _ th] exI [of _ h] exI [of _ m]) (simp add: Let_def)
qed

section \<open>Synchronized lists\<close>

lemma at_code_heap:
  assumes "at_code pf k c ss us" and "kinv pf (k\<lparr>heap := h\<rparr>)"
  shows "at_code pf (k\<lparr>heap := h\<rparr>) c ss us"
  using assms by (simp add: at_code_def)

lemma list_append_step:
  assumes a: "at_code pf k c (ListAppend sl x # ss) us" and SL: "synchlists k sl = Some SL"
  shows "\<exists>h. let k' = k\<lparr>frames := (frames k)(c := CodeF ss # us), heap := h\<rparr>
    in step pf k = Inr k' \<and> at_code pf k' c ss us \<and>
       queue k' = (queue k)(SynchQ sl := queue k (SynchQ sl) @ [x])"
proof -
  let ?k1 = "k\<lparr>frames := (frames k)(c := CodeF ss # us)\<rparr>"
  note n = at_code_next [OF a] and n1 = at_codeD [OF at_code_next(2) [OF a]]
  have "wf ?k1" using n1(1) by (simp only: kinv_def)
  from queue_append [OF this, of "SynchQ sl" "sl_list SL" x] SL obtain h where
    h: "List_Append (sl_list SL) x (heap k) = Inr h" "wf (?k1\<lparr>heap := h\<rparr>)"
      "queue (?k1\<lparr>heap := h\<rparr>) = (queue k)(SynchQ sl := queue k (SynchQ sl) @ [x])" by auto
  have "kinv pf (?k1\<lparr>heap := h\<rparr>)"
    by (rule SynchList_queue [OF n1(1) _ h(2)]) (use SL h(3) in simp_all)
  with at_code_heap [OF n(2)] n(1) h SL show ?thesis
    by (intro exI [of _ h]) (simp add: Let_def)
qed

lemma wait_nonempty_step:
  assumes a: "at_code pf k c (WaitNonEmpty sl # ss) us" and SL: "synchlists k sl = Some SL"
  shows "step pf k = (if queue k (SynchQ sl) = [] then Inl (AssertionFailed ''synch.cc'' 144)
    else Inr (k\<lparr>frames := (frames k)(c := CodeF ss # us)\<rparr>))"
proof -
  note n = at_code_next [OF a]
  have "wf k" using at_codeD(1) [OF a] by (simp add: kinv_def)
  from wf_queueE [OF this, of "SynchQ sl" "sl_list SL"] SL obtain es where
    es: "heap_ok (heap k)" "lists_of (heap k) (sl_list SL) = Some es" "queue k (SynchQ sl) = map snd es"
    by auto
  have "List_IsEmpty (sl_list SL) (heap k) = Inr (es = [])" by (rule IsEmpty_spec [OF es(1,2)])
  then show ?thesis using n(1) SL es(3)
    by (simp add: SynchList_wait_def Condition_Wait_def)
qed

lemma take_step:
  assumes a: "at_code pf k c (TakeFirst sl # ss) us" and SL: "synchlists k sl = Some SL"
    and q: "queue k (SynchQ sl) = x # xs"
  shows "if x = NULL then step pf k = Inl (AssertionFailed ''synchlist.cc'' 79)
    else \<exists>h. let k' = k\<lparr>frames := (frames k)(c := CodeF ss # us), heap := h, history := history k @ [EvTake sl x]\<rparr>
      in step pf k = Inr k' \<and> at_code pf k' c ss us \<and> queue k' = (queue k)(SynchQ sl := xs)"
proof -
  let ?k1 = "k\<lparr>frames := (frames k)(c := CodeF ss # us)\<rparr>"
  note n = at_code_next [OF a] and n1 = at_codeD [OF at_code_next(2) [OF a]]
  from synch_remove [OF n1(1), of sl SL] SL q obtain h where
    h: "List_Remove (sl_list SL) (heap k) = Inr (x, h)" "kinv pf (?k1\<lparr>heap := h\<rparr>)"
      "queue (?k1\<lparr>heap := h\<rparr>) = (queue k)(SynchQ sl := xs)" by auto
  show ?thesis
  proof (cases "x = NULL")
    case True
    with n(1) h(1) SL show ?thesis by (simp add: SynchList_take_def assertE_def)
  next
    case False
    have "at_code pf (?k1\<lparr>heap := h\<rparr>) c ss us" by (rule at_code_heap [OF n(2) h(2)])
    then have "at_code pf (?k1\<lparr>heap := h, history := history k @ [EvTake sl x]\<rparr>) c ss us"
      by (simp add: at_code_def)
    with False n(1) h(1,3) SL show ?thesis
      by (auto simp: SynchList_take_def Let_def log_event_def intro!: exI [of _ h])
  qed
qed

text \<open>Entering a member function, and returning from it.\<close>

lemma synch_call_step:
  assumes pf: "platform_ok pf" and a: "at_code pf k c (s # ss) us" and SL: "synchlists k sl = Some SL"
    and s: "s = SynchAppend sl x \<and> body = SynchList_Append SL sl x \<or>
      s = SynchRemove sl \<and> body = SynchList_Remove SL sl"
  defines "k' \<equiv> k\<lparr>frames := (frames k)(c := CodeF body # CodeF ss # us)\<rparr>"
  shows "step pf k = Inr k'" and "at_code pf k' c body (CodeF ss # us)" and "queue k' = queue k"
proof -
  note d = at_codeD [OF a]
  show step: "step pf k = Inr k'"
    using at_code_next(1) [OF a] s SL d(2) by (auto simp: k'_def push_def)
  show "at_code pf k' c body (CodeF ss # us)"
    using step_kinv [OF pf d(1) step] d by (simp add: at_code_def k'_def)
  show "queue k' = queue k" by (simp add: k'_def)
qed

lemma return_step:
  assumes pf: "platform_ok pf" and a: "at_code pf k c [] (CodeF ss # us)"
  defines "k' \<equiv> k\<lparr>frames := (frames k)(c := CodeF ss # us)\<rparr>"
  shows "step pf k = Inr k'" and "at_code pf k' c ss us" and "queue k' = queue k"
proof -
  note d = at_codeD [OF a]
  show step: "step pf k = Inr k'" using d by (simp add: step_def pop_def k'_def)
  show "at_code pf k' c ss us" using step_kinv [OF pf d(1) step] d by (simp add: at_code_def k'_def)
  show "queue k' = queue k" by (simp add: k'_def)
qed

lemma signal_step:
  assumes a: "at_code pf k c (CondSignal cv r # ss) us"
  defines "k' \<equiv> k\<lparr>frames := (frames k)(c := CodeF ss # us)\<rparr>"
  shows "step pf k = Inr k'" and "at_code pf k' c ss us" and "queue k' = queue k"
  using at_code_next [OF a] by (simp_all add: k'_def Condition_Signal_def)

text \<open>The end of a member function: release the lock and return.\<close>

lemma synch_release_return:
  assumes pf: "platform_ok pf" and a: "at_code pf k c [Release (LockAt l)] (CodeF ss # us)"
    and L: "locks k l = Some L"
  shows "\<exists>k'. runs pf k k' \<and> at_code pf k' c ss us \<and>
    (\<forall>sl. queue k' (SynchQ sl) = queue k (SynchQ sl)) \<and>
    map_option held (locks k' l) = Some 0 \<and> history k' = history k @ [EvRelease l c]"
proof -
  from release_step [OF pf a _ L] obtain k1 where
    k1: "step pf k = Inr k1" "at_code pf k1 c [] (CodeF ss # us)" "wakes (LockQ l) k k1"
      "locks k1 l = Some (L\<lparr>held := 0\<rparr>)" "history k1 = history k @ [EvRelease l c]"
    by (auto simp: Let_def)
  have "queue k1 (SynchQ sl) = queue k (SynchQ sl)" for sl
    using k1(3) by (auto simp: wakes_def split: list.splits)
  with return_step [OF pf k1(2)] k1 show ?thesis
    by (intro exI [of _ "k1\<lparr>frames := (frames k1)(c := CodeF ss # us)\<rparr>"]) (auto intro: runs_step runs1)
qed

end
