(* ===== verification/SynchProps.thy ===== *)
theory SynchProps
  imports KernelProps CodeSteps
begin

text \<open>
  Properties of \<open>synch.cc\<close> and \<open>synchlist.cc\<close>: what each operation does on every branch. A
  thread that calls them is in its own code, so its frames are \<open>user_frames\<close>.
\<close>

section \<open>Semaphores\<close>

text \<open>
  C18: \<open>P\<close>. When the value is not 0 the thread goes on, with the value decremented and the
  interrupt level as before. When it is 0 the thread is put at the end of the semaphore's queue
  and blocks, and it will test the value again.
\<close>

theorem semaphore_P:
  assumes "platform_ok pf" and "kinv pf k" and "user_frames (frames k (currentThread k))"
    and "semaphores k s = Some S"
  shows "\<exists>k'. Semaphore_P pf s k = Inr k' \<and> kinv pf k' \<and>
    (if sem_value S = 0 then
       semaphores k' = semaphores k \<and> history k' = history k \<and>
       queue k' = (queue k)(SemQ s := queue k (SemQ s) @ [currentThread k]) \<and>
       map_option status (threads k' (currentThread k)) = Some BLOCKED \<and>
       frames k' (currentThread k) =
         SleepF # SemPF s (getLevel pf (interrupt k)) # frames k (currentThread k)
     else
       semaphores k' = (semaphores k)(s \<mapsto> S\<lparr>sem_value := sem_value S - 1\<rparr>) \<and>
       history k' = history k @ [EvP s (currentThread k)] \<and> queue k' = queue k \<and>
       threads k' = threads k \<and> frames k' = frames k \<and>
       getLevel pf (interrupt k') = getLevel pf (interrupt k))"
proof -
  from interrupts_off [OF assms(1-3)] obtain m where
    off: "set_level pf IntOff k = (getLevel pf (interrupt k), k\<lparr>interrupt := m\<rparr>)"
      "kinv pf (k\<lparr>interrupt := m\<rparr>)" "getLevel pf m = IntOff" .
  show ?thesis
  proof (cases "sem_value S = 0")
    case True
    with P_loop_blocks [OF off(2), of s S "getLevel pf (interrupt k)"] off assms(3,4) show ?thesis
      by (auto simp: Semaphore_P_def Let_def)
  next
    case False
    with P_loop_passes [OF assms(1) off(2), of s S "getLevel pf (interrupt k)"] off assms(3,4) show ?thesis
      by (auto simp: Semaphore_P_def Let_def)
  qed
qed

theorem semaphore_P_witness:
  "(\<exists>k'. Semaphore_P plain_machine 6 (solo 0 []) = Inr k' \<and> queue k' (SemQ 6) = [3]) \<and>
   (\<exists>k'. Semaphore_P plain_machine 6 (solo 2 []) = Inr k' \<and> history k' = history (solo 2 []) @ [EvP 6 3])"
  using semaphore_P [OF plain_machine_ok solo_kinv(1), of 0 "[]" 6]
    semaphore_P [OF plain_machine_ok solo_kinv(1), of 2 "[]" 6]
  by (auto simp: solo_queue)

text \<open>
  \<open>V\<close> always increments the value, wakes the thread that has waited longest, if any, by
  moving it to the end of the ready list, and leaves the interrupt level as it was.
\<close>

theorem semaphore_V:
  assumes "platform_ok pf" and "kinv pf k" and "semaphores k s = Some S"
  shows "\<exists>k'. Semaphore_V pf s k = Inr k' \<and> kinv pf k' \<and>
    semaphores k' = (semaphores k)(s \<mapsto> S\<lparr>sem_value := sem_value S + 1\<rparr>) \<and>
    frames k' = frames k \<and> currentThread k' = currentThread k \<and>
    getLevel pf (interrupt k') = getLevel pf (interrupt k) \<and>
    (case queue k (SemQ s) of
       [] \<Rightarrow> queue k' = queue k \<and> threads k' = threads k
     | t # ts \<Rightarrow> queue k' = (queue k)(SemQ s := ts, ReadyQ := queue k ReadyQ @ [t]) \<and>
         (\<exists>T. threads k t = Some T \<and> threads k' = (threads k)(t \<mapsto> T\<lparr>status := READY\<rparr>)))"
  using Semaphore_V_ok [OF assms(1) assms(2) [unfolded kinv_kinvF] assms(3)]
  unfolding wakes_def Let_def kinv_kinvF
  by (elim exE conjE) (rule exI, erule conjI, simp cong: list.case_cong)

theorem semaphore_V_witness:
  "\<exists>k'. Semaphore_V plain_machine 6 (solo 1 []) = Inr k' \<and>
     map_option sem_value (semaphores k' 6) = Some 2 \<and> queue k' = queue (solo 1 [])"
  using semaphore_V [OF plain_machine_ok solo_kinv(1), of 1 "[]" 6] by (auto simp: solo_queue)

section \<open>Locks\<close>

text \<open>
  C19: \<open>Acquire\<close>. A free lock becomes held and the thread goes on; otherwise the thread is put at
  the end of the lock's queue and blocks, and it will test the lock again. Who holds the lock
  plays no part: a thread that acquires a lock it holds waits for itself.
\<close>

theorem lock_acquire:
  assumes "platform_ok pf" and "kinv pf k" and "user_frames (frames k (currentThread k))"
    and "locks k l = Some L"
  shows "\<exists>k'. Lock_Acquire pf l k = Inr k' \<and> kinv pf k' \<and>
    (if held L = 0 then
       locks k' = (locks k)(l \<mapsto> L\<lparr>held := 1\<rparr>) \<and>
       history k' = history k @ [EvAcquire l (currentThread k)] \<and> queue k' = queue k \<and>
       threads k' = threads k \<and> frames k' = frames k \<and>
       getLevel pf (interrupt k') = getLevel pf (interrupt k)
     else
       locks k' = locks k \<and> history k' = history k \<and>
       queue k' = (queue k)(LockQ l := queue k (LockQ l) @ [currentThread k]) \<and>
       map_option status (threads k' (currentThread k)) = Some BLOCKED \<and>
       frames k' (currentThread k) =
         SleepF # AcquireF l (getLevel pf (interrupt k)) # frames k (currentThread k))"
proof -
  from interrupts_off [OF assms(1-3)] obtain m where
    off: "set_level pf IntOff k = (getLevel pf (interrupt k), k\<lparr>interrupt := m\<rparr>)"
      "kinv pf (k\<lparr>interrupt := m\<rparr>)" "getLevel pf m = IntOff" .
  show ?thesis
  proof (cases "held L = 0")
    case True
    with Acquire_loop_passes [OF assms(1) off(2), of l L "getLevel pf (interrupt k)"] off assms(3,4)
    show ?thesis by (auto simp: Lock_Acquire_def Let_def)
  next
    case False
    with Acquire_loop_blocks [OF off(2), of l L "getLevel pf (interrupt k)"] off assms(3,4)
    show ?thesis by (auto simp: Lock_Acquire_def Let_def)
  qed
qed

theorem lock_acquire_witness:
  "\<exists>k'. Lock_Acquire plain_machine 4 (solo 0 []) = Inr k' \<and>
     map_option held (locks k' 4) = Some 1 \<and> queue k' = queue (solo 0 [])"
  using lock_acquire [OF plain_machine_ok solo_kinv(1), of 0 "[]" 4] by auto

text \<open>
  C20: \<open>Release\<close> frees the lock, whoever holds it, and wakes the thread that has waited longest,
  if any; the lock is not handed over, so the woken thread has to compete for it again.
\<close>

theorem lock_release:
  assumes "platform_ok pf" and "kinv pf k" and "locks k l = Some L"
  shows "\<exists>k'. Lock_Release pf l k = Inr k' \<and> kinv pf k' \<and>
    locks k' = (locks k)(l \<mapsto> L\<lparr>held := 0\<rparr>) \<and>
    frames k' = frames k \<and> currentThread k' = currentThread k \<and>
    getLevel pf (interrupt k') = getLevel pf (interrupt k) \<and>
    (case queue k (LockQ l) of
       [] \<Rightarrow> queue k' = queue k \<and> threads k' = threads k
     | t # ts \<Rightarrow> queue k' = (queue k)(LockQ l := ts, ReadyQ := queue k ReadyQ @ [t]) \<and>
         (\<exists>T. threads k t = Some T \<and> threads k' = (threads k)(t \<mapsto> T\<lparr>status := READY\<rparr>)))"
  using Lock_Release_ok [OF assms(1) assms(2) [unfolded kinv_kinvF] assms(3)]
  unfolding wakes_def Let_def kinv_kinvF
  by (elim exE conjE) (rule exI, erule conjI, simp cong: list.case_cong)

theorem lock_release_witness:
  "\<exists>k'. Lock_Release plain_machine 4 (solo 1 []) = Inr k' \<and>
     map_option held (locks k' 4) = Some 0 \<and> queue k' = queue (solo 1 [])"
  using lock_release [OF plain_machine_ok solo_kinv(1), of 1 "[]" 4] by (auto simp: solo_queue)

text \<open>
  Locks are not reentrant. A thread that acquires a lock twice in a row goes to sleep in the
  lock's queue; when no other thread is ready and no interrupt is pending, the machine then halts.
\<close>

theorem acquire_twice_sleeps:
  assumes "platform_ok pf" and "at_code pf k c (Acquire r # Acquire r # ss) us"
    and "lock_ptr r k = l" and "locks k l = Some L" and "held L = 0"
  shows "\<exists>k'. run pf 2 k = (k', None) \<and> c \<in> set (queue k' (LockQ l)) \<and>
    map_option status (threads k' c) = Some BLOCKED \<and>
    (queue k ReadyQ = [] \<longrightarrow> (\<forall>m. Idle pf m = None) \<longrightarrow> step pf k' = Inl Halted)"
proof -
  from acquire_free_step [OF assms(1-5)] obtain k1 where k1: "step pf k = Inr k1"
    "at_code pf k1 c (Acquire r # ss) us" "queue k1 = queue k" "locks k1 l = Some (L\<lparr>held := 1\<rparr>)"
    "lock_ptr r k1 = l" using assms(3) by (cases r) (auto simp: Let_def)
  from acquire_held_step [OF assms(1) k1(2,5,4)] obtain k2 where k2: "step pf k1 = Inr k2" "kinv pf k2"
    "currentThread k2 = c" "asleep (frames k2 c)" "map_option status (threads k2 c) = Some BLOCKED"
    "queue k2 = (queue k)(LockQ l := queue k (LockQ l) @ [c])"
    using at_codeD(2) [OF k1(2)] k1(3) by (auto simp: Let_def)
  have "step pf k2 = Inl Halted" if "queue k ReadyQ = []" "\<forall>m. Idle pf m = None"
    using step_safe [OF assms(1) k2(2)] k2 that by (simp add: halting_def)
  then show ?thesis using k1 k2
    by (intro exI [of _ k2]) (simp add: numeral_2_eq_2)
qed

lemma solo_at_code: "at_code plain_machine (solo v ss) 3 ss []"
  using solo_kinv(1) by (simp add: at_code_def) (simp add: solo_def)

theorem acquire_twice_sleeps_witness:
  "\<exists>k'. run plain_machine 2 (solo 0 [Acquire (LockAt 4), Acquire (LockAt 4)]) = (k', None) \<and>
     map_option status (threads k' 3) = Some BLOCKED"
proof -
  have "lock_ptr (LockAt 4) (solo 0 ss) = 4" for ss by simp
  from acquire_twice_sleeps [OF plain_machine_ok solo_at_code this] show ?thesis by fastforce
qed

section \<open>Synchronized lists\<close>



text \<open>
  C22: \<open>SynchList::Remove\<close> on a list whose lock is free, run without interruption: it takes the
  first item and frees the lock. On an empty list it does not wait for an item: it fails the
  assertion in \<open>Condition::Wait\<close>, holding the lock; and it fails its own assertion when the first
  item is \<open>NULL\<close>.
\<close>

theorem synchlist_remove:
  assumes "platform_ok pf" and "at_code pf k c (SynchRemove sl # ss) us"
    and "synchlists k sl = Some SL" and "locks k (sl_lock SL) = Some L" and "held L = 0"
  shows "case queue k (SynchQ sl) of
      [] \<Rightarrow> \<exists>n k'. run pf n k = (k', Some (AssertionFailed ''synch.cc'' 144)) \<and>
        map_option held (locks k' (sl_lock SL)) = Some 1
    | x # xs \<Rightarrow>
        if x = NULL then \<exists>n k'. run pf n k = (k', Some (AssertionFailed ''synchlist.cc'' 79))
        else \<exists>k'. runs pf k k' \<and> at_code pf k' c ss us \<and> queue k' (SynchQ sl) = xs \<and>
          map_option held (locks k' (sl_lock SL)) = Some 0 \<and>
          history k' = history k @ [EvAcquire (sl_lock SL) c, EvTake sl x, EvRelease (sl_lock SL) c]"
proof -
  let ?l = "sl_lock SL"
  from synch_call_step [OF assms(1-3), of _ "SynchList_Remove SL sl"] assms(4) obtain k1 where
    k1: "step pf k = Inr k1" "at_code pf k1 c (Acquire (LockAt ?l) # WaitNonEmpty sl #
        [TakeFirst sl, Release (LockAt ?l)]) (CodeF ss # us)"
      "queue k1 = queue k" "locks k1 ?l = Some L" "synchlists k1 sl = Some SL" "history k1 = history k"
    using assms(3) by (simp add: SynchList_Remove_def)
  from acquire_free_step [OF assms(1) k1(2) _ k1(4) assms(5)] k1 obtain k2 where
    k2: "step pf k1 = Inr k2" "at_code pf k2 c (WaitNonEmpty sl # [TakeFirst sl, Release (LockAt ?l)])
        (CodeF ss # us)"
      "queue k2 = queue k" "locks k2 ?l = Some (L\<lparr>held := 1\<rparr>)" "synchlists k2 sl = Some SL"
      "history k2 = history k @ [EvAcquire ?l c]"
    by (auto simp: Let_def)
  have r2: "runs pf k k2" by (rule runs_step [OF k1(1) runs1 [OF k2(1)]])
  note w = wait_nonempty_step [OF k2(2,5)]
  show ?thesis
  proof (cases "queue k (SynchQ sl)")
    case Nil
    with runs_end [OF r2] w k2(3,4) show ?thesis by fastforce
  next
    case (Cons x xs)
    let ?k3 = "k2\<lparr>frames := (frames k2)(c := CodeF [TakeFirst sl, Release (LockAt ?l)] # CodeF ss # us)\<rparr>"
    have s3: "step pf k2 = Inr ?k3" using w Cons k2(3) by simp
    have k3: "at_code pf ?k3 c (TakeFirst sl # [Release (LockAt ?l)]) (CodeF ss # us)"
      by (rule at_code_step [OF assms(1) k2(2) s3]) (use at_codeD(2) [OF k2(2)] in simp_all)
    have r3: "runs pf k ?k3" by (rule runs_trans [OF r2 runs1 [OF s3]])
    note t = take_step [OF k3, of SL x xs]
    show ?thesis
    proof (cases "x = NULL")
      case True
      with runs_end [OF r3] t Cons k2(3,5) show ?thesis by fastforce
    next
      case False
      with t Cons k2 obtain k4 where
        k4: "step pf ?k3 = Inr k4" "at_code pf k4 c [Release (LockAt ?l)] (CodeF ss # us)"
          "queue k4 (SynchQ sl) = xs" "locks k4 ?l = Some (L\<lparr>held := 1\<rparr>)"
          "history k4 = history k @ [EvAcquire ?l c, EvTake sl x]" by (auto simp: Let_def)
      from synch_release_return [OF assms(1) k4(2,4)] k4 obtain k5 where
        "runs pf k4 k5" "at_code pf k5 c ss us" "queue k5 (SynchQ sl) = xs"
        "map_option held (locks k5 ?l) = Some 0"
        "history k5 = history k @ [EvAcquire ?l c, EvTake sl x, EvRelease ?l c]" by auto
      moreover from this have "runs pf k k5" using r3 k4(1) by (blast intro: runs_trans runs1)
      ultimately show ?thesis using Cons False by auto
    qed
  qed
qed

theorem synchlist_remove_witness:
  "(\<exists>n k'. run plain_machine n (solo 0 [SynchRemove 8]) = (k', Some (AssertionFailed ''synch.cc'' 144)))"
proof -
  have "locks (solo 0 ss) (sl_lock \<lparr>sl_list = 9, sl_lock = 4, sl_listEmpty = 1\<rparr>) =
      Some \<lparr>lock_name = CLiteral ''l'', held = 0, lock_queue = 5\<rparr>" for ss by simp
  from synchlist_remove [OF plain_machine_ok solo_at_code [of 0 "[SynchRemove 8]"] solo_simps(5) this] show ?thesis
    by (auto simp: solo_queue)
qed

section \<open>Construction and destruction\<close>

text \<open>
  A new semaphore has the given value and no waiters; deleting it again leaves the lists and
  the other semaphores as they were before it was made.
\<close>

theorem semaphore_new_delete:
  assumes "wf k" and "new_Semaphore nm v k = (s, k1)"
  shows "map_option sem_value (semaphores k1 s) = Some v \<and> queue k1 (SemQ s) = [] \<and>
    semaphores k s = None \<and>
    (\<exists>h. delete_Semaphore s k1 = Some (Inr (k\<lparr>heap := h\<rparr>)) \<and> heap_ok h \<and>
      lists_of h = lists_of (heap k))"
proof -
  let ?h1 = "heap k\<lparr>fresh := Suc (fresh (heap k))\<rparr>"
  obtain q h2 where q: "new_List ?h1 = (q, h2)" by fastforce
  note a = alloc_spec [OF wfD(1) [OF assms(1)]]
  note n = new_List_spec [OF a(1) q]
  have k1: "s = fresh (heap k)" "k1 = k\<lparr>heap := h2, semaphores := (semaphores k)(s \<mapsto>
      \<lparr>sem_name = nm, sem_value = v, sem_queue = q\<rparr>)\<rparr>"
    using assms(2) q by (auto simp: new_Semaphore_def alloc_def)
  have new: "semaphores k s = None"
    using wf_fresh_owner [OF assms(1), of "SemQ s"] k1(1) by fastforce
  have "lists_of h2 q = Some []" using n(4) by simp
  from delete_List_spec [OF n(1) this] obtain h3 where
    h3: "delete_List q h2 = Some (Inr h3)" "heap_ok h3" "lists_of h3 = (lists_of h2)(q := None)" by auto
  have "lists_of h3 = lists_of (heap k)" using h3(3) n(3,4) a(2) by (auto simp: fun_eq_iff)
  with h3 k1 new n(4) show ?thesis
    by (auto simp: delete_Semaphore_def queue_def fun_upd_idem)
qed

theorem semaphore_new_delete_witness:
  "\<exists>s k1 h. new_Semaphore ''s'' 3 (solo 0 []) = (s, k1) \<and> map_option sem_value (semaphores k1 s) = Some 3 \<and>
     delete_Semaphore s k1 = Some (Inr ((solo 0 [])\<lparr>heap := h\<rparr>))"
proof -
  have wf: "wf (solo 0 [])" using solo_kinv(1) [of 0 "[]"] by (simp only: kinv_def)
  obtain s k1 where n: "new_Semaphore ''s'' 3 (solo 0 []) = (s, k1)" by fastforce
  from semaphore_new_delete [OF wf n] n show ?thesis by auto
qed

text \<open>
  \<open>SynchList\<close>s cannot be destroyed. \<open>~SynchList\<close> deletes the lock, whose destructor applies
  \<open>delete\<close> to its name, and the name every \<open>SynchList\<close> gives its lock is a string literal.
\<close>

theorem synchlist_delete_undefined:
  assumes "wf k" and "synchlists k sl = Some SL" and "locks k (sl_lock SL) = Some L"
    and "lock_name L = CLiteral nm"
  shows "delete_SynchList sl k = Some (Inl BadDelete) \<and>
    (case new_SynchList k of (sl', k') \<Rightarrow> \<exists>SL' L'. synchlists k' sl' = Some SL' \<and>
       locks k' (sl_lock SL') = Some L' \<and> lock_name L' = CLiteral ''list lock'')"
proof
  from wf_queueE [OF assms(1), of "SynchQ sl" "sl_list SL"] assms(2) obtain es where
    es: "heap_ok (heap k)" "lists_of (heap k) (sl_list SL) = Some es" by auto
  from List_destructor_spec [OF this] obtain h where "delete_List (sl_list SL) (heap k) = Some (Inr h)"
    by (auto simp: delete_List_def)
  then show "delete_SynchList sl k = Some (Inl BadDelete)"
    using assms(2-4) by (simp add: delete_SynchList_def delete_Lock_def delete_cstring_def)
qed (simp add: new_SynchList_def new_Lock_def new_Condition_def case_prod_unfold Let_def)

theorem synchlist_delete_undefined_witness:
  "delete_SynchList 8 (solo 0 []) = Some (Inl BadDelete)"
proof -
  have wf: "wf (solo 0 [])" using solo_kinv(1) [of 0 "[]"] by (simp only: kinv_def)
  show ?thesis using synchlist_delete_undefined [OF wf solo_simps(5)] by simp
qed

end
