(* ===== verification/SpecZombie.thy ===== *)
theory SpecZombie
  imports SpecSync
begin

text \<open>
  Finished threads that are never deleted: a thread that has finished, is not the one in
  \<open>threadToBeDestroyed\<close> and is not running stays as it is for ever. No queue holds it, so it is
  never woken, and only \<open>threadToBeDestroyed\<close> is ever deleted.
\<close>

definition zombie :: "ptr \<Rightarrow> astate \<Rightarrow> bool" where
  "zombie d a \<longleftrightarrow> d \<noteq> NULL \<and> ast a d = Some BLOCKED \<and> waits_for (afr a d) = None \<and>
     adst a \<noteq> d \<and> acur a \<noteq> d"

lemma zombie_not_queued:
  "ainv a \<Longrightarrow> zombie d a \<Longrightarrow> thread_queue ow \<Longrightarrow> d \<notin> set (aq a ow)"
  using ainvD(2) by (fastforce simp: zombie_def)

lemma zombie_neq_head:
  "ainv a \<Longrightarrow> zombie d a \<Longrightarrow> aq a ow = t # q \<Longrightarrow> thread_queue ow \<Longrightarrow> t \<noteq> d"
  using zombie_not_queued by fastforce

lemma quiet_zombie: "quiet a b \<Longrightarrow> ainv a \<Longrightarrow> zombie d a \<Longrightarrow> zombie d b"
proof (induction rule: quiet.induct)
  case (signal_wake a s v t q)
  from zombie_neq_head [OF signal_wake.prems signal_wake.hyps(2)] signal_wake.prems(2)
  show ?case by (simp add: zombie_def)
next
  case (release_wake a m v t q)
  from zombie_neq_head [OF release_wake.prems release_wake.hyps(2)] release_wake.prems(2)
  show ?case by (simp add: zombie_def)
qed (auto simp: zombie_def)

lemma switch_zombie: "switch a b \<Longrightarrow> ainv a \<Longrightarrow> zombie d a \<Longrightarrow> zombie d b"
proof (induction rule: switch.induct)
  case (dispatch a fs n q)
  from zombie_neq_head [OF dispatch.prems dispatch.hyps(2)] dispatch.prems(2)
  show ?case by (simp add: zombie_def)
next
  case (yield a n q l)
  from zombie_neq_head [OF yield.prems yield.hyps(2)] yield.prems(2)
  show ?case by (simp add: zombie_def)
qed

interpretation zombies: spec_invariant "zombie d" for d
  by unfold_locales (fact quiet_zombie, fact switch_zombie)

end
