(* ===== verification/ThreadProps.thy ===== *)
theory ThreadProps
  imports KernelProps CodeSteps SpecZombie
begin

text \<open>
  Properties of \<open>thread.cc\<close> and \<open>scheduler.cc\<close>: forking, the first run of a thread, yielding,
  sleeping, finishing, and the stack.
\<close>

section \<open>Forking\<close>

text \<open>
  C25: \<open>StackAllocate\<close> leaves a stack pointer inside the stack, the marker word in place and, on
  every host, the five values for \<open>ThreadRoot\<close> at their places in \<open>machineState\<close>, all inside that
  array and none overwriting another; on the i386 the word on top of the stack is \<open>ThreadRoot\<close>.
\<close>

theorem stack_allocate:
  assumes "threads k t = Some T"
  shows "\<exists>k' T' m. Thread_StackAllocate pf t func arg k = Inr k' \<and> threads k' = (threads k)(t \<mapsto> T') \<and>
    map (machineState T') (state_indices (host pf)) =
      map Some [addr_ThreadRoot pf, addr_InterruptEnable pf, func, arg, addr_ThreadFinish pf] \<and>
    distinct (state_indices (host pf)) \<and> (\<forall>i \<in> set (state_indices (host pf)). i < MachineStateSize) \<and>
    (\<exists>top. stackTop T' = Some top \<and> 0 < top \<and> top < StackSize - 1 \<and> stack T' = Some m \<and>
      m (fencepost_index (host pf)) = Some STACK_FENCEPOST \<and>
      (host pf = HOST_i386 \<longrightarrow> m top = Some (addr_ThreadRoot pf)))"
proof -
  obtain blk m0 where blk: "AllocBoundedArray pf (StackSize * 4) (interrupt k) = (blk, m0)" by fastforce
  obtain top m where b: "init_stack (host pf) (addr_ThreadRoot pf) blk = (top, m)" by fastforce
  have top: "0 < top" "top < StackSize - 1" "m (fencepost_index (host pf)) = Some STACK_FENCEPOST"
    "host pf = HOST_i386 \<longrightarrow> m top = Some (addr_ThreadRoot pf)"
    using b by (auto simp: init_stack_def fencepost_index_def StackSize_def Let_def split: host.splits)
  let ?T = "T\<lparr>stackTop := Some top, stack := Some m, machineState := (machineState T)
      (PCState (host pf) \<mapsto> addr_ThreadRoot pf, StartupPCState (host pf) \<mapsto> addr_InterruptEnable pf,
       InitialPCState (host pf) \<mapsto> func, InitialArgState (host pf) \<mapsto> arg,
       WhenDonePCState (host pf) \<mapsto> addr_ThreadFinish pf)\<rparr>"
  show ?thesis
    by (rule exI [of _ "k\<lparr>interrupt := m0, threads := (threads k)(t \<mapsto> ?T), frames := (frames k)(t := [RootF])\<rparr>"],
        rule exI [of _ ?T], rule exI [of _ m])
      (use assms blk b top state_indices_distinct [of "host pf"] state_indices_bound [of "host pf"]
        in \<open>simp add: Thread_StackAllocate_def state_indices_def\<close>)
qed

theorem stack_allocate_witness:
  "\<exists>k' T'. Thread_StackAllocate plain_machine 3 10 7 (solo 0 []) = Inr k' \<and> threads k' 3 = Some T' \<and>
     map (machineState T') (state_indices HOST_i386) = map Some [1, 2, 10, 7, 3]"
proof -
  have "threads (solo 0 []) 3 = Some first_thread" by (simp add: solo_def)
  from stack_allocate [OF this, of plain_machine 10 7] show ?thesis by (auto simp: plain_machine_def)
qed

text \<open>
  C24: \<open>Fork\<close> of a new thread: the thread object is new, the thread is \<open>READY\<close> at the end of the
  ready list with its procedure and argument stored, and the caller goes on at the interrupt
  level it had; no other thread is affected.
\<close>

theorem fork_makes_ready:
  assumes "platform_ok pf" and "kinv pf k" and "user_frames (frames k (currentThread k))"
  shows "\<exists>k' t T. exec_stmt pf (ForkNew nm func arg) k = Inr k' \<and> kinv pf k' \<and>
    threads k t = None \<and> threads k' = (threads k)(t \<mapsto> T) \<and> status T = READY \<and> thread_name T = nm \<and>
    machineState T (InitialPCState (host pf)) = Some func \<and>
    machineState T (InitialArgState (host pf)) = Some arg \<and>
    frames k' = (frames k)(t := [RootF]) \<and> queue k' = (queue k)(ReadyQ := queue k ReadyQ @ [t]) \<and>
    currentThread k' = currentThread k \<and> getLevel pf (interrupt k') = getLevel pf (interrupt k)"
proof -
  let ?t = "fresh (heap k)"
  from ForkNew_ok [OF assms, of nm func arg] obtain T h m where
    "exec_stmt pf (ForkNew nm func arg) k = Inr (k\<lparr>frames := (frames k)(?t := [RootF]),
        threads := (threads k)(?t \<mapsto> T), heap := h, interrupt := m\<rparr>)"
    "threads k ?t = None" "status T = READY" "thread_name T = nm"
    "machineState T (InitialPCState (host pf)) = Some func"
    "machineState T (InitialArgState (host pf)) = Some arg"
    "getLevel pf m = getLevel pf (interrupt k)"
    "queue (k\<lparr>frames := (frames k)(?t := [RootF]), threads := (threads k)(?t \<mapsto> T), heap := h, interrupt := m\<rparr>) =
      (queue k)(ReadyQ := queue k ReadyQ @ [?t])"
    "kinv pf (k\<lparr>frames := (frames k)(?t := [RootF]), threads := (threads k)(?t \<mapsto> T), heap := h, interrupt := m\<rparr>)"
    by (auto simp: Let_def simp del: exec_stmt.simps)
  then show ?thesis
    by (intro exI [of _ "k\<lparr>frames := (frames k)(?t := [RootF]), threads := (threads k)(?t \<mapsto> T), heap := h,
        interrupt := m\<rparr>"] exI [of _ ?t] exI [of _ T]) (simp del: exec_stmt.simps)
qed

theorem fork_makes_ready_witness:
  "\<exists>k' t. exec_stmt plain_machine (ForkNew ''t'' 10 1) (solo 0 []) = Inr k' \<and> queue k' ReadyQ = [t] \<and>
     map_option status (threads k' t) = Some READY"
  using fork_makes_ready [OF plain_machine_ok solo_kinv(1), of 0 "[]" "''t''" 10 1]
  by (auto simp: solo_queue simp del: exec_stmt.simps)

text \<open>
  The first run of a forked thread: interrupts are enabled, then the procedure it was forked
  with is called with its argument, and \<open>ThreadFinish\<close> is called when that returns.
\<close>

theorem new_thread_runs:
  assumes "platform_ok pf" and "kinv pf k" and "frames k (currentThread k) = [RootF]"
    and "threads k (currentThread k) = Some T"
    and "machineState T (InitialPCState (host pf)) = Some func"
    and "machineState T (InitialArgState (host pf)) = Some arg"
    and "func \<noteq> addr_InterruptEnable pf" and "func \<noteq> addr_ThreadFinish pf"
  shows "\<exists>k'. runs pf k k' \<and> kinv pf k' \<and> currentThread k' = currentThread k \<and>
    frames k' (currentThread k) = [CodeF (program pf func arg), CallF (addr_ThreadFinish pf) 0] \<and>
    getLevel pf (interrupt k') = IntOn \<and> queue k' ReadyQ = queue k ReadyQ \<and>
    threadToBeDestroyed k' = threadToBeDestroyed k"
proof -
  have "view pf k (currentThread k) [RootF] (queue k ReadyQ) (threadToBeDestroyed k) (printed k)"
    using assms(2,3) by (simp add: view_def)
  moreover have "forked pf k (currentThread k) func arg" using assms(4-6) by (simp add: forked_def)
  ultimately show ?thesis using root_steps [OF assms(1) _ _ assms(7,8)] by (fastforce simp: view_def)
qed

lemma fork_then_finish:
  assumes pf: "platform_ok pf" and us: "user_frames us"
    and v: "view pf k c (CodeF (ForkNew nm func arg # CurrentFinish # ss) # us) [] d out"
  shows "\<exists>k' t. runs pf k k' \<and> view pf k' t [RootF] [] c out \<and> t \<noteq> c \<and> forked pf k' t func arg"
proof -
  from fork_step [OF pf us v] obtain k1 t where k1: "step pf k = Inr k1"
    "view pf k1 c (CodeF (CurrentFinish # ss) # us) [t] d out" "t \<noteq> c" "frames k1 t = [RootF]"
    "forked pf k1 t func arg" by auto
  from finish_step [OF pf us k1(2)] obtain k2 where k2: "step pf k1 = Inr k2"
    "view pf k2 c (SleepF # CodeF ss # us) [t] c out" "others c k1 k2" by blast
  from dispatch_step [OF pf k2(2) k1(3)] obtain k3 where k3: "step pf k2 = Inr k3"
    "view pf k3 t (frames k2 t) [] c out" "others c k2 k3" by blast
  have "frames k2 t = [RootF]" using k2(3) k1(3,4) by (simp add: others_def spares_def)
  moreover have "forked pf k3 t func arg"
    using others_forked [OF k3(3) k1(3)] others_forked [OF k2(3) k1(3)] k1(5) by blast
  moreover have "runs pf k k3" by (rule runs_step [OF k1(1) runs_step [OF k2(1) runs1 [OF k3(1)]]])
  ultimately show ?thesis using k3(2) k1(3) by auto
qed

lemma solo_view: "view plain_machine (solo v ss) 3 [CodeF ss] [] NULL []"
  using solo_kinv(1) by (simp add: view_def solo_queue) (simp add: solo_def)

theorem new_thread_runs_witness:
  "\<exists>k t. view plain_machine k t [RootF] [] 3 [] \<and> (\<exists>k'. runs plain_machine k k' \<and>
    frames k' t = [CodeF (SimpleThread 1), CallF 3 0])"
proof -
  from fork_then_finish [OF plain_machine_ok _ solo_view [of 0 "[ForkNew ''t'' 10 1, CurrentFinish]"]]
  obtain k t where k: "view plain_machine k t [RootF] [] 3 []" "forked plain_machine k t 10 1" by auto
  from k(2) obtain T where T: "threads k t = Some T"
    "machineState T (InitialPCState (host plain_machine)) = Some 10"
    "machineState T (InitialArgState (host plain_machine)) = Some 1" by (auto simp: forked_def)
  have c: "currentThread k = t" "kinv plain_machine k" "frames k (currentThread k) = [RootF]"
    "threads k (currentThread k) = Some T" using k(1) T(1) by (simp_all add: view_def)
  have "program plain_machine 10 1 = SimpleThread 1" "addr_ThreadFinish plain_machine = 3"
    "addr_InterruptEnable plain_machine = 2"
    by (simp_all add: plain_machine_def test_program_def)
  with new_thread_runs [OF plain_machine_ok c(2-4) T(2,3)] c(1) k(1) show ?thesis by auto
qed

section \<open>Yielding and sleeping\<close>

text \<open>
  \<open>Yield\<close>. With an empty ready list it returns with nothing changed but the interrupt state,
  whose level is as before. Otherwise the caller goes to the end of the ready list, and the first
  thread of that list runs; the interrupt level to restore is kept for when the caller resumes.
\<close>

theorem thread_yield:
  assumes "platform_ok pf" and "kinv pf k" and "user_frames (frames k (currentThread k))"
  shows "\<exists>k'. Thread_Yield pf (currentThread k) k = Inr k' \<and> kinv pf k' \<and>
    (case queue k ReadyQ of
       [] \<Rightarrow> k' = k\<lparr>interrupt := interrupt k'\<rparr> \<and> getLevel pf (interrupt k') = getLevel pf (interrupt k)
     | n # q \<Rightarrow> n \<noteq> currentThread k \<and> currentThread k' = n \<and>
         queue k' = (queue k)(ReadyQ := q @ [currentThread k]) \<and>
         map_option status (threads k' n) = Some RUNNING \<and>
         map_option status (threads k' (currentThread k)) = Some READY \<and>
         frames k' = (frames k)(currentThread k :=
           RunF # YieldF (getLevel pf (interrupt k)) # frames k (currentThread k)))"
proof (cases "queue k ReadyQ")
  case Nil
  with Yield_alone [OF assms Nil] show ?thesis by auto
next
  case (Cons n q)
  with Yield_switch [OF assms Cons] show ?thesis by (auto simp: Let_def)
qed

theorem thread_yield_witness:
  "\<exists>k'. Thread_Yield plain_machine 3 (solo 0 []) = Inr k' \<and> k' = (solo 0 [])\<lparr>interrupt := interrupt k'\<rparr>"
  using thread_yield [OF plain_machine_ok solo_kinv(1), of 0 "[]"] by (auto simp: solo_queue)

text \<open>
  The loop of \<open>Sleep\<close>. The first thread of the ready list is taken off it and runs; when the
  list is empty and no interrupt is pending, the machine halts.
\<close>

theorem sleep_dispatches:
  assumes "platform_ok pf" and "kinv pf k" and "frames k (currentThread k) = SleepF # fs"
  shows "case queue k ReadyQ of
      [] \<Rightarrow> Idle pf (interrupt k) = None \<longrightarrow> step pf k = Inl Halted
    | n # q \<Rightarrow> \<exists>k'. step pf k = Inr k' \<and> kinv pf k' \<and> currentThread k' = n \<and>
        queue k' = (queue k)(ReadyQ := q) \<and> map_option status (threads k' n) = Some RUNNING \<and>
        frames k' = (frames k)(currentThread k := RunF # fs)"
proof (cases "queue k ReadyQ")
  case Nil
  with step_safe [OF assms(1,2)] assms(3) show ?thesis by (auto simp: halting_def)
next
  case (Cons n q)
  let ?c = "currentThread k" and ?k1 = "k\<lparr>frames := (frames k)(currentThread k := fs)\<rparr>"
  have inv: "inv pf (queue k) (threads k) (frames k) ?c (threadToBeDestroyed k) (getLevel pf (interrupt k))"
    using assms(2) by (simp add: kinv_def)
  have res: "resumable fs" using invD(6) [OF inv] assms(3) by (auto simp: running_def)
  have k1: "kinvF pf ((frames ?k1)(currentThread ?k1 := SleepF # fs)) ?k1"
    using assms(2) by (simp add: kinv_kinvF fun_upd_idem assms(3))
  have step: "step pf k = Sleep_loop pf ?k1" using assms(3) by (simp add: step_def pop_def)
  from Sleep_dispatch [OF k1 _ res, of n q] Cons step show ?thesis by (auto simp: Let_def)
qed

theorem sleep_dispatches_witness:
  "\<exists>k. step plain_machine k = Inl Halted \<and> map_option status (threads k 3) = Some BLOCKED"
proof -
  from finish_step [OF plain_machine_ok _ solo_view [of 0 "[CurrentFinish]"]] obtain k where
    k: "step plain_machine (solo 0 [CurrentFinish]) = Inr k"
    "view plain_machine k 3 (SleepF # [CodeF []]) [] 3 []" by auto
  then have v: "kinv plain_machine k" "frames k (currentThread k) = SleepF # [CodeF []]"
    "queue k ReadyQ = []" "currentThread k = 3" "threadToBeDestroyed k = 3" by (simp_all add: view_def)
  have "\<exists>T. threads k 3 = Some T \<and> status T = BLOCKED"
    using v(1,5) invD(7) by (fastforce simp: kinv_def)
  moreover have "step plain_machine k = Inl Halted"
    using sleep_dispatches [OF plain_machine_ok v(1,2)] v(3) by (simp add: plain_machine_def)
  ultimately show ?thesis by auto
qed

section \<open>Finishing\<close>

text \<open>
  A thread finishes by calling \<open>Finish\<close> (the main thread) or by returning from its procedure into
  \<open>ThreadFinish\<close>.
\<close>

definition finishing :: "'m platform \<Rightarrow> 'm kernel \<Rightarrow> ptr \<Rightarrow> bool" where
  "finishing pf k c \<longleftrightarrow> kinv pf k \<and> currentThread k = c \<and>
     (\<exists>us. user_frames us \<and> ((\<exists>ss. frames k c = CodeF (CurrentFinish # ss) # us) \<or>
       addr_ThreadFinish pf \<noteq> addr_InterruptEnable pf \<and> frames k c = CallF (addr_ThreadFinish pf) 0 # us))"

lemma finishing_step:
  assumes pf: "platform_ok pf" and f: "finishing pf k c"
  shows "\<exists>k' us. step pf k = Inr k' \<and>
    view pf k' c (SleepF # us) (queue k ReadyQ) c (printed k) \<and> others c k k' \<and>
    (\<forall>t. t \<noteq> c \<longrightarrow> threads k' t = threads k t)"
proof -
  from f obtain us where k: "kinv pf k" "currentThread k = c" "user_frames us" and
    fr: "(\<exists>ss. frames k c = CodeF (CurrentFinish # ss) # us) \<or>
      addr_ThreadFinish pf \<noteq> addr_InterruptEnable pf \<and> frames k c = CallF (addr_ThreadFinish pf) 0 # us"
    by (auto simp: finishing_def)
  have v: "view pf k c (frames k c) (queue k ReadyQ) (threadToBeDestroyed k) (printed k)"
    using k by (simp add: view_def)
  from fr show ?thesis
  proof (elim disjE exE conjE)
    fix ss assume "frames k c = CodeF (CurrentFinish # ss) # us"
    with finish_step [OF pf k(3), of k c ss] v show ?thesis by fastforce
  next
    assume "addr_ThreadFinish pf \<noteq> addr_InterruptEnable pf" "frames k c = CallF (addr_ThreadFinish pf) 0 # us"
    with call_finish_step [OF pf k(3), of k c] v show ?thesis by fastforce
  qed
qed

lemma finishing_facts:
  assumes "finishing pf k c"
  shows "c \<noteq> NULL" and "c \<notin> set (queue k ReadyQ)"
proof -
  have k: "kinv pf k" "currentThread k = c" "user_frames (frames k (currentThread k))"
    using assms by (auto simp: finishing_def)
  from user_current [OF k(1,3)] obtain C where C: "threads k c = Some C" "status C = RUNNING"
    using k(2) by auto
  show "c \<noteq> NULL" using wf_not_NULL [OF _ C(1)] k(1) by (simp add: kinv_def)
  show "c \<notin> set (queue k ReadyQ)" using kinv_placement(2) [OF k(1), of c] C by simp
qed

text \<open>
  C26: A thread that finishes is deleted by the next thread, when that resumes after its own call of
  \<open>SWITCH\<close>: three steps later that thread runs, and the finished thread is gone and on no queue.
\<close>

theorem finished_thread_deleted:
  assumes "platform_ok pf" and "finishing pf k c"
    and "queue k ReadyQ = n # q" and "frames k n = RunF # fs"
  shows "\<exists>k'. run pf 3 k = (k', None) \<and> kinv pf k' \<and> currentThread k' = n \<and> frames k' n = fs \<and>
    queue k' ReadyQ = q \<and> threads k' c = None \<and> threadToBeDestroyed k' = NULL \<and>
    (\<forall>ow. thread_queue ow \<longrightarrow> c \<notin> set (queue k' ow))"
proof -
  have c: "c \<noteq> NULL" "n \<noteq> c" using finishing_facts [OF assms(2)] assms(3) by auto
  from finishing_step [OF assms(1,2)] assms(3) obtain k1 us where k1: "step pf k = Inr k1"
    "view pf k1 c (SleepF # us) (n # q) c (printed k)" "others c k k1" by auto
  from dispatch_step [OF assms(1) k1(2) c(2)] obtain k2 where k2: "step pf k1 = Inr k2"
    "view pf k2 n (frames k1 n) q c (printed k)" by blast
  have "frames k1 n = RunF # fs" using k1(3) c(2) assms(4) by (simp add: others_def spares_def)
  with k2(2) have v2: "view pf k2 n (RunF # fs) q c (printed k)" by simp
  from destroy_step [OF assms(1) v2 c(1)] obtain k3 where k3: "step pf k2 = Inr k3"
    "view pf k3 n fs q NULL (printed k)" "threads k3 c = None" by blast
  moreover have "c \<notin> set (queue k3 ow)" if "thread_queue ow" for ow
    using kinv_not_queued [of pf, OF _ k3(3) that] k3(2) by (simp add: view_def)
  ultimately show ?thesis using k1(1) k2(1)
    by (intro exI [of _ k3]) (simp add: view_def numeral_3_eq_3)
qed

lemma solo_fork_yield:
  "\<exists>k t l. finishing plain_machine k t \<and> queue k ReadyQ = [3] \<and> frames k 3 = RunF # YieldF l # [CodeF ss]"
proof -
  let ?ss = "ForkNew ''t'' 13 0 # CurrentYield # ss"
  from fork_step [OF plain_machine_ok _ solo_view [of 0 ?ss]] obtain k1 t where k1:
    "view plain_machine k1 3 (CodeF (CurrentYield # ss) # []) [t] NULL []" "t \<noteq> 3"
    "frames k1 t = [RootF]" "forked plain_machine k1 t 13 0" by auto
  from yield_step [OF plain_machine_ok k1(1)] obtain k2 l where k2:
    "view plain_machine k2 t [RootF] [3] NULL []" "frames k2 3 = RunF # YieldF l # [CodeF ss]"
    "others 3 k1 k2" using k1(3) by auto
  have a: "(13 :: word32) \<noteq> addr_InterruptEnable plain_machine" "13 \<noteq> addr_ThreadFinish plain_machine"
    "program plain_machine 13 0 = []" "addr_ThreadFinish plain_machine \<noteq> addr_InterruptEnable plain_machine"
    by (simp_all add: plain_machine_def test_program_def)
  from root_steps [OF plain_machine_ok k2(1) others_forked [OF k2(3) k1(2,4)] a(1,2)] a(3)
  obtain k3 where k3: "view plain_machine k3 t (CodeF [] # [CallF (addr_ThreadFinish plain_machine) 0]) [3] NULL []"
    "others t k2 k3" by auto
  from code_end_step [OF plain_machine_ok k3(1)] obtain k4 where
    k4: "view plain_machine k4 t [CallF (addr_ThreadFinish plain_machine) 0] [3] NULL []" "others t k3 k4" by blast
  have "frames k4 3 = RunF # YieldF l # [CodeF ss]" using k3(2) k4(2) k2(2) k1(2) by (simp add: others_def spares_def)
  moreover have "finishing plain_machine k4 t" using k4(1) a(4) by (auto simp: finishing_def view_def)
  ultimately show ?thesis using k4(1) by (auto simp: view_def)
qed

theorem finished_thread_deleted_witness:
  "\<exists>k k' t. finishing plain_machine k t \<and> run plain_machine 3 k = (k', None) \<and> threads k' t = None \<and>
     currentThread k' = 3"
proof -
  from solo_fork_yield [of "[]"] obtain k t l where k: "finishing plain_machine k t" "queue k ReadyQ = [3]"
    "frames k 3 = RunF # YieldF l # [CodeF []]" by blast
  from finished_thread_deleted [OF plain_machine_ok k] k(1) show ?thesis by blast
qed

text \<open>
  C27: But only \<open>Run\<close> deletes finished threads, and a new thread starts in \<open>ThreadRoot\<close>, not in
  \<open>Run\<close>: when a thread finishes and the next one has never run, and that one finishes before it
  ever resumes from \<open>SWITCH\<close>, \<open>threadToBeDestroyed\<close> is overwritten, and the thread that was there
  before is never deleted.
\<close>

theorem finished_thread_leaks:
  assumes "platform_ok pf" and "finishing pf k c" and "threadToBeDestroyed k = d" and "d \<noteq> NULL"
    and "step pf k = Inr k1" and "reachable pf k1 k2"
  shows "map_option status (threads k2 d) = Some BLOCKED \<and> d \<noteq> currentThread k2 \<and>
    d \<noteq> threadToBeDestroyed k2"
proof -
  have k: "kinv pf k" "currentThread k = c" "user_frames (frames k c)"
    using assms(2) by (auto simp: finishing_def)
  have inv: "inv pf (queue k) (threads k) (frames k) c d (getLevel pf (interrupt k))"
    using k assms(3) by (simp add: kinv_def)
  from invD(7) [OF inv assms(4)] obtain D where D: "threads k d = Some D" "status D = BLOCKED"
    "waits_for (frames k d) = None" by blast
  obtain C where "threads k c = Some C" "status C = RUNNING" using inv_user_current [OF inv k(3)] by blast
  then have dc: "d \<noteq> c" using D by auto
  from finishing_step [OF assms(1,2)] assms(5) obtain us where
    k1: "view pf k1 c (SleepF # us) (queue k ReadyQ) c (printed k)" "others c k k1" "threads k1 d = threads k d" using dc by auto
  have "zombie d (abs_of k1)"
    using k1 dc D assms(4)
    by (auto simp: zombie_def abs_of_def view_def others_def spares_def abs_fun_apply)
  moreover have "kinv pf k1" using k1(1) by (simp add: view_def)
  ultimately have "zombie d (abs_of k2)" using zombies.reach [OF assms(1) _ _ assms(6)] by blast
  then show ?thesis by (auto simp: zombie_def abs_of_def abs_fun_apply)
qed

theorem finished_thread_leaks_witness:
  "\<exists>k k1. step plain_machine k = Inr k1 \<and> threadToBeDestroyed k = 3 \<and> threadToBeDestroyed k1 \<noteq> 3 \<and>
     map_option status (threads k1 3) = Some BLOCKED"
proof -
  from fork_then_finish [OF plain_machine_ok _ solo_view [of 0 "[ForkNew ''t'' 13 0, CurrentFinish]"]]
  obtain k t where k: "view plain_machine k t [RootF] [] 3 []" "forked plain_machine k t 13 0" by auto
  have a: "(13 :: word32) \<noteq> addr_InterruptEnable plain_machine" "13 \<noteq> addr_ThreadFinish plain_machine"
    "program plain_machine 13 0 = []" "addr_ThreadFinish plain_machine \<noteq> addr_InterruptEnable plain_machine"
    by (simp_all add: plain_machine_def test_program_def)
  from root_steps [OF plain_machine_ok k a(1,2)] a(3) obtain k3 where
    k3: "view plain_machine k3 t (CodeF [] # [CallF (addr_ThreadFinish plain_machine) 0]) [] 3 []" by auto
  from code_end_step [OF plain_machine_ok k3] obtain k4 where
    k4: "view plain_machine k4 t [CallF (addr_ThreadFinish plain_machine) 0] [] 3 []" by blast
  have f: "finishing plain_machine k4 t" "threadToBeDestroyed k4 = 3" "(3 :: ptr) \<noteq> NULL"
    using k4 a(4) by (auto simp: finishing_def view_def)
  from finishing_step [OF plain_machine_ok f(1)] obtain k5 where k5: "step plain_machine k4 = Inr k5" by blast
  from finished_thread_leaks [OF plain_machine_ok f k5 reach_init] k5 f(2) show ?thesis by metis
qed

section \<open>Stack overflow and printing\<close>

text \<open>
  Overflow check. When the marker word of the running thread's stack is overwritten, \<open>Run\<close> stops
  with the assertion of \<open>CheckOverflow\<close> before it changes anything; when it is intact, \<open>Run\<close> makes
  the next thread the running one and switches to it.
\<close>

theorem overflow_detected:
  assumes "threads k (currentThread k) = Some C" and "stack C = Some m" and "threads k n = Some T"
  shows "Scheduler_Run pf n k =
    (if m (fencepost_index (host pf)) = Some STACK_FENCEPOST
     then Inr (SWITCH (currentThread k) n
       (k\<lparr>currentThread := n, threads := (threads k)(n \<mapsto> T\<lparr>status := RUNNING\<rparr>)\<rparr>))
     else Inl (AssertionFailed ''thread.cc'' (if host pf = HOST_SNAKE then 121 else 123)))"
  using assms
  by (cases "host pf")
     (auto simp: Scheduler_Run_def Thread_CheckOverflow_def assertE_def fencepost_index_def setStatus_def
       SWITCH_def Let_def)

theorem overflow_detected_witness:
  "Scheduler_Run plain_machine 3 ((solo 0 [])\<lparr>threads := [3 \<mapsto> first_thread\<lparr>stack := Some Map.empty\<rparr>]\<rparr>) =
     Inl (AssertionFailed ''thread.cc'' 123)"
proof -
  let ?k = "(solo 0 [])\<lparr>threads := [3 \<mapsto> first_thread\<lparr>stack := Some Map.empty\<rparr>]\<rparr>"
  have "threads ?k (currentThread ?k) = Some (first_thread\<lparr>stack := Some Map.empty\<rparr>)"
    "stack (first_thread\<lparr>stack := Some Map.empty\<rparr>) = Some Map.empty"
    "threads ?k 3 = Some (first_thread\<lparr>stack := Some Map.empty\<rparr>)" by simp_all
  from overflow_detected [OF this, of plain_machine] show ?thesis by (simp add: plain_machine_def)
qed

text \<open>
  \<open>Scheduler::Print\<close> returns in every reachable state; it prints the names of the threads on the
  ready list in their order, after a heading, and changes nothing else.
\<close>

theorem scheduler_print:
  assumes "kinv pf k"
  shows "Scheduler_Print k = Some (Inr (k\<lparr>printed := printed k @ (''Ready list contents:'' @ newline) #
    map (\<lambda>t. thread_name (the (threads k t)) @ '', '') (queue k ReadyQ)\<rparr>))"
proof -
  let ?g = "\<lambda>t out. out @ [thread_name (the (threads k t)) @ '', '']"
  have wf: "wf k" using assms by (simp add: kinv_def)
  from wf_queueE [OF wf, of ReadyQ "readyList k"] obtain es where
    es: "heap_ok (heap k)" "lists_of (heap k) (readyList k) = Some es" "queue k ReadyQ = map snd es" by auto
  have live: "threads k t \<noteq> None" if "t \<in> set (queue k ReadyQ)" for t
    using kinv_placement(2) [OF assms, of t] that by auto
  have tp: "ThreadPrint (threads k) t (heap k, out) = Inr (heap k, ?g t out)" if "t \<in> snd ` set es" for t out
    using live [of t] es(3) that by (auto simp: ThreadPrint_def)
  have m: "List_Mapcar (readyList k) (ThreadPrint (threads k)) (heap k, out) =
      Some (Inr (heap k, fold ?g (queue k ReadyQ) out))" for out
    using List_Mapcar_spec [of "heap k" "readyList k" es "ThreadPrint (threads k)" ?g out] es(1,2) tp
    by (simp add: es(3))
  have f: "fold ?g ts out = out @ map (\<lambda>t. thread_name (the (threads k t)) @ '', '') ts" for ts out
    by (induction ts arbitrary: out) simp_all
  show ?thesis by (simp add: Scheduler_Print_def printf_def m f newline_def Let_def)
qed

theorem scheduler_print_witness:
  "Scheduler_Print (solo 0 []) = Some (Inr ((solo 0 [])\<lparr>printed := [''Ready list contents:'' @ newline]\<rparr>))"
  using scheduler_print [OF solo_kinv(1), of 0 "[]"] by (simp add: solo_queue) (simp add: solo_def)

end
