(* ===== verification/I386Switch.thy ===== *)
theory I386Switch
  imports SwitchConstants
begin

text \<open>
  \<open>switch.s\<close> and \<open>swtch.s\<close> for the i386: \<open>SWITCH\<close> and \<open>ThreadRoot\<close>, instruction by
  instruction, on a machine with eight registers and word-addressed memory (all accesses of the
  code are aligned words). \<open>switch_round_trip\<close> is what \<open>Scheduler::Run\<close> relies on.
\<close>

section \<open>The machine\<close>

datatype reg = EAX | EBX | ECX | EDX | ESI | EDI | EBP | ESP

record cpu =
  regs :: "reg \<Rightarrow> 32 word"
  mem :: "32 word \<Rightarrow> 32 word"
  eip :: "32 word"
  calls :: "(32 word \<times> 32 word) list"

datatype operand = R reg | M "32 word" reg | A "32 word"

datatype instr = Movl operand operand | Pushl reg | Popl reg | CallR reg | Ret

fun address :: "operand \<Rightarrow> cpu \<Rightarrow> 32 word" where
  "address (R r) s = 0"
| "address (M d r) s = regs s r + d"
| "address (A a) s = a"

fun load :: "operand \<Rightarrow> cpu \<Rightarrow> 32 word" where
  "load (R r) s = regs s r"
| "load x s = mem s (address x s)"

fun store :: "operand \<Rightarrow> 32 word \<Rightarrow> cpu \<Rightarrow> cpu" where
  "store (R r) v s = s\<lparr>regs := (regs s)(r := v)\<rparr>"
| "store x v s = s\<lparr>mem := (mem s)(address x s := v)\<rparr>"

text \<open>
  \<open>callee a\<close> is the effect of the procedure at address \<open>a\<close> from its call to its return;
  \<open>calls\<close> records each call with the word on top of the stack, its first argument.
\<close>

fun exec_instr :: "(32 word \<Rightarrow> cpu \<Rightarrow> cpu) \<Rightarrow> instr \<Rightarrow> cpu \<Rightarrow> cpu" where
  "exec_instr callee (Movl src dst) s = store dst (load src s) s"
| "exec_instr callee (Pushl r) s =
     s\<lparr>regs := (regs s)(ESP := regs s ESP - 4), mem := (mem s)(regs s ESP - 4 := regs s r)\<rparr>"
| "exec_instr callee (Popl r) s =
     s\<lparr>regs := (regs s)(ESP := regs s ESP + 4, r := mem s (regs s ESP))\<rparr>"
| "exec_instr callee (CallR r) s =
     callee (regs s r) (s\<lparr>calls := calls s @ [(regs s r, mem s (regs s ESP))]\<rparr>)"
| "exec_instr callee Ret s =
     s\<lparr>eip := mem s (regs s ESP), regs := (regs s)(ESP := regs s ESP + 4)\<rparr>"

fun exec :: "(32 word \<Rightarrow> cpu \<Rightarrow> cpu) \<Rightarrow> instr list \<Rightarrow> cpu \<Rightarrow> cpu" where
  "exec callee [] s = s"
| "exec callee (i # is) s = exec callee is (exec_instr callee i s)"

section \<open>The code\<close>

definition off :: "i386_reg \<Rightarrow> 32 word" where
  "off r = of_nat (i386_offset r)"

definition SWITCH_save :: "32 word \<Rightarrow> instr list" where
  "SWITCH_save eax_save =
     [Movl (R EAX) (A eax_save),
      Movl (M 4 ESP) (R EAX),
      Movl (R EBX) (M (off X_EBX) EAX),
      Movl (R ECX) (M (off X_ECX) EAX),
      Movl (R EDX) (M (off X_EDX) EAX),
      Movl (R ESI) (M (off X_ESI) EAX),
      Movl (R EDI) (M (off X_EDI) EAX),
      Movl (R EBP) (M (off X_EBP) EAX),
      Movl (R ESP) (M (off X_ESP) EAX),
      Movl (A eax_save) (R EBX),
      Movl (R EBX) (M (off X_EAX) EAX),
      Movl (M 0 ESP) (R EBX),
      Movl (R EBX) (M (off X_PC) EAX)]"

definition SWITCH_load :: "32 word \<Rightarrow> instr list" where
  "SWITCH_load eax_save =
     [Movl (M 8 ESP) (R EAX),
      Movl (M (off X_EAX) EAX) (R EBX),
      Movl (R EBX) (A eax_save),
      Movl (M (off X_EBX) EAX) (R EBX),
      Movl (M (off X_ECX) EAX) (R ECX),
      Movl (M (off X_EDX) EAX) (R EDX),
      Movl (M (off X_ESI) EAX) (R ESI),
      Movl (M (off X_EDI) EAX) (R EDI),
      Movl (M (off X_EBP) EAX) (R EBP),
      Movl (M (off X_ESP) EAX) (R ESP),
      Movl (M (off X_PC) EAX) (R EAX),
      Movl (R EAX) (M 4 ESP),
      Movl (A eax_save) (R EAX),
      Ret]"

definition SWITCH_code :: "32 word \<Rightarrow> instr list" where
  "SWITCH_code eax_save = SWITCH_save eax_save @ SWITCH_load eax_save"

text \<open>\<open>InitialArg\<close>, \<open>StartupPC\<close>, \<open>InitialPC\<close> and \<open>WhenDonePC\<close> are registers (\<open>switch.h\<close>).\<close>

definition InitialPC :: reg where "InitialPC = ESI"
definition InitialArg :: reg where "InitialArg = EDX"
definition WhenDonePC :: reg where "WhenDonePC = EDI"
definition StartupPC :: reg where "StartupPC = ECX"

definition ThreadRoot_code :: "instr list" where
  "ThreadRoot_code =
     [Pushl EBP, Movl (R ESP) (R EBP), Pushl InitialArg, CallR StartupPC, CallR InitialPC, CallR WhenDonePC,
      Movl (R EBP) (R ESP), Popl EBP, Ret]"

text \<open>\<open>swtch.s\<close>: the preprocessed text, with offsets and registers written out.\<close>

definition swtch_ThreadRoot :: "instr list" where
  "swtch_ThreadRoot =
     [Pushl EBP, Movl (R ESP) (R EBP), Pushl EDX, CallR ECX, CallR ESI, CallR EDI,
      Movl (R EBP) (R ESP), Popl EBP, Ret]"

definition swtch_SWITCH :: "32 word \<Rightarrow> instr list" where
  "swtch_SWITCH eax_save =
     [Movl (R EAX) (A eax_save), Movl (M 4 ESP) (R EAX),
      Movl (R EBX) (M 8 EAX), Movl (R ECX) (M 12 EAX), Movl (R EDX) (M 16 EAX), Movl (R ESI) (M 24 EAX),
      Movl (R EDI) (M 28 EAX), Movl (R EBP) (M 20 EAX), Movl (R ESP) (M 0 EAX),
      Movl (A eax_save) (R EBX), Movl (R EBX) (M 4 EAX), Movl (M 0 ESP) (R EBX), Movl (R EBX) (M 32 EAX),
      Movl (M 8 ESP) (R EAX), Movl (M 4 EAX) (R EBX), Movl (R EBX) (A eax_save),
      Movl (M 8 EAX) (R EBX), Movl (M 12 EAX) (R ECX), Movl (M 16 EAX) (R EDX), Movl (M 24 EAX) (R ESI),
      Movl (M 28 EAX) (R EDI), Movl (M 20 EAX) (R EBP), Movl (M 0 EAX) (R ESP),
      Movl (M 32 EAX) (R EAX), Movl (R EAX) (M 4 ESP), Movl (A eax_save) (R EAX), Ret]"

lemma swtch_is_switch: "swtch_SWITCH eax_save = SWITCH_code eax_save" "swtch_ThreadRoot = ThreadRoot_code"
  by (simp_all add: swtch_SWITCH_def swtch_ThreadRoot_def SWITCH_code_def SWITCH_save_def SWITCH_load_def
      ThreadRoot_code_def InitialArg_def StartupPC_def InitialPC_def WhenDonePC_def off_def)

definition run_SWITCH :: "32 word \<Rightarrow> cpu \<Rightarrow> cpu" where
  "run_SWITCH eax_save s = exec (\<lambda>a s. s) (SWITCH_code eax_save) s"

section \<open>Switching\<close>

definition slots :: "32 word \<Rightarrow> 32 word list" where
  "slots t = map (\<lambda>r. t + off r) [X_ESP, X_EAX, X_EBX, X_ECX, X_EDX, X_EBP, X_ESI, X_EDI, X_PC]"

text \<open>
  On entry \<open>4(esp)\<close> and \<open>8(esp)\<close> are the two threads. Nothing overlaps: the scratch variable, the
  two thread objects, the frame of the caller, and the top of the other thread's stack.
\<close>

definition switch_entry :: "32 word \<Rightarrow> cpu \<Rightarrow> 32 word \<Rightarrow> 32 word \<Rightarrow> bool" where
  "switch_entry eax_save s t1 t2 \<longleftrightarrow>
     mem s (regs s ESP + 4) = t1 \<and> mem s (regs s ESP + 8) = t2 \<and>
     list_all (\<lambda>a. a \<notin> set (slots t2)) (slots t1) \<and>
     list_all (\<lambda>a. a \<notin> set (slots t1) \<and> a \<notin> set (slots t2) \<and> a \<noteq> eax_save)
       [regs s ESP, regs s ESP + 4, regs s ESP + 8, mem s (t2 + off X_ESP), mem s (t2 + off X_ESP) + 4] \<and>
     eax_save \<notin> set (slots t1) \<and> eax_save \<notin> set (slots t2) \<and>
     mem s (t2 + off X_ESP) + 4 \<noteq> regs s ESP"

lemma exec_append: "exec callee (is @ js) s = exec callee js (exec callee is s)"
  by (induction "is" arbitrary: s) simp_all

text \<open>Offsets are kept opaque: the proofs only use that the addresses are distinct.\<close>

definition saved :: "32 word \<Rightarrow> 32 word \<Rightarrow> cpu \<Rightarrow> cpu" where
  "saved eax_save t1 s =
    s\<lparr>regs := (regs s)(EAX := t1, EBX := mem s (regs s ESP)),
      mem := (mem s)(eax_save := regs s EAX, t1 + off X_EBX := regs s EBX, t1 + off X_ECX := regs s ECX,
        t1 + off X_EDX := regs s EDX, t1 + off X_ESI := regs s ESI, t1 + off X_EDI := regs s EDI,
        t1 + off X_EBP := regs s EBP, t1 + off X_ESP := regs s ESP, t1 + off X_EAX := regs s EAX,
        t1 + off X_PC := mem s (regs s ESP))\<rparr>"

definition loaded :: "32 word \<Rightarrow> 32 word \<Rightarrow> cpu \<Rightarrow> cpu" where
  "loaded eax_save t2 s =
    s\<lparr>mem := (mem s)(eax_save := mem s (t2 + off X_EAX), mem s (t2 + off X_ESP) + 4 := mem s (t2 + off X_PC)),
      eip := mem s (mem s (t2 + off X_ESP)),
      regs := (regs s)(EBX := mem s (t2 + off X_EBX),
        ECX := mem s (t2 + off X_ECX), EDX := mem s (t2 + off X_EDX), ESI := mem s (t2 + off X_ESI),
        EDI := mem s (t2 + off X_EDI), EBP := mem s (t2 + off X_EBP), EAX := mem s (t2 + off X_EAX),
        ESP := mem s (t2 + off X_ESP) + 4)\<rparr>"

lemma slot_neq:
  assumes "a \<notin> set (slots t)"
  shows "t + off r \<noteq> a" and "a \<noteq> t + off r"
  using assms by (cases r; auto simp: slots_def)+

lemma save_result:
  assumes "mem s (regs s ESP + 4) = t1" and "eax_save \<notin> set (slots t1)"
    and "regs s ESP \<notin> set (slots t1)" and "regs s ESP \<noteq> eax_save" and "regs s ESP + 4 \<noteq> eax_save"
  shows "exec callee (SWITCH_save eax_save) s = saved eax_save t1 s"
  using assms(1,4,5) by (simp add: SWITCH_save_def slot_neq [OF assms(2)] slot_neq [OF assms(3)])
    (simp only: saved_def)

lemma load_result:
  assumes "mem s (regs s ESP + 8) = t2" and "eax_save \<notin> set (slots t2)"
    and "mem s (t2 + off X_ESP) \<noteq> eax_save" and "mem s (t2 + off X_ESP) + 4 \<noteq> eax_save"
    and "regs s ESP + 8 \<noteq> eax_save"
  shows "exec callee (SWITCH_load eax_save) s = loaded eax_save t2 s"
  using assms(1,3-5) by (simp add: SWITCH_load_def slot_neq [OF assms(2)]) (simp only: loaded_def)

lemma off_eq [simp]: "off r = off r' \<longleftrightarrow> r = r'"
  by (cases r; cases r'; simp add: off_def)

lemma off_in_slots [simp]: "t + off r \<in> set (slots t)"
  by (cases r) (simp_all add: slots_def)

text \<open>The value \<open>SWITCH\<close> saves for a register; for the program counter, the return address.\<close>

fun saved_value :: "i386_reg \<Rightarrow> cpu \<Rightarrow> 32 word" where
  "saved_value X_ESP s = regs s ESP"
| "saved_value X_EAX s = regs s EAX"
| "saved_value X_EBX s = regs s EBX"
| "saved_value X_ECX s = regs s ECX"
| "saved_value X_EDX s = regs s EDX"
| "saved_value X_EBP s = regs s EBP"
| "saved_value X_ESI s = regs s ESI"
| "saved_value X_EDI s = regs s EDI"
| "saved_value X_PC s = mem s (regs s ESP)"

lemma saved_slot: "mem (saved eax_save t1 s) (t1 + off r) = saved_value r s"
  by (cases r) (simp_all add: saved_def)

lemma saved_mem: "a \<notin> set (slots t1) \<Longrightarrow> a \<noteq> eax_save \<Longrightarrow> mem (saved eax_save t1 s) a = mem s a"
  by (simp add: saved_def slot_neq)

lemma saved_regs [simp]: "regs (saved eax_save t1 s) ESP = regs s ESP"
  by (simp add: saved_def)

lemma switch_result:
  assumes e: "switch_entry eax_save s t1 t2"
  shows "run_SWITCH eax_save s = loaded eax_save t2 (saved eax_save t1 s)"
    and "mem (saved eax_save t1 s) (t2 + off r) = mem s (t2 + off r)"
proof -
  have t2: "t2 + off r \<notin> set (slots t1)" "t2 + off r \<noteq> eax_save" for r
    using e off_in_slots [of t2 r] by (auto simp: switch_entry_def list_all_iff)
  show slot: "mem (saved eax_save t1 s) (t2 + off r) = mem s (t2 + off r)" for r
    by (rule saved_mem [OF t2])
  have save: "exec (\<lambda>a s. s) (SWITCH_save eax_save) s = saved eax_save t1 s"
    by (rule save_result) (use e in \<open>simp_all add: switch_entry_def\<close>)
  have "exec (\<lambda>a s. s) (SWITCH_load eax_save) (saved eax_save t1 s) = loaded eax_save t2 (saved eax_save t1 s)"
    by (rule load_result) (use e in \<open>simp_all add: switch_entry_def slot saved_mem\<close>)
  with save show "run_SWITCH eax_save s = loaded eax_save t2 (saved eax_save t1 s)"
    by (simp add: run_SWITCH_def SWITCH_code_def exec_append)
qed

text \<open>What a call of \<open>SWITCH\<close> does, seen from both threads.\<close>

lemma switch_saves:
  assumes e: "switch_entry eax_save s t1 t2"
  shows "mem (run_SWITCH eax_save s) (t1 + off r) = saved_value r s"
    and "mem (run_SWITCH eax_save s) (regs s ESP) = mem s (regs s ESP)"
proof -
  have out: "eax_save \<notin> set (slots t1)" "mem s (t2 + off X_ESP) + 4 \<notin> set (slots t1)"
    using e by (simp_all add: switch_entry_def)
  have esp: "regs s ESP \<notin> set (slots t1)" "regs s ESP \<noteq> eax_save"
    "mem s (t2 + off X_ESP) + 4 \<noteq> regs s ESP" "t1 + off r \<noteq> eax_save"
    "t1 + off r \<noteq> mem s (t2 + off X_ESP) + 4"
    using e slot_neq(1) [OF out(1)] slot_neq(1) [OF out(2)] by (simp_all add: switch_entry_def)
  show "mem (run_SWITCH eax_save s) (t1 + off r) = saved_value r s"
    using esp(4,5) by (simp add: switch_result [OF e] loaded_def saved_slot)
  show "mem (run_SWITCH eax_save s) (regs s ESP) = mem s (regs s ESP)"
    using esp(1-3) by (simp add: switch_result [OF e] loaded_def saved_mem)
qed

lemma switch_loads:
  assumes e: "switch_entry eax_save s t1 t2"
  shows "regs (run_SWITCH eax_save s) EAX = mem s (t2 + off X_EAX)"
    and "regs (run_SWITCH eax_save s) EBX = mem s (t2 + off X_EBX)"
    and "regs (run_SWITCH eax_save s) ECX = mem s (t2 + off X_ECX)"
    and "regs (run_SWITCH eax_save s) EDX = mem s (t2 + off X_EDX)"
    and "regs (run_SWITCH eax_save s) ESI = mem s (t2 + off X_ESI)"
    and "regs (run_SWITCH eax_save s) EDI = mem s (t2 + off X_EDI)"
    and "regs (run_SWITCH eax_save s) EBP = mem s (t2 + off X_EBP)"
    and "regs (run_SWITCH eax_save s) ESP = mem s (t2 + off X_ESP) + 4"
    and "eip (run_SWITCH eax_save s) = mem s (mem s (t2 + off X_ESP))"
proof -
  note r = switch_result [OF e]
  have "mem (saved eax_save t1 s) (mem s (t2 + off X_ESP)) = mem s (mem s (t2 + off X_ESP))"
    by (rule saved_mem) (use e in \<open>simp_all add: switch_entry_def\<close>)
  then show "eip (run_SWITCH eax_save s) = mem s (mem s (t2 + off X_ESP))"
    by (simp add: r loaded_def)
qed (simp_all add: switch_result [OF e] loaded_def)

text \<open>
  Round trip: a thread that calls \<open>SWITCH\<close> and is switched to later, its stack top and its
  \<open>Thread\<close> object being unchanged meanwhile, goes on after its call with its registers.
\<close>

lemma round_trip:
  assumes e1: "switch_entry eax_save s t1 t2" and e2: "switch_entry eax_save s2 t' t1"
    and same: "list_all (\<lambda>a. mem s2 a = mem (run_SWITCH eax_save s) a) (regs s ESP # slots t1)"
  shows "eip (run_SWITCH eax_save s2) = mem s (regs s ESP)"
    and "regs (run_SWITCH eax_save s2) ESP = regs s ESP + 4"
    and "r \<noteq> ESP \<Longrightarrow> regs (run_SWITCH eax_save s2) r = regs s r"
proof -
  have slot: "mem s2 (t1 + off x) = saved_value x s" for x
    using same off_in_slots [of t1 x] switch_saves(1) [OF e1] by (auto simp: list_all_iff)
  have ret: "mem s2 (regs s ESP) = mem s (regs s ESP)"
    using same switch_saves(2) [OF e1] by simp
  note l = switch_loads [OF e2]
  show "eip (run_SWITCH eax_save s2) = mem s (regs s ESP)" using l(9) slot ret by simp
  show "regs (run_SWITCH eax_save s2) ESP = regs s ESP + 4" using l(8) slot by simp
  show "r \<noteq> ESP \<Longrightarrow> regs (run_SWITCH eax_save s2) r = regs s r"
    using l(1-7) slot by (cases r) simp_all
qed

section \<open>ThreadRoot\<close>

text \<open>
  The C calling convention: a procedure returns with \<open>ebx\<close>, \<open>esi\<close>, \<open>edi\<close>, \<open>ebp\<close> and \<open>esp\<close> as
  they were.
\<close>

definition callee_saves :: "(32 word \<Rightarrow> cpu \<Rightarrow> cpu) \<Rightarrow> bool" where
  "callee_saves callee \<longleftrightarrow> (\<forall>a s. (\<forall>r \<in> {EBX, ESI, EDI, EBP, ESP}. regs (callee a s) r = regs s r) \<and>
     calls (callee a s) = calls s)"

lemma callee_saves_simps:
  assumes "callee_saves callee"
  shows "regs (callee a s) ESI = regs s ESI" and "regs (callee a s) EDI = regs s EDI"
    and "regs (callee a s) EBP = regs s EBP" and "regs (callee a s) ESP = regs s ESP"
    and "calls (callee a s) = calls s"
  using assms by (simp_all add: callee_saves_def)

lemma ThreadRoot_calls:
  assumes c: "callee_saves callee"
    and top: "\<And>s. mem (callee (regs s0 ECX) s) (regs s ESP) = mem s (regs s ESP)"
  shows "\<exists>x. calls (exec callee ThreadRoot_code s0) = calls s0 @
    [(regs s0 ECX, regs s0 EDX), (regs s0 ESI, regs s0 EDX), (regs s0 EDI, x)]"
proof -
  have arg: "mem (callee (regs s0 ECX) s) a = mem s a" if "a = regs s ESP" for s a
    using top that by simp
  show ?thesis
    by (simp add: ThreadRoot_code_def InitialPC_def InitialArg_def WhenDonePC_def StartupPC_def
        callee_saves_simps [OF c] arg)
qed

end
