(* ===== verification/SwitchProps.thy ===== *)
theory SwitchProps
  imports ThreadProps I386Switch
begin

text \<open>
  The context switch on the i386. Two facts justify how \<open>Kernel\<close> treats \<open>SWITCH\<close>: a thread that
  called it goes on after its call when it is switched to (frame \<open>RunF\<close>), and a thread fresh
  from \<open>StackAllocate\<close> starts in \<open>ThreadRoot\<close>, which makes the three calls (frame \<open>RootF\<close>).
\<close>

section \<open>Round trip\<close>

text \<open>
  C28: A thread that calls \<open>SWITCH\<close> and is later switched to, by any thread and any number of switches
  later, continues at its return address with its stack pointer and all its other registers,
  provided that nobody wrote its \<open>Thread\<close> object or its return address meanwhile.
\<close>

theorem switch_round_trip:
  assumes "switch_entry eax_save s t1 t2" and "switch_entry eax_save s2 t' t1"
    and "list_all (\<lambda>a. mem s2 a = mem (run_SWITCH eax_save s) a) (regs s ESP # slots t1)"
  shows "eip (run_SWITCH eax_save s2) = mem s (regs s ESP) \<and>
    regs (run_SWITCH eax_save s2) ESP = regs s ESP + 4 \<and>
    (\<forall>r. r \<noteq> ESP \<longrightarrow> regs (run_SWITCH eax_save s2) r = regs s r)"
  using round_trip [OF assms] by blast

text \<open>A machine about to switch from the thread object at \<open>0x2000\<close> to the one at \<open>0x3000\<close>.\<close>

definition sample :: cpu where
  "sample = \<lparr>regs = (\<lambda>r. case r of ESP \<Rightarrow> 0x4000 | EBX \<Rightarrow> 7 | _ \<Rightarrow> 0),
     mem = (\<lambda>_. 0)(0x4000 := 99, 0x4004 := 0x2000, 0x4008 := 0x3000, 0x3000 := 0x5000), eip = 0, calls = []\<rparr>"

lemma sample_entry: "switch_entry 0x1000 sample 0x2000 0x3000"
  by (simp add: switch_entry_def slots_def off_def sample_def)

definition sample_back :: cpu where
  "sample_back = (run_SWITCH 0x1000 sample)\<lparr>regs := (\<lambda>_. 0)(ESP := 0x6000),
     mem := (mem (run_SWITCH 0x1000 sample))(0x6004 := 0x3000, 0x6008 := 0x2000)\<rparr>"

lemma sample_back_entry: "switch_entry 0x1000 sample_back 0x3000 0x2000"
proof -
  have "mem (run_SWITCH 0x1000 sample) (0x2000 + off X_ESP) = 0x4000"
    using switch_saves(1) [OF sample_entry, of X_ESP] by (simp add: sample_def)
  then have "mem (run_SWITCH 0x1000 sample) 0x2000 = 0x4000" by (simp add: off_def)
  then show ?thesis by (simp add: switch_entry_def slots_def off_def sample_back_def)
qed

theorem switch_round_trip_witness:
  "eip (run_SWITCH 0x1000 sample_back) = 99 \<and> regs (run_SWITCH 0x1000 sample_back) EBX = 7"
proof -
  have "list_all (\<lambda>a. mem sample_back a = mem (run_SWITCH 0x1000 sample) a) (regs sample ESP # slots 0x2000)"
    by (simp add: slots_def off_def sample_back_def sample_def)
  from switch_round_trip [OF sample_entry sample_back_entry this] show ?thesis by (simp add: sample_def)
qed

section \<open>The first switch to a thread\<close>

text \<open>
  The \<open>Thread\<close> object at address \<open>t\<close> and its stack at \<open>base\<close> are in memory: \<open>stackTop\<close> first, then
  \<open>machineState\<close>, as \<open>thread.h\<close> demands of the first two members.
\<close>

definition in_memory :: "Thread \<Rightarrow> 32 word \<Rightarrow> 32 word \<Rightarrow> (32 word \<Rightarrow> 32 word) \<Rightarrow> bool" where
  "in_memory T t base memory \<longleftrightarrow>
     (\<forall>top. stackTop T = Some top \<longrightarrow> memory t = base + of_nat (4 * top)) \<and>
     (\<forall>i v. i < MachineStateSize \<longrightarrow> machineState T i = Some v \<longrightarrow> memory (t + of_nat (4 + 4 * i)) = v) \<and>
     (\<forall>m j v. stack T = Some m \<longrightarrow> j < StackSize \<longrightarrow> m j = Some v \<longrightarrow> memory (base + of_nat (4 * j)) = v)"

lemma in_memory_slot:
  assumes "in_memory T t base memory" and "machineState T i = Some v" and "i < MachineStateSize"
  shows "memory (t + of_nat (4 + 4 * i)) = v"
  using assms by (simp add: in_memory_def)

lemma in_memory_off:
  assumes "in_memory T t base memory" and "machineState T i = Some v" and "i < MachineStateSize"
    and "of_nat (4 + 4 * i) = off r"
  shows "memory (t + off r) = v"
  using in_memory_slot [OF assms(1-3)] assms(4) by simp

lemma in_memory_stack:
  "in_memory T t base memory \<Longrightarrow> stack T = Some m \<Longrightarrow> m j = Some v \<Longrightarrow> j < StackSize \<Longrightarrow>
    memory (base + of_nat (4 * j)) = v"
  by (simp add: in_memory_def)

text \<open>What \<open>InterruptEnable\<close> does to the stack: it leaves the word its caller pushed.\<close>

definition keeps_argument :: "(32 word \<Rightarrow> cpu \<Rightarrow> cpu) \<Rightarrow> 32 word \<Rightarrow> bool" where
  "keeps_argument callee a \<longleftrightarrow> (\<forall>s. mem (callee a s) (regs s ESP) = mem s (regs s ESP))"

text \<open>
  C29: The first switch to a thread that \<open>StackAllocate\<close> prepared jumps to \<open>ThreadRoot\<close>, with the stack
  pointer inside the thread's stack; \<open>ThreadRoot\<close> then calls \<open>InterruptEnable\<close>, the thread's
  procedure with its argument on the stack, and \<open>ThreadFinish\<close>, in this order.
\<close>

theorem first_switch_runs_thread:
  assumes "host pf = HOST_i386" and "threads k u = Some T0"
    and "Thread_StackAllocate pf u func arg k = Inr k1" and "threads k1 u = Some T"
    and "in_memory T t2 base (mem s)" and "switch_entry eax_save s t1 t2"
    and "callee_saves callee" and "keeps_argument callee (addr_InterruptEnable pf)"
  shows "eip (run_SWITCH eax_save s) = addr_ThreadRoot pf \<and>
    (\<exists>top < StackSize - 1. regs (run_SWITCH eax_save s) ESP = base + of_nat (4 * Suc top)) \<and>
    (\<exists>x. calls (exec callee ThreadRoot_code (run_SWITCH eax_save s)) = calls (run_SWITCH eax_save s) @
      [(addr_InterruptEnable pf, arg), (func, arg), (addr_ThreadFinish pf, x)])"
proof -
  obtain blk m0 where blk: "AllocBoundedArray pf (StackSize * 4) (interrupt k) = (blk, m0)" by fastforce
  let ?top = "StackSize - 4 - 1"
  have T: "stackTop T = Some ?top" "\<exists>m. stack T = Some m \<and> m ?top = Some (addr_ThreadRoot pf)"
    "machineState T (StartupPCState HOST_i386) = Some (addr_InterruptEnable pf)"
    "machineState T (InitialPCState HOST_i386) = Some func"
    "machineState T (InitialArgState HOST_i386) = Some arg"
    "machineState T (WhenDonePCState HOST_i386) = Some (addr_ThreadFinish pf)"
    using assms(1-4) blk by (auto simp: Thread_StackAllocate_def init_stack_def StackSize_def Let_def)
  note slot = in_memory_off [OF assms(5)]
  have regs: "regs (run_SWITCH eax_save s) ECX = addr_InterruptEnable pf"
    "regs (run_SWITCH eax_save s) ESI = func" "regs (run_SWITCH eax_save s) EDX = arg"
    "regs (run_SWITCH eax_save s) EDI = addr_ThreadFinish pf"
    using slot [OF T(3), of X_ECX] slot [OF T(4), of X_ESI] slot [OF T(5), of X_EDX] slot [OF T(6), of X_EDI]
    by (simp_all add: switch_loads [OF assms(6)] MachineStateSize_def off_def)
  have esp: "mem s (t2 + off X_ESP) = base + of_nat (4 * ?top)"
    using assms(5) T(1) by (simp add: in_memory_def off_def)
  moreover have "mem s (base + of_nat (4 * ?top)) = addr_ThreadRoot pf"
    using T(2) in_memory_stack [OF assms(5)] by (elim exE conjE) (simp only: StackSize_def)
  ultimately have "eip (run_SWITCH eax_save s) = addr_ThreadRoot pf"
    "regs (run_SWITCH eax_save s) ESP = base + of_nat (4 * Suc ?top)"
    by (simp_all add: switch_loads [OF assms(6)])
  moreover have "?top < StackSize - 1" by (simp add: StackSize_def)
  moreover have "\<exists>x. calls (exec callee ThreadRoot_code (run_SWITCH eax_save s)) =
      calls (run_SWITCH eax_save s) @ [(addr_InterruptEnable pf, arg), (func, arg), (addr_ThreadFinish pf, x)]"
    using ThreadRoot_calls [OF assms(7), of "run_SWITCH eax_save s"] assms(8) regs
    by (simp add: keeps_argument_def)
  ultimately show ?thesis by blast
qed

definition fresh_thread_cpu :: cpu where
  "fresh_thread_cpu = \<lparr>regs = (\<lambda>r. case r of ESP \<Rightarrow> 0x4000 | _ \<Rightarrow> 0),
     mem = (\<lambda>_. 0)(0x4004 := 0x2000, 0x4008 := 0x3000, 0x3000 := 0x13FEC, 0x3020 := 1, 0x300C := 2,
       0x3018 := 10, 0x3010 := 7, 0x301C := 3, 0x10000 := 0xdeadbeef, 0x13FEC := 1),
     eip = 0, calls = []\<rparr>"

theorem first_switch_runs_thread_witness:
  "eip (run_SWITCH 0x1000 fresh_thread_cpu) = 1 \<and>
   (\<exists>x. calls (exec (\<lambda>a s. s) ThreadRoot_code (run_SWITCH 0x1000 fresh_thread_cpu)) =
     calls (run_SWITCH 0x1000 fresh_thread_cpu) @ [(2, 7), (10, 7), (3, x)])"
proof -
  have T0: "threads (solo 0 []) 3 = Some first_thread" by (simp add: solo_def)
  obtain k1 T where k1: "Thread_StackAllocate plain_machine 3 10 7 (solo 0 []) = Inr k1" "threads k1 3 = Some T"
    "stackTop T = Some 4091" "stack T = Some [4091 \<mapsto> 1, 0 \<mapsto> 0xdeadbeef]"
    "machineState T = [7 \<mapsto> 1, 2 \<mapsto> 2, 5 \<mapsto> 10, 3 \<mapsto> 7, 6 \<mapsto> 3]"
    using T0 by (simp add: Thread_StackAllocate_def init_stack_def plain_machine_def StackSize_def
        STACK_FENCEPOST_def first_thread_def Let_def)
  have m: "in_memory T 0x3000 0x10000 (mem fresh_thread_cpu)"
    unfolding in_memory_def k1(3-5) by (auto simp: fresh_thread_cpu_def split: if_splits)
  have e: "switch_entry 0x1000 fresh_thread_cpu 0x2000 0x3000"
    by (simp add: switch_entry_def slots_def off_def fresh_thread_cpu_def)
  have c: "callee_saves (\<lambda>a s. s)" "keeps_argument (\<lambda>a s. s) (addr_InterruptEnable plain_machine)"
    by (simp_all add: callee_saves_def keeps_argument_def)
  have h: "host plain_machine = HOST_i386" by (simp add: plain_machine_def)
  from first_switch_runs_thread [OF h T0 k1(1,2) m e c] show ?thesis
    by (simp add: plain_machine_def)
qed

end
