(* ===== verification/RiscSwitch.thy ===== *)
theory RiscSwitch
  imports SwitchConstants
begin

text \<open>
  The DEC MIPS and HP PA-RISC parts of \<open>switch.s\<close>: \<open>SWITCH\<close> and \<open>ThreadRoot\<close>, instruction by
  instruction, on a machine with 32 registers (register 0 reads 0), word memory and branches with a
  delay slot. Both hosts save a list of registers in the old thread's object, load it from the new
  thread's, and return through a register; \<open>register_switch\<close> is that interface.
\<close>

section \<open>The machine\<close>

record rcpu =
  rregs :: "nat \<Rightarrow> 32 word"
  rmem :: "32 word \<Rightarrow> 32 word"
  rpc :: "32 word"
  rcalls :: "(32 word \<times> (nat \<Rightarrow> 32 word)) list"

datatype rinstr =
    Sw nat "32 word" nat
  | Lw nat "32 word" nat
  | Or nat nat nat
  | Jr nat rinstr
  | Jalr nat nat rinstr

definition rd :: "rcpu \<Rightarrow> nat \<Rightarrow> 32 word" where
  "rd s r = (if r = 0 then 0 else rregs s r)"

definition next_pc :: "rcpu \<Rightarrow> rcpu" where
  "next_pc s = s\<lparr>rpc := rpc s + 4\<rparr>"

text \<open>
  \<open>Jr\<close> and \<open>Jalr\<close> (jump, and call with the link register) come with the instruction in their delay
  slot. \<open>callee a\<close> is the effect of the procedure at address \<open>a\<close> from its call to its return;
  \<open>rcalls\<close> records each call with the registers at that point.
\<close>

fun exec_rinstr :: "(32 word \<Rightarrow> rcpu \<Rightarrow> rcpu) \<Rightarrow> rinstr \<Rightarrow> rcpu \<Rightarrow> rcpu" where
  "exec_rinstr callee (Sw r d b) s = next_pc (s\<lparr>rmem := (rmem s)(rd s b + d := rd s r)\<rparr>)"
| "exec_rinstr callee (Lw r d b) s = next_pc (s\<lparr>rregs := (rregs s)(r := rmem s (rd s b + d))\<rparr>)"
| "exec_rinstr callee (Or r a b) s = next_pc (s\<lparr>rregs := (rregs s)(r := or (rd s a) (rd s b))\<rparr>)"
| "exec_rinstr callee (Jr r slot) s =
     (let a = rd s r; s = exec_rinstr callee slot (next_pc s) in s\<lparr>rpc := a\<rparr>)"
| "exec_rinstr callee (Jalr l r slot) s =
     (let a = rd s r;
          s = exec_rinstr callee slot (next_pc (s\<lparr>rregs := (rregs s)(l := rpc s + 8)\<rparr>))
      in callee a (s\<lparr>rpc := a, rcalls := rcalls s @ [(a, rregs s)]\<rparr>))"

fun rexec :: "(32 word \<Rightarrow> rcpu \<Rightarrow> rcpu) \<Rightarrow> rinstr list \<Rightarrow> rcpu \<Rightarrow> rcpu" where
  "rexec callee [] s = s"
| "rexec callee (i # is) s = rexec callee is (exec_rinstr callee i s)"

section \<open>MIPS\<close>

text \<open>
  Register numbers: \<open>$4\<close>, \<open>$5\<close> arguments, \<open>$16\<close> to \<open>$23\<close> are \<open>s0\<close> to \<open>s7\<close>, \<open>$29\<close> \<open>sp\<close>, \<open>$30\<close> \<open>fp\<close>,
  \<open>$31\<close> \<open>ra\<close>. The assembler puts a \<open>nop\<close> in each delay slot.
\<close>

definition nop :: rinstr where
  "nop = Or 0 0 0"

definition moff :: "mips_reg \<Rightarrow> 32 word" where
  "moff r = of_nat (mips_offset r)"

definition MIPS_SWITCH :: "rinstr list" where
  "MIPS_SWITCH =
     [Sw 29 (moff M_SP) 4,
      Sw 16 (moff M_S0) 4, Sw 17 (moff M_S1) 4, Sw 18 (moff M_S2) 4, Sw 19 (moff M_S3) 4,
      Sw 20 (moff M_S4) 4, Sw 21 (moff M_S5) 4, Sw 22 (moff M_S6) 4, Sw 23 (moff M_S7) 4,
      Sw 30 (moff M_FP) 4, Sw 31 (moff M_PC) 4,
      Lw 29 (moff M_SP) 5,
      Lw 16 (moff M_S0) 5, Lw 17 (moff M_S1) 5, Lw 18 (moff M_S2) 5, Lw 19 (moff M_S3) 5,
      Lw 20 (moff M_S4) 5, Lw 21 (moff M_S5) 5, Lw 22 (moff M_S6) 5, Lw 23 (moff M_S7) 5,
      Lw 30 (moff M_FP) 5, Lw 31 (moff M_PC) 5,
      Jr 31 nop]"

text \<open>\<open>InitialPC\<close>, \<open>InitialArg\<close>, \<open>WhenDonePC\<close>, \<open>StartupPC\<close> are \<open>s0\<close>, \<open>s1\<close>, \<open>s2\<close>, \<open>s3\<close>.\<close>

definition MIPS_ThreadRoot :: "rinstr list" where
  "MIPS_ThreadRoot = [Or 30 0 0, Jalr 31 19 nop, Or 4 17 0, Jalr 31 16 nop, Jalr 31 18 nop]"

section \<open>PA-RISC\<close>

text \<open>
  \<open>arg0\<close> is \<open>%r26\<close>, \<open>arg1\<close> \<open>%r25\<close>, \<open>rp\<close> \<open>%r2\<close>, \<open>sp\<close> \<open>%r30\<close>; \<open>ble\<close> links in \<open>%r31\<close>, and the last load of
  \<open>SWITCH\<close> is in the delay slot of \<open>bv\<close>.
\<close>

definition hoff :: "snake_reg \<Rightarrow> 32 word" where
  "hoff r = of_nat (snake_offset r)"

definition SNAKE_SWITCH :: "rinstr list" where
  "SNAKE_SWITCH =
     [Sw 30 (hoff H_SP) 26,
      Sw 3 (hoff (H_S 0)) 26, Sw 4 (hoff (H_S 1)) 26, Sw 5 (hoff (H_S 2)) 26, Sw 6 (hoff (H_S 3)) 26,
      Sw 7 (hoff (H_S 4)) 26, Sw 8 (hoff (H_S 5)) 26, Sw 9 (hoff (H_S 6)) 26, Sw 10 (hoff (H_S 7)) 26,
      Sw 11 (hoff (H_S 8)) 26, Sw 12 (hoff (H_S 9)) 26, Sw 13 (hoff (H_S 10)) 26, Sw 14 (hoff (H_S 11)) 26,
      Sw 15 (hoff (H_S 12)) 26, Sw 16 (hoff (H_S 13)) 26, Sw 17 (hoff (H_S 14)) 26, Sw 18 (hoff (H_S 15)) 26,
      Sw 2 (hoff H_PC) 26,
      Lw 30 (hoff H_SP) 25,
      Lw 3 (hoff (H_S 0)) 25, Lw 4 (hoff (H_S 1)) 25, Lw 5 (hoff (H_S 2)) 25, Lw 6 (hoff (H_S 3)) 25,
      Lw 7 (hoff (H_S 4)) 25, Lw 8 (hoff (H_S 5)) 25, Lw 9 (hoff (H_S 6)) 25, Lw 10 (hoff (H_S 7)) 25,
      Lw 11 (hoff (H_S 8)) 25, Lw 12 (hoff (H_S 9)) 25, Lw 13 (hoff (H_S 10)) 25, Lw 14 (hoff (H_S 11)) 25,
      Lw 15 (hoff (H_S 12)) 25, Lw 16 (hoff (H_S 13)) 25, Lw 17 (hoff (H_S 14)) 25,
      Lw 2 (hoff H_PC) 25,
      Jr 2 (Lw 18 (hoff (H_S 15)) 25)]"

text \<open>\<open>InitialPC\<close>, \<open>InitialArg\<close>, \<open>WhenDonePC\<close>, \<open>StartupPC\<close> are \<open>%r3\<close>, \<open>%r4\<close>, \<open>%r5\<close>, \<open>%r6\<close>.\<close>

definition SNAKE_ThreadRoot :: "rinstr list" where
  "SNAKE_ThreadRoot =
     [Jalr 31 6 (Or 2 31 0), Or 26 4 0, Jalr 31 3 (Or 2 31 0), Jalr 31 5 (Or 2 31 0)]"

section \<open>Runs of stores and loads\<close>

text \<open>\<open>ps\<close> lists registers with their offsets in the \<open>Thread\<close> object.\<close>

definition stores :: "nat \<Rightarrow> (nat \<times> 32 word) list \<Rightarrow> rinstr list" where
  "stores b ps = map (\<lambda>(r, d). Sw r d b) ps"

definition loads :: "nat \<Rightarrow> (nat \<times> 32 word) list \<Rightarrow> rinstr list" where
  "loads b ps = map (\<lambda>(r, d). Lw r d b) ps"

lemma rexec_append: "rexec callee (is @ js) s = rexec callee js (rexec callee is s)"
  by (induction "is" arbitrary: s) simp_all

lemma rd_upd [simp]:
  "rd (next_pc s) r = rd s r" "rd (s\<lparr>rmem := m\<rparr>) r = rd s r" "rd (s\<lparr>rpc := a\<rparr>) r = rd s r"
  "rregs s = rregs s' \<Longrightarrow> rd (s\<lparr>rregs := (rregs s')(r' := v)\<rparr>) r = (if r = r' \<and> r \<noteq> 0 then v else rd s' r)"
  "rmem (next_pc s) = rmem s" "rregs (next_pc s) = rregs s" "rcalls (next_pc s) = rcalls s"
  by (simp_all add: rd_def next_pc_def)

lemma stores_regs [simp]:
  "rregs (rexec callee (stores b ps) s) = rregs s" "rcalls (rexec callee (stores b ps) s) = rcalls s"
  "rd (rexec callee (stores b ps) s) = rd s"
  by (induction ps arbitrary: s) (auto simp: stores_def rd_def)

lemma stores_other:
  "a \<notin> (\<lambda>(r, d). rd s b + d) ` set ps \<Longrightarrow> rmem (rexec callee (stores b ps) s) a = rmem s a"
  by (induction ps arbitrary: s) (auto simp: stores_def)

lemma stores_slot:
  "distinct (map snd ps) \<Longrightarrow> (r, d) \<in> set ps \<Longrightarrow>
    rmem (rexec callee (stores b ps) s) (rd s b + d) = rd s r"
proof (induction ps arbitrary: s)
  case (Cons p ps)
  obtain r' d' where p: "p = (r', d')" by fastforce
  let ?s = "exec_rinstr callee (Sw r' d' b) s"
  have step: "rexec callee (stores b (p # ps)) s = rexec callee (stores b ps) ?s"
    by (simp add: p stores_def)
  show ?case
  proof (cases "(r, d) = p")
    case True
    have "rd ?s b + d \<notin> (\<lambda>(r, d). rd ?s b + d) ` set ps" using Cons.prems(1) True p by force
    from stores_other [OF this] show ?thesis using True p step by simp
  next
    case False
    with Cons.IH [of ?s] Cons.prems show ?thesis by (simp only: step) simp
  qed
qed simp

lemma loads_append: "loads b (ps @ qs) = loads b ps @ loads b qs" "loads b [(r, d)] = [Lw r d b]" "loads b [] = []"
  by (simp_all add: loads_def)

lemma loads_mem [simp]:
  "rmem (rexec callee (loads b ps) s) = rmem s" "rcalls (rexec callee (loads b ps) s) = rcalls s"
  by (induction ps arbitrary: s) (auto simp: loads_def)

lemma loads_other: "r \<notin> fst ` set ps \<Longrightarrow> rd (rexec callee (loads b ps) s) r = rd s r"
  by (induction ps arbitrary: s) (auto simp: loads_def)

lemma loads_slot:
  "distinct (map fst ps) \<Longrightarrow> b \<notin> fst ` set ps \<Longrightarrow> 0 \<notin> fst ` set ps \<Longrightarrow> (r, d) \<in> set ps \<Longrightarrow>
    rd (rexec callee (loads b ps) s) r = rmem s (rd s b + d)"
proof (induction ps arbitrary: s)
  case (Cons p ps)
  obtain r' d' where p: "p = (r', d')" by fastforce
  let ?s = "exec_rinstr callee (Lw r' d' b) s"
  have step: "rexec callee (loads b (p # ps)) s = rexec callee (loads b ps) ?s"
    by (simp add: p loads_def)
  show ?case
  proof (cases "(r, d) = p")
    case True
    then have "r \<notin> fst ` set ps" "r \<noteq> 0" using Cons.prems(1,3) p by auto
    have "rd (rexec callee (loads b ps) ?s) r = rd ?s r" by (rule loads_other) fact
    with True p \<open>r \<noteq> 0\<close> show ?thesis unfolding step by simp
  next
    case False
    with Cons.prems p have "(r, d) \<in> set ps" "b \<noteq> r'" by auto
    with Cons.IH [of ?s] Cons.prems show ?thesis unfolding step by simp
  qed
qed simp

section \<open>The interface\<close>

text \<open>
  \<open>SWITCH(old, new)\<close> with its arguments in two registers: it saves the registers \<open>ps\<close> and nothing
  else, loads them, and jumps to what is in \<open>ra\<close> then.
\<close>

locale register_switch =
  fixes code :: "rinstr list" and old new ra :: nat and places :: "(nat \<times> 32 word) list"
  assumes ra: "ra \<in> fst ` set places" and zero: "0 \<notin> fst ` set places"
    and saves: "\<And>callee s r d. (r, d) \<in> set places \<Longrightarrow> rmem (rexec callee code s) (rd s old + d) = rd s r"
    and keeps: "\<And>callee s a. a \<notin> (\<lambda>(r, d). rd s old + d) ` set places \<Longrightarrow>
      rmem (rexec callee code s) a = rmem s a"
    and restores: "\<And>callee s r d. (r, d) \<in> set places \<Longrightarrow>
      rd (rexec callee code s) r = rmem (rexec callee code s) (rd s new + d)"
    and returns: "\<And>callee s. rpc (rexec callee code s) = rd (rexec callee code s) ra"
    and calls_none: "\<And>callee s. rcalls (rexec callee code s) = rcalls s"
begin

definition slots_of :: "32 word \<Rightarrow> 32 word set" where
  "slots_of t = (\<lambda>(r, d). t + d) ` set places"

lemma slot_of: "(r, d) \<in> set places \<Longrightarrow> t + d \<in> slots_of t"
  by (force simp: slots_of_def)

lemma switched_regs:
  assumes "slots_of (rd s old) \<inter> slots_of (rd s new) = {}" and "(r, d) \<in> set places"
  shows "rd (rexec callee code s) r = rmem s (rd s new + d)"
proof -
  have "rd s new + d \<notin> slots_of (rd s old)" using assms slot_of by blast
  then have "rmem (rexec callee code s) (rd s new + d) = rmem s (rd s new + d)"
    using keeps by (simp add: slots_of_def)
  then show ?thesis by (simp add: restores [OF assms(2)])
qed

lemma switched_back:
  assumes e2: "slots_of (rd s2 old) \<inter> slots_of (rd s2 new) = {}" and t: "rd s2 new = rd s old"
    and same: "\<And>a. a \<in> slots_of (rd s old) \<Longrightarrow> rmem s2 a = rmem (rexec callee code s) a"
  shows "rpc (rexec callee' code s2) = rd s ra"
    and "r \<in> fst ` set places \<Longrightarrow> rd (rexec callee' code s2) r = rd s r"
proof -
  have regs: "rd (rexec callee' code s2) r = rd s r" if r: "r \<in> fst ` set places" for r
  proof -
    from r obtain d where d: "(r, d) \<in> set places" by auto
    have "rd (rexec callee' code s2) r = rmem s2 (rd s2 new + d)" by (rule switched_regs [OF e2 d])
    also have "\<dots> = rd s r" using saves [OF d] same slot_of [OF d] t by simp
    finally show ?thesis .
  qed
  show "r \<in> fst ` set places \<Longrightarrow> rd (rexec callee' code s2) r = rd s r" by (rule regs)
  show "rpc (rexec callee' code s2) = rd s ra" by (simp only: returns regs [OF ra])
qed

end

text \<open>Code of this shape has the interface, with \<open>q\<close> the register loaded in the delay slot, if any.\<close>

lemma register_switch_intro:
  assumes "distinct (map fst (ls @ qs))" and "distinct (map snd ps)"
    and perm: "ls = as @ bs" "ps = as @ qs @ bs" and "ra \<in> fst ` set ls" and "0 \<notin> fst ` set ps" and "new \<notin> fst ` set ps"
    and slot: "slot = nop \<and> qs = [] \<or> (\<exists>r d. slot = Lw r d new \<and> qs = [(r, d)])"
  shows "register_switch (stores old ps @ loads new ls @ [Jr ra slot]) old new ra ps"
proof -
  have assms': "set ps = set (ls @ qs)" using perm by auto
  let ?code = "stores old ps @ loads new ls @ [Jr ra slot]"
  have final: "r \<noteq> 0 \<Longrightarrow> rd (rexec callee ?code s) r =
        rd (rexec callee (loads new (ls @ qs)) (rexec callee (stores old ps) s)) r"
      "rmem (rexec callee ?code s) = rmem (rexec callee (stores old ps) s)"
      "rpc (rexec callee ?code s) = rd (rexec callee (loads new ls) (rexec callee (stores old ps) s)) ra"
      "rcalls (rexec callee ?code s) = rcalls s" for callee s r
    using slot by (auto simp: rexec_append Let_def nop_def loads_append)
  have ls: "distinct (map fst ls)" "new \<notin> fst ` set ls" "0 \<notin> fst ` set ls" "ra \<notin> fst ` set qs" "ra \<noteq> 0"
    using assms(1,5-7) assms' by auto
  show ?thesis
  proof
    show "ra \<in> fst ` set ps" "0 \<notin> fst ` set ps" using assms(5,6) assms' by auto
    show "rmem (rexec callee ?code s) (rd s old + d) = rd s r" if "(r, d) \<in> set ps" for callee s r d
      by (simp only: final(2) stores_slot [OF assms(2) that])
    show "rmem (rexec callee ?code s) a = rmem s a"
      if "a \<notin> (\<lambda>(r, d). rd s old + d) ` set ps" for callee s a
      by (simp only: final(2) stores_other [OF that])
    show "rd (rexec callee ?code s) r = rmem (rexec callee ?code s) (rd s new + d)"
      if rd: "(r, d) \<in> set ps" for callee s r d
    proof -
      have "r \<in> fst ` set ps" using rd by force
      then have "r \<noteq> 0" using assms(6) by metis
      moreover have "(r, d) \<in> set (ls @ qs)" using rd assms' by simp
      moreover note loads_slot [OF assms(1), of new r d callee "rexec callee (stores old ps) s"] assms(6,7) assms'
      ultimately show ?thesis using final(1) [of r callee s] final(2) [of callee s] by simp
    qed
    show "rpc (rexec callee ?code s) = rd (rexec callee ?code s) ra" for callee s
    proof -
      have "rd (rexec callee (loads new (ls @ qs)) x) ra = rd (rexec callee (loads new ls) x) ra" for x
        by (simp only: loads_append(1) rexec_append) (rule loads_other [OF ls(4)])
      then show ?thesis using final(1) [OF ls(5), of callee s] final(3) [of callee s] by simp
    qed
    show "rcalls (rexec callee ?code s) = rcalls s" for callee s by (rule final(4))
  qed
qed

section \<open>The two hosts\<close>

definition mips_places :: "(nat \<times> 32 word) list" where
  "mips_places = [(29, moff M_SP), (16, moff M_S0), (17, moff M_S1), (18, moff M_S2), (19, moff M_S3),
     (20, moff M_S4), (21, moff M_S5), (22, moff M_S6), (23, moff M_S7), (30, moff M_FP), (31, moff M_PC)]"

definition snake_places :: "(nat \<times> 32 word) list" where
  "snake_places = [(30, hoff H_SP), (3, hoff (H_S 0)), (4, hoff (H_S 1)), (5, hoff (H_S 2)),
     (6, hoff (H_S 3)), (7, hoff (H_S 4)), (8, hoff (H_S 5)), (9, hoff (H_S 6)), (10, hoff (H_S 7)),
     (11, hoff (H_S 8)), (12, hoff (H_S 9)), (13, hoff (H_S 10)), (14, hoff (H_S 11)), (15, hoff (H_S 12)),
     (16, hoff (H_S 13)), (17, hoff (H_S 14)), (18, hoff (H_S 15)), (2, hoff H_PC)]"

interpretation mips: register_switch MIPS_SWITCH 4 5 31 mips_places
proof -
  have "MIPS_SWITCH = stores 4 mips_places @ loads 5 mips_places @ [Jr 31 nop]"
    by (simp add: MIPS_SWITCH_def stores_def loads_def mips_places_def)
  then show "register_switch MIPS_SWITCH 4 5 31 mips_places"
    using register_switch_intro [of mips_places "[]" mips_places mips_places "[]" 31 5 nop 4]
    by (simp add: mips_places_def moff_def)
qed

interpretation snake: register_switch SNAKE_SWITCH 26 25 2 snake_places
proof -
  let ?last = "Lw 18 (hoff (H_S 15)) 25" and ?ls = "take 16 snake_places @ [(2, hoff H_PC)]"
  have "SNAKE_SWITCH = stores 26 snake_places @ loads 25 ?ls @ [Jr 2 ?last]"
    by (simp add: SNAKE_SWITCH_def stores_def loads_def snake_places_def)
  then show "register_switch SNAKE_SWITCH 26 25 2 snake_places"
    using register_switch_intro [of ?ls "[(18, hoff (H_S 15))]" snake_places "take 16 snake_places"
      "[(2, hoff H_PC)]" 2 25 ?last 26]
    by (simp add: snake_places_def hoff_def)
qed

text \<open>
  What the code of a host uses: its registers for \<open>old\<close>, \<open>new\<close>, the return address and the stack
  pointer, and those that \<open>switch.h\<close> names for \<open>ThreadRoot\<close>.
\<close>

record abi =
  abi_host :: host
  abi_SWITCH :: "rinstr list"
  abi_ThreadRoot :: "rinstr list"
  abi_old :: nat
  abi_new :: nat
  abi_ra :: nat
  abi_sp :: nat
  abi_places :: "(nat \<times> 32 word) list"
  InitialPC_reg :: nat
  InitialArg_reg :: nat
  WhenDonePC_reg :: nat
  StartupPC_reg :: nat

definition MIPS :: abi where
  "MIPS = \<lparr>abi_host = HOST_MIPS, abi_SWITCH = MIPS_SWITCH, abi_ThreadRoot = MIPS_ThreadRoot,
     abi_old = 4, abi_new = 5, abi_ra = 31, abi_sp = 29, abi_places = mips_places,
     InitialPC_reg = 16, InitialArg_reg = 17, WhenDonePC_reg = 18, StartupPC_reg = 19\<rparr>"

definition SNAKE :: abi where
  "SNAKE = \<lparr>abi_host = HOST_SNAKE, abi_SWITCH = SNAKE_SWITCH, abi_ThreadRoot = SNAKE_ThreadRoot,
     abi_old = 26, abi_new = 25, abi_ra = 2, abi_sp = 30, abi_places = snake_places,
     InitialPC_reg = 3, InitialArg_reg = 4, WhenDonePC_reg = 5, StartupPC_reg = 6\<rparr>"

text \<open>The words of the \<open>Thread\<close> object at \<open>t\<close> that \<open>SWITCH\<close> uses.\<close>

definition object_words :: "abi \<Rightarrow> 32 word \<Rightarrow> 32 word list" where
  "object_words H t = map (\<lambda>(r, d). t + d) (abi_places H)"

definition saved_regs :: "abi \<Rightarrow> nat list" where
  "saved_regs H = map fst (abi_places H)"

definition risc_switch :: "abi \<Rightarrow> rcpu \<Rightarrow> rcpu" where
  "risc_switch H s = rexec (\<lambda>a s. s) (abi_SWITCH H) s"

lemma abi_switch:
  "H = MIPS \<or> H = SNAKE \<Longrightarrow> register_switch (abi_SWITCH H) (abi_old H) (abi_new H) (abi_ra H) (abi_places H)"
  using mips.register_switch_axioms snake.register_switch_axioms by (auto simp: MIPS_def SNAKE_def)

lemma object_words_set: "set (object_words H t) = (\<lambda>(r, d). t + d) ` set (abi_places H)"
  by (simp add: object_words_def)

lemma risc_round_trip:
  assumes H: "H = MIPS \<or> H = SNAKE"
    and apart: "list_all (\<lambda>a. a \<notin> set (object_words H (rd s2 (abi_new H)))) (object_words H (rd s2 (abi_old H)))"
    and t: "rd s2 (abi_new H) = rd s (abi_old H)"
    and same: "list_all (\<lambda>a. rmem s2 a = rmem (risc_switch H s) a) (object_words H (rd s (abi_old H)))"
  shows "rpc (risc_switch H s2) = rd s (abi_ra H)"
    and "r \<in> set (saved_regs H) \<Longrightarrow> rd (risc_switch H s2) r = rd s r"
proof -
  note L = abi_switch [OF H]
  have e: "register_switch.slots_of (abi_places H) (rd s2 (abi_old H)) \<inter>
      register_switch.slots_of (abi_places H) (rd s2 (abi_new H)) = {}"
    using apart by (simp only: register_switch.slots_of_def [OF L] object_words_set [symmetric] list_all_iff) blast
  have m: "rmem s2 a = rmem (rexec (\<lambda>a s. s) (abi_SWITCH H) s) a"
    if "a \<in> register_switch.slots_of (abi_places H) (rd s (abi_old H))" for a
    using same that
    by (simp only: register_switch.slots_of_def [OF L] object_words_set [symmetric] list_all_iff risc_switch_def)
  note rt = register_switch.switched_back [OF L e t m]
  show "rpc (risc_switch H s2) = rd s (abi_ra H)" unfolding risc_switch_def by (rule rt(1))
  show "r \<in> set (saved_regs H) \<Longrightarrow> rd (risc_switch H s2) r = rd s r"
    unfolding risc_switch_def using rt(2) by (simp add: saved_regs_def)
qed

text \<open>What the running thread finds in its registers, after the words of the old thread were written.\<close>

lemma risc_switched:
  assumes H: "H = MIPS \<or> H = SNAKE"
    and apart: "list_all (\<lambda>a. a \<notin> set (object_words H (rd s (abi_new H)))) (object_words H (rd s (abi_old H)))"
    and p: "(r, d) \<in> set (abi_places H)"
  shows "rd (risc_switch H s) r = rmem s (rd s (abi_new H) + d)"
proof -
  note L = abi_switch [OF H]
  have e: "register_switch.slots_of (abi_places H) (rd s (abi_old H)) \<inter>
      register_switch.slots_of (abi_places H) (rd s (abi_new H)) = {}"
    using apart by (simp only: register_switch.slots_of_def [OF L] object_words_set [symmetric] list_all_iff) blast
  show ?thesis unfolding risc_switch_def by (rule register_switch.switched_regs [OF L e p])
qed

lemma risc_pc: "H = MIPS \<or> H = SNAKE \<Longrightarrow> rpc (risc_switch H s) = rd (risc_switch H s) (abi_ra H)"
  unfolding risc_switch_def using register_switch.returns [OF abi_switch] .

section \<open>ThreadRoot\<close>

text \<open>The calling convention: the registers that \<open>SWITCH\<close> saves, but for the return address, survive a call.\<close>

definition risc_callee_saves :: "abi \<Rightarrow> (32 word \<Rightarrow> rcpu \<Rightarrow> rcpu) \<Rightarrow> bool" where
  "risc_callee_saves H callee \<longleftrightarrow> (\<forall>a s. (\<forall>r \<in> set (saved_regs H) - {abi_ra H}. rd (callee a s) r = rd s r) \<and>
     rcalls (callee a s) = rcalls s)"

lemma risc_callee_regs:
  assumes "risc_callee_saves H callee"
  shows "rcalls (callee a s) = rcalls s"
    and "H = MIPS \<Longrightarrow> r \<in> {16, 17, 18, 19} \<Longrightarrow> rregs (callee a s) r = rregs s r"
    and "H = SNAKE \<Longrightarrow> r \<in> {3, 4, 5, 6} \<Longrightarrow> rregs (callee a s) r = rregs s r"
proof -
  have k: "r \<in> set (saved_regs H) - {abi_ra H} \<Longrightarrow> rd (callee a s) r = rd s r" for r
    using assms by (simp add: risc_callee_saves_def)
  show "rcalls (callee a s) = rcalls s" using assms by (simp add: risc_callee_saves_def)
  show "H = MIPS \<Longrightarrow> r \<in> {16, 17, 18, 19} \<Longrightarrow> rregs (callee a s) r = rregs s r"
    using k [of r] by (auto simp: MIPS_def saved_regs_def mips_places_def rd_def)
  show "H = SNAKE \<Longrightarrow> r \<in> {3, 4, 5, 6} \<Longrightarrow> rregs (callee a s) r = rregs s r"
    using k [of r] by (auto simp: SNAKE_def saved_regs_def snake_places_def rd_def)
qed

lemma risc_ThreadRoot:
  assumes H: "H = MIPS \<or> H = SNAKE" and c: "risc_callee_saves H callee"
  shows "\<exists>R1 R2 R3. rcalls (rexec callee (abi_ThreadRoot H) s) = rcalls s @
    [(rd s (StartupPC_reg H), R1), (rd s (InitialPC_reg H), R2), (rd s (WhenDonePC_reg H), R3)] \<and>
    R2 (abi_old H) = rd s (InitialArg_reg H)"
proof -
  note k = risc_callee_regs [OF c]
  from H show ?thesis
  proof
    assume m: "H = MIPS"
    show ?thesis
      by (simp add: m MIPS_def MIPS_ThreadRoot_def nop_def Let_def k(1) k(2) [OF m] rd_def next_pc_def
          del: rd_upd)
  next
    assume m: "H = SNAKE"
    show ?thesis
      by (simp add: m SNAKE_def SNAKE_ThreadRoot_def Let_def k(1) k(3) [OF m] rd_def next_pc_def
          del: rd_upd)
  qed
qed

end
