(* ===== verification/RiscProps.thy ===== *)
theory RiscProps
  imports SwitchProps RiscSwitch
begin

text \<open>
  The context switch on MIPS and PA-RISC: the same two facts as for the i386 in \<open>SwitchProps\<close>.
\<close>

section \<open>Round trip\<close>

text \<open>
  C30: MIPS and PA-RISC: a thread that calls \<open>SWITCH\<close> and is later switched to, by any thread, continues
  at its return address with its stack pointer, frame pointer and callee-saved registers, provided
  that nobody wrote its \<open>Thread\<close> object meanwhile and that it does not overlap the other thread's.
\<close>

theorem risc_switch_round_trip:
  assumes "H = MIPS \<or> H = SNAKE" and "rd s2 (abi_new H) = rd s (abi_old H)"
    and "list_all (\<lambda>a. a \<notin> set (object_words H (rd s2 (abi_new H)))) (object_words H (rd s2 (abi_old H)))"
    and "list_all (\<lambda>a. rmem s2 a = rmem (risc_switch H s) a) (object_words H (rd s (abi_old H)))"
  shows "rpc (risc_switch H s2) = rd s (abi_ra H) \<and>
    (\<forall>r. r \<in> set (saved_regs H) \<longrightarrow> rd (risc_switch H s2) r = rd s r)"
  using risc_round_trip [OF assms(1,3,2,4)] by blast

text \<open>A switch from the object at \<open>0x2000\<close> to the one at \<open>0x3000\<close>, and one back.\<close>

definition risc_sample :: rcpu where
  "risc_sample = \<lparr>rregs = (\<lambda>_. 0)(4 := 0x2000, 5 := 0x3000, 16 := 7, 29 := 0x8000, 31 := 99), rmem = (\<lambda>_. 0),
     rpc = 0, rcalls = []\<rparr>"

definition risc_sample_back :: rcpu where
  "risc_sample_back = (risc_switch MIPS risc_sample)\<lparr>rregs := (\<lambda>_. 0)(4 := 0x3000, 5 := 0x2000)\<rparr>"

theorem risc_switch_round_trip_witness:
  "rpc (risc_switch MIPS risc_sample_back) = 99 \<and> rd (risc_switch MIPS risc_sample_back) 16 = 7"
proof -
  have t: "rd risc_sample_back (abi_new MIPS) = rd risc_sample (abi_old MIPS)"
    by (simp add: risc_sample_back_def risc_sample_def MIPS_def rd_def)
  have apart: "list_all (\<lambda>a. a \<notin> set (object_words MIPS (rd risc_sample_back (abi_new MIPS))))
      (object_words MIPS (rd risc_sample_back (abi_old MIPS)))"
    by (simp add: object_words_def risc_sample_back_def MIPS_def rd_def mips_places_def moff_def)
  have same: "list_all (\<lambda>a. rmem risc_sample_back a = rmem (risc_switch MIPS risc_sample) a)
      (object_words MIPS (rd risc_sample (abi_old MIPS)))"
    by (simp add: risc_sample_back_def list_all_iff)
  have "16 \<in> set (saved_regs MIPS)" "rd risc_sample (abi_ra MIPS) = 99" "rd risc_sample 16 = 7"
    by (simp_all add: saved_regs_def MIPS_def mips_places_def risc_sample_def rd_def)
  with risc_switch_round_trip [OF disjI1 [OF refl] t apart same] show ?thesis by auto
qed

section \<open>The first switch to a thread\<close>

lemma risc_state_places:
  assumes "H = MIPS \<or> H = SNAKE"
  shows "(abi_ra H, of_nat (4 + 4 * PCState (abi_host H))) \<in> set (abi_places H)"
    and "(StartupPC_reg H, of_nat (4 + 4 * StartupPCState (abi_host H))) \<in> set (abi_places H)"
    and "(InitialPC_reg H, of_nat (4 + 4 * InitialPCState (abi_host H))) \<in> set (abi_places H)"
    and "(InitialArg_reg H, of_nat (4 + 4 * InitialArgState (abi_host H))) \<in> set (abi_places H)"
    and "(WhenDonePC_reg H, of_nat (4 + 4 * WhenDonePCState (abi_host H))) \<in> set (abi_places H)"
    and "(abi_sp H, 0) \<in> set (abi_places H)"
  using assms
  by (auto simp: MIPS_def SNAKE_def mips_places_def snake_places_def moff_def hoff_def)

text \<open>
  C31: MIPS and PA-RISC: the first switch to a thread that \<open>StackAllocate\<close> prepared jumps to \<open>ThreadRoot\<close>
  with the stack pointer inside the thread's stack; \<open>ThreadRoot\<close> then calls \<open>InterruptEnable\<close>, the
  thread's procedure with its argument in the first argument register, and \<open>ThreadFinish\<close>.
\<close>

theorem risc_first_switch:
  assumes "H = MIPS \<or> H = SNAKE" and "host pf = abi_host H" and "threads k u = Some T0"
    and "Thread_StackAllocate pf u func arg k = Inr k1" and "threads k1 u = Some T"
    and "in_memory T (rd s (abi_new H)) base (rmem s)"
    and "list_all (\<lambda>a. a \<notin> set (object_words H (rd s (abi_new H)))) (object_words H (rd s (abi_old H)))"
    and "risc_callee_saves H callee"
  shows "rpc (risc_switch H s) = addr_ThreadRoot pf \<and>
    (\<exists>top < StackSize. stackTop T = Some top \<and> rd (risc_switch H s) (abi_sp H) = base + of_nat (4 * top)) \<and>
    (\<exists>R1 R2 R3. rcalls (rexec callee (abi_ThreadRoot H) (risc_switch H s)) = rcalls (risc_switch H s) @
      [(addr_InterruptEnable pf, R1), (func, R2), (addr_ThreadFinish pf, R3)] \<and> R2 (abi_old H) = arg)"
proof -
  obtain blk m0 where blk: "AllocBoundedArray pf (StackSize * 4) (interrupt k) = (blk, m0)" by fastforce
  have T: "machineState T (PCState (host pf)) = Some (addr_ThreadRoot pf)"
    "machineState T (StartupPCState (host pf)) = Some (addr_InterruptEnable pf)"
    "machineState T (InitialPCState (host pf)) = Some func"
    "machineState T (InitialArgState (host pf)) = Some arg"
    "machineState T (WhenDonePCState (host pf)) = Some (addr_ThreadFinish pf)"
    "\<exists>top < StackSize. stackTop T = Some top"
    using assms(1-5) blk
    by (auto simp: Thread_StackAllocate_def init_stack_def StackSize_def Let_def MIPS_def SNAKE_def)
  have bound: "i \<in> set (state_indices (host pf)) \<Longrightarrow> i < MachineStateSize" for i
    using state_indices_bound by blast
  have load: "rd (risc_switch H s) r = v"
    if "(r, of_nat (4 + 4 * i)) \<in> set (abi_places H)" "machineState T i = Some v" "i \<in> set (state_indices (host pf))"
    for r i v
    using risc_switched [OF assms(1,7) that(1)] in_memory_slot [OF assms(6) that(2) bound [OF that(3)]] by simp
  note places = risc_state_places [OF assms(1), folded assms(2)]
  have regs: "rd (risc_switch H s) (abi_ra H) = addr_ThreadRoot pf"
    "rd (risc_switch H s) (StartupPC_reg H) = addr_InterruptEnable pf"
    "rd (risc_switch H s) (InitialPC_reg H) = func" "rd (risc_switch H s) (InitialArg_reg H) = arg"
    "rd (risc_switch H s) (WhenDonePC_reg H) = addr_ThreadFinish pf"
    by (rule load [OF places(1) T(1)] load [OF places(2) T(2)] load [OF places(3) T(3)]
        load [OF places(4) T(4)] load [OF places(5) T(5)]; simp add: state_indices_def)+
  from T(6) obtain top where top: "top < StackSize" "stackTop T = Some top" by blast
  then have "rd (risc_switch H s) (abi_sp H) = base + of_nat (4 * top)"
    using risc_switched [OF assms(1,7) places(6)] assms(6) by (simp add: in_memory_def)
  with top risc_pc [OF assms(1), of s] risc_ThreadRoot [OF assms(1,8), of "risc_switch H s"] regs
  show ?thesis by auto
qed

definition mips_machine :: "IntStatus platform" where
  "mips_machine = plain_machine\<lparr>host := HOST_MIPS\<rparr>"

definition mips_fresh_cpu :: rcpu where
  "mips_fresh_cpu = \<lparr>rregs = (\<lambda>_. 0)(4 := 0x2000, 5 := 0x3000),
     rmem = (\<lambda>_. 0)(0x3000 := 0x13FF0, 0x3004 := 10, 0x3008 := 7, 0x300C := 3, 0x3010 := 2, 0x3028 := 1,
       0x10000 := 0xdeadbeef), rpc = 0, rcalls = []\<rparr>"

theorem risc_first_switch_witness:
  "rpc (risc_switch MIPS mips_fresh_cpu) = 1 \<and>
   (\<exists>R1 R2 R3. rcalls (rexec (\<lambda>a s. s) (abi_ThreadRoot MIPS) (risc_switch MIPS mips_fresh_cpu)) =
      rcalls (risc_switch MIPS mips_fresh_cpu) @ [(2, R1), (10, R2), (3, R3)] \<and> R2 4 = 7)"
proof -
  have T0: "threads (solo 0 []) 3 = Some first_thread" by (simp add: solo_def)
  obtain k1 T where k1: "Thread_StackAllocate mips_machine 3 10 7 (solo 0 []) = Inr k1" "threads k1 3 = Some T"
    "stackTop T = Some 4092" "stack T = Some [0 \<mapsto> 0xdeadbeef]"
    "machineState T = [9 \<mapsto> 1, 3 \<mapsto> 2, 0 \<mapsto> 10, 1 \<mapsto> 7, 2 \<mapsto> 3]"
    using T0 by (simp add: Thread_StackAllocate_def init_stack_def mips_machine_def plain_machine_def
        StackSize_def STACK_FENCEPOST_def first_thread_def Let_def)
  have h: "host mips_machine = abi_host MIPS" by (simp add: mips_machine_def MIPS_def)
  have m: "in_memory T (rd mips_fresh_cpu (abi_new MIPS)) 0x10000 (rmem mips_fresh_cpu)"
    unfolding in_memory_def k1(3-5) by (auto simp: mips_fresh_cpu_def MIPS_def rd_def split: if_splits)
  have apart: "list_all (\<lambda>a. a \<notin> set (object_words MIPS (rd mips_fresh_cpu (abi_new MIPS))))
      (object_words MIPS (rd mips_fresh_cpu (abi_old MIPS)))"
    by (simp add: object_words_def mips_fresh_cpu_def MIPS_def rd_def mips_places_def moff_def)
  have c: "risc_callee_saves MIPS (\<lambda>a s. s)" by (simp add: risc_callee_saves_def)
  from risc_first_switch [OF disjI1 [OF refl] h T0 k1(1,2) m apart c] show ?thesis
    by (simp add: mips_machine_def plain_machine_def MIPS_def)
qed

end
