(* ===== verification/SparcSwitch.thy ===== *)
theory SparcSwitch
  imports SwitchConstants
begin

text \<open>
  The SUN SPARC part of \<open>switch.s\<close>: \<open>SWITCH\<close> and \<open>ThreadRoot\<close>, instruction by instruction, on a
  machine with register windows. \<open>save\<close> makes a new window, whose in registers are the caller's out
  registers; \<open>restore\<close> goes back. Windows of callers are in the register file (\<open>resident\<close>,
  innermost first) or in the save areas at their stack pointers; \<open>restore\<close> takes the caller's window
  from its save area when it is not in the register file (the window underflow trap).
\<close>

section \<open>The machine\<close>

type_synonym window = "(nat \<Rightarrow> 32 word) \<times> (nat \<Rightarrow> 32 word)"

record sparc =
  outs :: "nat \<Rightarrow> 32 word"
  locals :: "nat \<Rightarrow> 32 word"
  ins :: "nat \<Rightarrow> 32 word"
  resident :: "window list"
  smem :: "32 word \<Rightarrow> 32 word"
  spc :: "32 word"
  scalls :: "(32 word \<times> (nat \<Rightarrow> 32 word)) list"

text \<open>\<open>%g0\<close> reads 0. \<open>%sp\<close> is \<open>%o6\<close>, \<open>%fp\<close> is \<open>%i6\<close>; calls link in \<open>%o7\<close>.\<close>

datatype sreg = G0 | R_O nat | R_L nat | R_I nat

datatype sinstr =
    Save "32 word"
  | Restore
  | St sreg sreg "32 word"
  | Ld sreg "32 word" sreg
  | Mov sreg sreg
  | SNop
  | Ta_FLUSH_WINDOWS
  | Ta_BREAKPOINT
  | Call sreg sinstr
  | Ret sinstr

fun rs :: "sparc \<Rightarrow> sreg \<Rightarrow> 32 word" where
  "rs s G0 = 0"
| "rs s (R_O i) = outs s i"
| "rs s (R_L i) = locals s i"
| "rs s (R_I i) = ins s i"

fun set_reg :: "sreg \<Rightarrow> 32 word \<Rightarrow> sparc \<Rightarrow> sparc" where
  "set_reg G0 v s = s"
| "set_reg (R_O i) v s = s\<lparr>outs := (outs s)(i := v)\<rparr>"
| "set_reg (R_L i) v s = s\<lparr>locals := (locals s)(i := v)\<rparr>"
| "set_reg (R_I i) v s = s\<lparr>ins := (ins s)(i := v)\<rparr>"

text \<open>The save area of a window at its stack pointer: the locals, then the ins.\<close>

definition load_window :: "(32 word \<Rightarrow> 32 word) \<Rightarrow> 32 word \<Rightarrow> window" where
  "load_window m sp = ((\<lambda>j. m (sp + 4 * of_nat j)), (\<lambda>j. m (sp + 32 + 4 * of_nat j)))"

definition save_area :: "32 word \<Rightarrow> 32 word list" where
  "save_area sp = map (\<lambda>j. sp + 4 * of_nat j) [0..<16]"

text \<open>
  What the code relies on from elsewhere: the handler of the trap \<open>ST_FLUSH_WINDOWS\<close> (the operating
  system), the locals and outs that a new window starts with, the amount \<open>SA(MINFRAME)\<close> by which
  \<open>SWITCH\<close> extends the stack (from a header of the system), and the procedures called.
\<close>

record sparc_env =
  flush_windows :: "sparc \<Rightarrow> sparc"
  new_window :: "sparc \<Rightarrow> (nat \<Rightarrow> 32 word) \<times> (nat \<Rightarrow> 32 word)"
  min_frame :: "32 word"
  procedure :: "32 word \<Rightarrow> sparc \<Rightarrow> sparc"

fun exec_sinstr :: "sparc_env \<Rightarrow> sinstr \<Rightarrow> sparc \<Rightarrow> sparc" where
  "exec_sinstr E (Save n) s =
     (let sp = outs s 6 + n; (l, out) = new_window E s
      in s\<lparr>resident := (locals s, ins s) # resident s, ins := outs s, locals := l, outs := out(6 := sp)\<rparr>)"
| "exec_sinstr E Restore s =
     (case resident s of
        (l, i) # ws \<Rightarrow> s\<lparr>outs := ins s, locals := l, ins := i, resident := ws\<rparr>
      | [] \<Rightarrow> (let (l, i) = load_window (smem s) (ins s 6)
              in s\<lparr>outs := ins s, locals := l, ins := i\<rparr>))"
| "exec_sinstr E (St r b d) s = s\<lparr>smem := (smem s)(rs s b + d := rs s r)\<rparr>"
| "exec_sinstr E (Ld b d r) s = set_reg r (smem s (rs s b + d)) s"
| "exec_sinstr E (Mov a r) s = set_reg r (rs s a) s"
| "exec_sinstr E SNop s = s"
| "exec_sinstr E Ta_FLUSH_WINDOWS s = flush_windows E s"
| "exec_sinstr E Ta_BREAKPOINT s = s"
| "exec_sinstr E (Call r slot) s =
     (let a = rs s r; s = exec_sinstr E slot (set_reg (R_O 7) (spc s) s)
      in procedure E a (s\<lparr>scalls := scalls s @ [(a, outs s)]\<rparr>))"
| "exec_sinstr E (Ret slot) s =
     (let a = ins s 7 + 8; s = exec_sinstr E slot s in s\<lparr>spc := a\<rparr>)"

text \<open>
  The program counter is at the instruction being run. A call leaves it where the procedure returns,
  \<open>ret\<close> at its target; every other instruction goes on to the next one.
\<close>

fun advance :: "sinstr \<Rightarrow> sparc \<Rightarrow> sparc" where
  "advance (Call r slot) s = s"
| "advance (Ret slot) s = s"
| "advance i s = s\<lparr>spc := spc s + 4\<rparr>"

fun sexec :: "sparc_env \<Rightarrow> sinstr list \<Rightarrow> sparc \<Rightarrow> sparc" where
  "sexec E [] s = s"
| "sexec E (i # is) s = sexec E is (advance i (exec_sinstr E i s))"

section \<open>The code\<close>

definition ioff :: "sparc_reg \<Rightarrow> 32 word" where
  "ioff r = of_nat (sparc_offset r)"

definition SPARC_SWITCH :: "sparc_env \<Rightarrow> sinstr list" where
  "SPARC_SWITCH E =
     [Save (- min_frame E),
      St (R_I 6) (R_I 0) 0,
      St (R_I 0) (R_I 0) (ioff R_I0), St (R_I 1) (R_I 0) (ioff R_I1), St (R_I 2) (R_I 0) (ioff R_I2),
      St (R_I 3) (R_I 0) (ioff R_I3), St (R_I 4) (R_I 0) (ioff R_I4), St (R_I 5) (R_I 0) (ioff R_I5),
      St (R_I 7) (R_I 0) (ioff R_I7),
      Ta_FLUSH_WINDOWS, SNop,
      Mov (R_I 1) (R_L 0),
      Ld (R_L 0) (ioff R_I0) (R_I 0), Ld (R_L 0) (ioff R_I1) (R_I 1), Ld (R_L 0) (ioff R_I2) (R_I 2),
      Ld (R_L 0) (ioff R_I3) (R_I 3), Ld (R_L 0) (ioff R_I4) (R_I 4), Ld (R_L 0) (ioff R_I5) (R_I 5),
      Ld (R_L 0) (ioff R_I7) (R_I 7),
      Ld (R_L 0) 0 (R_I 6),
      Ret Restore]"

text \<open>
  \<open>InitialPC\<close>, \<open>InitialArg\<close>, \<open>WhenDonePC\<close>, \<open>StartupPC\<close> are \<open>%o0\<close>, \<open>%o1\<close>, \<open>%o2\<close>, \<open>%o3\<close>. \<open>clr %fp\<close> moves
  \<open>%g0\<close> there.
\<close>

definition SPARC_ThreadRoot :: "sinstr list" where
  "SPARC_ThreadRoot =
     [SNop, SNop,
      Mov G0 (R_I 6),
      Mov (R_O 0) (R_L 0), Mov (R_O 1) (R_L 1), Mov (R_O 2) (R_L 2),
      Call (R_O 3) SNop,
      Call (R_L 0) (Mov (R_L 1) (R_O 0)),
      Call (R_L 2) SNop,
      Ta_BREAKPOINT]"

definition sparc_switch :: "sparc_env \<Rightarrow> sparc \<Rightarrow> sparc" where
  "sparc_switch E s = sexec E (SPARC_SWITCH E) s"

section \<open>Windows in memory\<close>

fun stored :: "(32 word \<Rightarrow> 32 word) \<Rightarrow> 32 word \<Rightarrow> window list \<Rightarrow> bool" where
  "stored m sp [] \<longleftrightarrow> True"
| "stored m sp ((l, i) # ws) \<longleftrightarrow>
     (\<forall>j < 8. m (sp + 4 * of_nat j) = l j \<and> m (sp + 32 + 4 * of_nat j) = i j) \<and> stored m (i 6) ws"

text \<open>The words of the save areas of a chain of windows.\<close>

fun areas :: "32 word \<Rightarrow> window list \<Rightarrow> 32 word list" where
  "areas sp [] = []"
| "areas sp ((l, i) # ws) = save_area sp @ areas (i 6) ws"

definition all_areas :: "sparc \<Rightarrow> 32 word list" where
  "all_areas s = save_area (outs s 6) @ areas (ins s 6) (resident s)"

text \<open>
  The documented effect of the trap: every window of a caller is in its save area afterwards and no
  longer in the register file; no register changes, and no memory but the save areas.
\<close>

definition flush_ok :: "(sparc \<Rightarrow> sparc) \<Rightarrow> bool" where
  "flush_ok flush \<longleftrightarrow> (\<forall>s.
     outs (flush s) = outs s \<and> locals (flush s) = locals s \<and> ins (flush s) = ins s \<and>
     resident (flush s) = [] \<and> spc (flush s) = spc s \<and> scalls (flush s) = scalls s \<and>
     (distinct (all_areas s) \<longrightarrow> stored (smem (flush s)) (ins s 6) (resident s)) \<and>
     (\<forall>a. a \<notin> set (all_areas s) \<longrightarrow> smem (flush s) a = smem s a))"

lemma flush_okD:
  assumes "flush_ok flush"
  shows "outs (flush s) = outs s" "locals (flush s) = locals s" "ins (flush s) = ins s"
    "resident (flush s) = []" "spc (flush s) = spc s" "scalls (flush s) = scalls s"
    "distinct (all_areas s) \<Longrightarrow> stored (smem (flush s)) (ins s 6) (resident s)"
    "a \<notin> set (all_areas s) \<Longrightarrow> smem (flush s) a = smem s a"
  using assms by (simp_all add: flush_ok_def)

lemma save_area_words:
  "j < 8 \<Longrightarrow> sp + 4 * of_nat j \<in> set (save_area sp)" "j < 8 \<Longrightarrow> sp + 32 + 4 * of_nat j \<in> set (save_area sp)"
proof -
  show "j < 8 \<Longrightarrow> sp + 4 * of_nat j \<in> set (save_area sp)"
    by (auto simp: save_area_def)
  have "sp + 32 + 4 * of_nat j = sp + 4 * of_nat (j + 8)" by simp
  then show "j < 8 \<Longrightarrow> sp + 32 + 4 * of_nat j \<in> set (save_area sp)"
    by (auto simp: save_area_def intro!: image_eqI [of _ _ "j + 8"])
qed

lemma stored_cong:
  "(\<And>a. a \<in> set (areas sp ws) \<Longrightarrow> m' a = m a) \<Longrightarrow> stored m' sp ws = stored m sp ws"
proof (induction m sp ws rule: stored.induct)
  case (2 m sp l i ws)
  have "m' (sp + 4 * of_nat j) = m (sp + 4 * of_nat j)" "m' (sp + 32 + 4 * of_nat j) = m (sp + 32 + 4 * of_nat j)"
    if "j < 8" for j using 2(2) save_area_words [OF that, of sp] by auto
  moreover have "stored m' (i 6) ws = stored m (i 6) ws" using 2 by auto
  ultimately show ?case by auto
qed simp

lemma sexec_append: "sexec E (xs @ ys) s = sexec E ys (sexec E xs s)"
  by (induction E xs s rule: sexec.induct) simp_all

section \<open>What SWITCH does\<close>

text \<open>Where \<open>SWITCH\<close> keeps register \<open>i\<close> of the caller's outs: the stack pointer in \<open>stackTop\<close>.\<close>

definition slot :: "32 word \<Rightarrow> nat \<Rightarrow> 32 word" where
  "slot t i = (if i = 6 then t else t + 4 * of_nat (Suc i))"

definition thread_words :: "32 word \<Rightarrow> 32 word list" where
  "thread_words t = map (slot t) [0..<8]"

definition callers :: "sparc \<Rightarrow> window list" where
  "callers s = (locals s, ins s) # resident s"

text \<open>The save areas \<open>SWITCH\<close> may write: that of its own frame and those of its callers.\<close>

definition switch_areas :: "sparc_env \<Rightarrow> sparc \<Rightarrow> 32 word list" where
  "switch_areas E s = save_area (outs s 6 - min_frame E) @ areas (outs s 6) (callers s)"

definition sparc_entry :: "sparc_env \<Rightarrow> sparc \<Rightarrow> 32 word \<Rightarrow> 32 word \<Rightarrow> bool" where
  "sparc_entry E s t1 t2 \<longleftrightarrow>
     flush_ok (flush_windows E) \<and> outs s 0 = t1 \<and> outs s 1 = t2 \<and>
     distinct (thread_words t1 @ thread_words t2 @ switch_areas E s)"

definition save_part :: "sparc_env \<Rightarrow> sinstr list" where
  "save_part E = take 9 (SPARC_SWITCH E)"

definition load_part :: "sparc_env \<Rightarrow> sinstr list" where
  "load_part E = drop 10 (SPARC_SWITCH E)"

lemma SWITCH_parts: "SPARC_SWITCH E = save_part E @ Ta_FLUSH_WINDOWS # load_part E"
  by (simp add: save_part_def load_part_def SPARC_SWITCH_def)

lemma less_8_cases: "(i::nat) < 8 \<Longrightarrow> i = 0 \<or> i = 1 \<or> i = 2 \<or> i = 3 \<or> i = 4 \<or> i = 5 \<or> i = 6 \<or> i = 7"
  by presburger

lemma save_part_effect:
  fixes E s defines "s1 \<equiv> sexec E (save_part E) s"
  shows "outs s1 6 = outs s 6 - min_frame E" "ins s1 = outs s" "resident s1 = callers s"
    "scalls s1 = scalls s"
    "smem s1 = (smem s)(slot (outs s 0) 6 := outs s 6, slot (outs s 0) 0 := outs s 0,
       slot (outs s 0) 1 := outs s 1, slot (outs s 0) 2 := outs s 2, slot (outs s 0) 3 := outs s 3,
       slot (outs s 0) 4 := outs s 4, slot (outs s 0) 5 := outs s 5, slot (outs s 0) 7 := outs s 7)"
  unfolding s1_def
  by (simp_all add: save_part_def SPARC_SWITCH_def callers_def slot_def ioff_def case_prod_unfold Let_def)

lemma load_part_effect:
  fixes E s defines "s3 \<equiv> sexec E (load_part E) s"
  assumes "resident s = []"
  shows "i < 8 \<Longrightarrow> outs s3 i = smem s (slot (ins s 1) i)"
    "spc s3 = smem s (slot (ins s 1) 7) + 8"
    "(locals s3, ins s3) = load_window (smem s) (smem s (slot (ins s 1) 6))"
    "resident s3 = []" "smem s3 = smem s" "scalls s3 = scalls s"
  using assms
  by (auto dest!: less_8_cases simp: load_part_def SPARC_SWITCH_def slot_def ioff_def load_window_def)

lemma slot_eq: "distinct (thread_words t) \<Longrightarrow> i < 8 \<Longrightarrow> j < 8 \<Longrightarrow> slot t i = slot t j \<longleftrightarrow> i = j"
  by (auto simp: thread_words_def distinct_map inj_on_def)

lemma slot_in: "i < 8 \<Longrightarrow> slot t i \<in> set (thread_words t)"
  by (auto simp: thread_words_def)

lemma sparc_switch_effect:
  fixes E s defines "s' \<equiv> sparc_switch E s"
  assumes "sparc_entry E s t1 t2"
  shows saved_outs: "i < 8 \<Longrightarrow> smem s' (slot t1 i) = outs s i"
    and stored_callers: "stored (smem s') (outs s 6) (callers s)"
    and other_memory: "a \<notin> set (thread_words t1) \<Longrightarrow> a \<notin> set (switch_areas E s) \<Longrightarrow> smem s' a = smem s a"
    and loaded_outs: "i < 8 \<Longrightarrow> outs s' i = smem s (slot t2 i)"
    and return_address: "spc s' = smem s (slot t2 7) + 8"
    and loaded_window: "(locals s', ins s') = load_window (smem s') (smem s (slot t2 6))"
    and "resident s' = []" "scalls s' = scalls s"
proof -
  define s1 where "s1 = sexec E (save_part E) s"
  define s2 where "s2 = advance Ta_FLUSH_WINDOWS (flush_windows E s1)"
  have s': "s' = sexec E (load_part E) s2"
    by (simp add: s'_def s2_def s1_def sparc_switch_def SWITCH_parts sexec_append)
  have e: "flush_ok (flush_windows E)" "outs s 0 = t1" "outs s (Suc 0) = t2"
    and d: "distinct (thread_words t1)" "set (thread_words t1) \<inter> set (switch_areas E s) = {}"
    "set (thread_words t1) \<inter> set (thread_words t2) = {}" "set (thread_words t2) \<inter> set (switch_areas E s) = {}"
    "distinct (switch_areas E s)"
    using assms(2) by (auto simp: sparc_entry_def)
  note s1 = save_part_effect [of E s, folded s1_def]
  have areas: "all_areas s1 = switch_areas E s" by (simp add: all_areas_def switch_areas_def s1)
  have s2: "ins s2 = outs s" "resident s2 = []" "scalls s2 = scalls s"
    "stored (smem s2) (outs s 6) (callers s)" "a \<notin> set (switch_areas E s) \<Longrightarrow> smem s2 a = smem s1 a" for a
    using flush_okD [OF e(1), where s = s1] d(5) by (simp_all add: s2_def s1 areas)
  note s3 = load_part_effect [OF s2(2), where E = E, folded s']
  have out1: "smem s1 a = smem s a" if "a \<notin> set (thread_words t1)" for a
    using that slot_in [of _ t1] by (auto simp: s1 e)
  show "i < 8 \<Longrightarrow> smem s' (slot t1 i) = outs s i"
  proof -
    assume i: "i < 8"
    then have "slot t1 i \<notin> set (switch_areas E s)" using slot_in d(2) by blast
    then have "smem s' (slot t1 i) = smem s1 (slot t1 i)" by (simp add: s3 s2)
    then show ?thesis using i less_8_cases [OF i] by (auto simp: s1 e slot_eq [OF d(1)])
  qed
  show "stored (smem s') (outs s 6) (callers s)" by (simp add: s3 s2)
  show "a \<notin> set (thread_words t1) \<Longrightarrow> a \<notin> set (switch_areas E s) \<Longrightarrow> smem s' a = smem s a"
    by (simp add: s3 s2 out1)
  have t2: "smem s2 (slot t2 i) = smem s (slot t2 i)" if "i < 8" for i
  proof -
    have "slot t2 i \<notin> set (switch_areas E s)" "slot t2 i \<notin> set (thread_words t1)"
      using slot_in [OF that, of t2] d(3,4) by auto
    then show ?thesis by (simp add: s2 out1)
  qed
  show "i < 8 \<Longrightarrow> outs s' i = smem s (slot t2 i)" by (simp add: s3 s2 e t2)
  show "spc s' = smem s (slot t2 7) + 8" by (simp add: s3 s2 e t2)
  show "(locals s', ins s') = load_window (smem s') (smem s (slot t2 6))" by (simp add: s3 s2 e t2)
  show "resident s' = []" "scalls s' = scalls s" by (simp_all add: s3 s2)
qed

section \<open>ThreadRoot\<close>

text \<open>The calling convention: a procedure keeps its caller's window and its log is the only other trace.\<close>

definition keeps_window :: "(32 word \<Rightarrow> sparc \<Rightarrow> sparc) \<Rightarrow> bool" where
  "keeps_window proc \<longleftrightarrow> (\<forall>a s. locals (proc a s) = locals s \<and> scalls (proc a s) = scalls s)"

lemma SPARC_ThreadRoot_calls:
  assumes "keeps_window (procedure E)"
  shows "\<exists>o1 o2 o3. scalls (sexec E (drop 2 SPARC_ThreadRoot) s) =
      scalls s @ [(outs s 3, o1), (outs s 0, o2), (outs s 2, o3)] \<and> o2 0 = outs s 1"
  using assms by (simp add: SPARC_ThreadRoot_def keeps_window_def Let_def)

section \<open>A trap handler\<close>

text \<open>A handler that writes every caller's window to its save area.\<close>

definition write_window :: "(32 word \<Rightarrow> 32 word) \<Rightarrow> 32 word \<Rightarrow> window \<Rightarrow> (32 word \<Rightarrow> 32 word)" where
  "write_window m sp w =
     fold (\<lambda>j m. m(sp + 4 * of_nat j := (if j < 8 then fst w j else snd w (j - 8)))) [0..<16] m"

fun write_windows :: "(32 word \<Rightarrow> 32 word) \<Rightarrow> 32 word \<Rightarrow> window list \<Rightarrow> (32 word \<Rightarrow> 32 word)" where
  "write_windows m sp [] = m"
| "write_windows m sp ((l, i) # ws) = write_windows (write_window m sp (l, i)) (i 6) ws"

definition flush_all :: "sparc \<Rightarrow> sparc" where
  "flush_all s = s\<lparr>smem := write_windows (smem s) (ins s 6) (resident s), resident := []\<rparr>"

lemma fold_writes:
  "a \<notin> f ` set js \<Longrightarrow> fold (\<lambda>j m. m(f j := g j)) js m a = m a"
  "distinct (map f js) \<Longrightarrow> j \<in> set js \<Longrightarrow> fold (\<lambda>j m. m(f j := g j)) js m (f j) = g j"
proof -
  show out: "a \<notin> f ` set js \<Longrightarrow> fold (\<lambda>j m. m(f j := g j)) js m a = m a" for a js m
    by (induction js arbitrary: m) auto
  show "distinct (map f js) \<Longrightarrow> j \<in> set js \<Longrightarrow> fold (\<lambda>j m. m(f j := g j)) js m (f j) = g j"
    by (induction js arbitrary: m) (auto simp: out)
qed

lemma write_window_other: "a \<notin> set (save_area sp) \<Longrightarrow> write_window m sp w a = m a"
  unfolding write_window_def by (rule fold_writes(1)) (simp add: save_area_def)

lemma write_window_words:
  assumes "distinct (save_area sp)" and "j < 8"
  shows "write_window m sp w (sp + 4 * of_nat j) = fst w j"
    "write_window m sp w (sp + 32 + 4 * of_nat j) = snd w j"
proof -
  have at: "write_window m sp w (sp + 4 * of_nat n) = (if n < 8 then fst w n else snd w (n - 8))" if "n < 16" for n
    unfolding write_window_def using assms(1) that
    by (intro fold_writes(2) [of "\<lambda>n. sp + 4 * of_nat n"]) (simp_all add: save_area_def)
  show "write_window m sp w (sp + 4 * of_nat j) = fst w j" using at [of j] assms(2) by simp
  have "sp + 32 + 4 * of_nat j = sp + 4 * of_nat (j + 8)" by simp
  then show "write_window m sp w (sp + 32 + 4 * of_nat j) = snd w j"
    using at [of "j + 8"] assms(2) by (simp only:) simp
qed

lemma write_windows_other: "a \<notin> set (areas sp ws) \<Longrightarrow> write_windows m sp ws a = m a"
  by (induction m sp ws rule: write_windows.induct) (simp_all add: write_window_other)

lemma write_windows_stored: "distinct (areas sp ws) \<Longrightarrow> stored (write_windows m sp ws) sp ws"
proof (induction m sp ws rule: write_windows.induct)
  case (2 m sp l i ws)
  then have d: "distinct (save_area sp)" "\<And>a. a \<in> set (save_area sp) \<Longrightarrow> a \<notin> set (areas (i 6) ws)"
    "distinct (areas (i 6) ws)" by auto
  have "write_windows m sp ((l, i) # ws) a = write_window m sp (l, i) a" if "a \<in> set (save_area sp)" for a
    using that d(2) by (simp add: write_windows_other)
  then show ?case using 2(1) d(1,3) by (simp add: save_area_words write_window_words)
qed simp

lemma flush_all_ok: "flush_ok flush_all"
  by (auto simp: flush_ok_def flush_all_def all_areas_def write_windows_other write_windows_stored)

end
