(* ===== verification/SparcProps.thy ===== *)
theory SparcProps
  imports SwitchProps SparcSwitch
begin

text \<open>
  The context switch on the SUN SPARC: the same two facts as for the i386 in \<open>SwitchProps\<close>, here with
  the windows of all callers.
\<close>

section \<open>Round trip\<close>

text \<open>
  C32: SPARC: a thread that calls \<open>SWITCH\<close> and is later switched to, by any thread, continues after its
  call with its whole window, and the windows of its callers are in their save areas, from where
  \<open>restore\<close> takes them, provided that nobody wrote its \<open>Thread\<close> object or its stack meanwhile and
  that the other thread's object and stack are elsewhere.
\<close>

theorem sparc_switch_round_trip:
  assumes "sparc_entry E s t1 t2" and "sparc_entry E s2 t' t1"
    and "list_all (\<lambda>a. smem s2 a = smem (sparc_switch E s) a) (thread_words t1 @ areas (outs s 6) (callers s))"
    and "list_all (\<lambda>a. a \<notin> set (thread_words t' @ switch_areas E s2)) (areas (outs s 6) (callers s))"
  shows "spc (sparc_switch E s2) = outs s 7 + 8 \<and>
    (\<forall>i < 8. outs (sparc_switch E s2) i = outs s i \<and> locals (sparc_switch E s2) i = locals s i \<and>
      ins (sparc_switch E s2) i = ins s i) \<and>
    resident (sparc_switch E s2) = [] \<and> stored (smem (sparc_switch E s2)) (ins s 6) (resident s)"
proof -
  let ?s' = "sparc_switch E s2"
  have word: "smem s2 (slot t1 i) = outs s i" if "i < 8" for i
    using assms(3) saved_outs [OF assms(1) that] slot_in [OF that, of t1] by (simp add: list_all_iff)
  have "smem ?s' a = smem (sparc_switch E s) a" if "a \<in> set (areas (outs s 6) (callers s))" for a
    using that assms(3,4) by (simp add: list_all_iff other_memory [OF assms(2)])
  then have chain: "stored (smem ?s') (outs s 6) (callers s)"
    using stored_callers [OF assms(1)] stored_cong by blast
  have "(locals ?s', ins ?s') = load_window (smem ?s') (outs s 6)"
    using loaded_window [OF assms(2)] word by simp
  then have "\<forall>i < 8. locals ?s' i = locals s i \<and> ins ?s' i = ins s i"
    using chain by (simp add: callers_def load_window_def)
  then show ?thesis
    using chain word by (simp add: loaded_outs [OF assms(2)] return_address [OF assms(2)]
        sparc_switch_effect(7) [OF assms(2)] callers_def)
qed

text \<open>A switch from the object at \<open>0x2000\<close> to the one at \<open>0x3000\<close>, and one back.\<close>

definition sparc_sample_env :: sparc_env where
  "sparc_sample_env = \<lparr>flush_windows = flush_all, new_window = (\<lambda>s. (\<lambda>_. 0, \<lambda>_. 0)), min_frame = 96,
     procedure = (\<lambda>a s. s)\<rparr>"

definition sparc_sample :: sparc where
  "sparc_sample = \<lparr>outs = (\<lambda>_. 0)(0 := 0x2000, 1 := 0x3000, 6 := 0x8000, 7 := 91), locals = (\<lambda>_. 5),
     ins = (\<lambda>_. 0x9000), resident = [], smem = (\<lambda>_. 0), spc = 0, scalls = []\<rparr>"

definition sparc_sample_back :: sparc where
  "sparc_sample_back = (sparc_switch sparc_sample_env sparc_sample)\<lparr>
     outs := (\<lambda>_. 0)(0 := 0x3000, 1 := 0x2000, 6 := 0x6000), locals := (\<lambda>_. 0), ins := (\<lambda>_. 0x7000), resident := []\<rparr>"

lemma sparc_sample_entry: "sparc_entry sparc_sample_env sparc_sample 0x2000 0x3000"
  unfolding sparc_entry_def
  by (simp add: sparc_sample_env_def sparc_sample_def flush_all_ok thread_words_def slot_def
      switch_areas_def save_area_def callers_def upt_conv_Cons)

lemma sparc_sample_back_entry: "sparc_entry sparc_sample_env sparc_sample_back 0x3000 0x2000"
  unfolding sparc_entry_def
  by (simp add: sparc_sample_env_def sparc_sample_back_def flush_all_ok thread_words_def slot_def
      switch_areas_def save_area_def callers_def upt_conv_Cons)

theorem sparc_switch_round_trip_witness:
  "spc (sparc_switch sparc_sample_env sparc_sample_back) = 99 \<and>
   locals (sparc_switch sparc_sample_env sparc_sample_back) 3 = 5"
proof -
  have same: "list_all (\<lambda>a. smem sparc_sample_back a = smem (sparc_switch sparc_sample_env sparc_sample) a)
      (thread_words 0x2000 @ areas (outs sparc_sample 6) (callers sparc_sample))"
    by (simp add: list_all_iff sparc_sample_back_def)
  have apart: "list_all (\<lambda>a. a \<notin> set (thread_words 0x3000 @ switch_areas sparc_sample_env sparc_sample_back))
      (areas (outs sparc_sample 6) (callers sparc_sample))"
    by (simp add: sparc_sample_back_def sparc_sample_def sparc_sample_env_def thread_words_def slot_def
        switch_areas_def save_area_def callers_def upt_conv_Cons)
  from sparc_switch_round_trip [OF sparc_sample_entry sparc_sample_back_entry same apart]
  show ?thesis by (simp add: sparc_sample_def)
qed

section \<open>The first switch to a thread\<close>

lemma sparc_state_slots:
  "slot t 7 = t + of_nat (4 + 4 * PCState HOST_SPARC)" "slot t 3 = t + of_nat (4 + 4 * StartupPCState HOST_SPARC)"
  "slot t 0 = t + of_nat (4 + 4 * InitialPCState HOST_SPARC)"
  "slot t 1 = t + of_nat (4 + 4 * InitialArgState HOST_SPARC)"
  "slot t 2 = t + of_nat (4 + 4 * WhenDonePCState HOST_SPARC)"
  by (simp_all add: slot_def)

text \<open>
  C33: SPARC: the first switch to a thread that \<open>StackAllocate\<close> prepared jumps to the third instruction
  of \<open>ThreadRoot\<close> with the stack pointer inside the thread's stack; from there \<open>ThreadRoot\<close> calls
  \<open>InterruptEnable\<close>, the thread's procedure with its argument in \<open>%o0\<close>, and \<open>ThreadFinish\<close>.
\<close>

theorem sparc_first_switch:
  assumes "host pf = HOST_SPARC" and "threads k u = Some T0"
    and "Thread_StackAllocate pf u func arg k = Inr k1" and "threads k1 u = Some T"
    and "in_memory T t2 base (smem s)" and "sparc_entry E s t1 t2" and "keeps_window (procedure E)"
  shows "spc (sparc_switch E s) = addr_ThreadRoot pf + 8 \<and>
    (\<exists>top < StackSize. stackTop T = Some top \<and> outs (sparc_switch E s) 6 = base + of_nat (4 * top)) \<and>
    (\<exists>o1 o2 o3. scalls (sexec E (drop 2 SPARC_ThreadRoot) (sparc_switch E s)) = scalls s @
      [(addr_InterruptEnable pf, o1), (func, o2), (addr_ThreadFinish pf, o3)] \<and> o2 0 = arg)"
proof -
  obtain blk m0 where blk: "AllocBoundedArray pf (StackSize * 4) (interrupt k) = (blk, m0)" by fastforce
  have T: "machineState T (PCState (host pf)) = Some (addr_ThreadRoot pf)"
    "machineState T (StartupPCState (host pf)) = Some (addr_InterruptEnable pf)"
    "machineState T (InitialPCState (host pf)) = Some func"
    "machineState T (InitialArgState (host pf)) = Some arg"
    "machineState T (WhenDonePCState (host pf)) = Some (addr_ThreadFinish pf)"
    "\<exists>top < StackSize. stackTop T = Some top"
    using assms(1-4) blk by (auto simp: Thread_StackAllocate_def init_stack_def StackSize_def Let_def)
  have load: "outs (sparc_switch E s) j = v"
    if "slot t2 j = t2 + of_nat (4 + 4 * i)" "machineState T i = Some v" "i \<in> set (state_indices (host pf))" "j < 8"
    for i j v
    using loaded_outs [OF assms(6) that(4)] in_memory_slot [OF assms(5) that(2)] state_indices_bound that(1,3) by auto
  note slots = sparc_state_slots [of t2, folded assms(1)]
  have regs: "outs (sparc_switch E s) 7 = addr_ThreadRoot pf"
    "outs (sparc_switch E s) 3 = addr_InterruptEnable pf" "outs (sparc_switch E s) 0 = func"
    "outs (sparc_switch E s) 1 = arg" "outs (sparc_switch E s) 2 = addr_ThreadFinish pf"
    by (rule load [OF slots(1) T(1)] load [OF slots(2) T(2)] load [OF slots(3) T(3)]
        load [OF slots(4) T(4)] load [OF slots(5) T(5)]; simp add: state_indices_def)+
  have pc: "spc (sparc_switch E s) = addr_ThreadRoot pf + 8"
    using return_address [OF assms(6)] loaded_outs [OF assms(6), of 7] regs(1) by simp
  from T(6) obtain top where top: "top < StackSize" "stackTop T = Some top" by blast
  then have "outs (sparc_switch E s) 6 = base + of_nat (4 * top)"
    using loaded_outs [OF assms(6), of 6] assms(5) by (simp add: in_memory_def slot_def)
  with top pc regs SPARC_ThreadRoot_calls [OF assms(7), of "sparc_switch E s"]
    sparc_switch_effect(8) [OF assms(6)]
  show ?thesis by auto
qed

definition sparc_machine :: "IntStatus platform" where
  "sparc_machine = plain_machine\<lparr>host := HOST_SPARC\<rparr>"

definition sparc_fresh_cpu :: sparc where
  "sparc_fresh_cpu = sparc_sample\<lparr>smem := (\<lambda>_. 0)(0x3000 := 0x13E80, 0x3004 := 10, 0x3008 := 7,
     0x300C := 3, 0x3010 := 2, 0x3020 := 1, 0x10000 := 0xdeadbeef)\<rparr>"

theorem sparc_first_switch_witness:
  "spc (sparc_switch sparc_sample_env sparc_fresh_cpu) = 9 \<and>
   (\<exists>o1 o2 o3. scalls (sexec sparc_sample_env (drop 2 SPARC_ThreadRoot)
      (sparc_switch sparc_sample_env sparc_fresh_cpu)) = [(2, o1), (10, o2), (3, o3)] \<and> o2 0 = 7)"
proof -
  have T0: "threads (solo 0 []) 3 = Some first_thread" by (simp add: solo_def)
  obtain k1 T where k1: "Thread_StackAllocate sparc_machine 3 10 7 (solo 0 []) = Inr k1" "threads k1 3 = Some T"
    "stackTop T = Some 4000" "stack T = Some [0 \<mapsto> 0xdeadbeef]"
    "machineState T = [7 \<mapsto> 1, 3 \<mapsto> 2, 0 \<mapsto> 10, 1 \<mapsto> 7, 2 \<mapsto> 3]"
    using T0 by (simp add: Thread_StackAllocate_def init_stack_def sparc_machine_def plain_machine_def
        StackSize_def STACK_FENCEPOST_def first_thread_def Let_def)
  have h: "host sparc_machine = HOST_SPARC" by (simp add: sparc_machine_def)
  have m: "in_memory T 0x3000 0x10000 (smem sparc_fresh_cpu)"
    unfolding in_memory_def k1(3-5) by (auto simp: sparc_fresh_cpu_def split: if_splits)
  have e: "sparc_entry sparc_sample_env sparc_fresh_cpu 0x2000 0x3000"
    using sparc_sample_entry by (simp add: sparc_entry_def sparc_fresh_cpu_def switch_areas_def callers_def)
  have c: "keeps_window (procedure sparc_sample_env)" by (simp add: keeps_window_def sparc_sample_env_def)
  from sparc_first_switch [OF h T0 k1(1,2) m e c] show ?thesis
    by (simp add: sparc_machine_def plain_machine_def sparc_fresh_cpu_def sparc_sample_def)
qed

end
