(* ===== verification/ListProps.thy ===== *)
theory ListProps
  imports ListQueue
begin

text \<open>
  What \<open>list.cc\<close> guarantees, in terms of the entries \<open>lists_of h l\<close> (key and item) of a list
  object. Every list in \<open>heap_ok h\<close> is a chain of live elements that ends in \<open>NULL\<close> at \<open>last\<close>,
  no element is on two lists, and every element is on some list.
\<close>

text \<open>A heap with one empty list, and the same list with two elements in it.\<close>

definition one_list :: lheap where
  "one_list = snd (new_List empty_heap)"

lemma one_list_ok: "heap_ok one_list" and one_list_empty: "lists_of one_list 1 = Some []"
  using new_List_spec(1,2,4) [OF heap_ok_empty, of 1 one_list]
  by (simp_all add: one_list_def new_List_def alloc_def empty_heap_def)

text \<open>
  First in, first out: after appending \<open>xs\<close> to an empty list, removing as many items
  returns \<open>xs\<close>, and all lists are as before.
\<close>

theorem list_is_fifo:
  assumes "heap_ok h" and "lists_of h l = Some []"
  shows "\<exists>h'. bindE (append_all (List_Append l) xs h) (remove_many (List_Remove l) (length xs)) =
      Inr (xs, h') \<and> heap_ok h' \<and> lists_of h' = lists_of h"
  by (rule hq.fifo [OF assms])

theorem list_is_fifo_witness:
  "\<exists>h'. bindE (append_all (List_Append 1) [10, 20, 30] one_list)
      (remove_many (List_Remove 1) (length [10, 20, 30 :: ptr])) =
      Inr ([10, 20, 30], h')"
  using list_is_fifo [OF one_list_ok one_list_empty, of "[10, 20, 30]"] by auto

text \<open>
  C35: Sorted insertion into an empty list and removal of everything sorts by key, and is stable:
  items with equal keys come out in the order they were inserted.
\<close>

theorem sorted_list_sorts:
  assumes "heap_ok h" and "lists_of h l = Some []"
  shows "\<exists>h1 h2. insert_all (List_SortedInsert l) kxs h = Some (Inr h1) \<and>
      remove_many (List_Remove l) (length kxs) h1 = Inr (map snd (sort_key fst kxs), h2) \<and>
      heap_ok h2 \<and> lists_of h2 = lists_of h"
  by (rule pq.priority_sort [OF assms])

theorem sorted_list_sorts_witness:
  "\<exists>h1 h2. insert_all (List_SortedInsert 1) [(5, 10), (2, 20), (5, 30), (1, 40)] one_list = Some (Inr h1) \<and>
      remove_many (List_Remove 1) (Suc (Suc (Suc (Suc 0)))) h1 = Inr ([40, 20, 10, 30], h2)"
  using sorted_list_sorts [OF one_list_ok one_list_empty, of "[(5, 10), (2, 20), (5, 30), (1, 40)]"]
  by (auto simp: sort_key_def)

text \<open>
  C34: The functional behaviour of \<open>Append\<close>, \<open>Prepend\<close>, \<open>Remove\<close> and \<open>IsEmpty\<close> on a list with
  any contents: only the entries of that list change, and the heap stays well-formed.
\<close>

theorem list_operations:
  assumes "heap_ok h" and "lists_of h l = Some es"
  shows "(\<exists>h'. List_Append l x h = Inr h' \<and> heap_ok h' \<and> lists_of h' = (lists_of h)(l \<mapsto> es @ [(0, x)])) \<and>
    (\<exists>h'. List_Prepend l x h = Inr h' \<and> heap_ok h' \<and> lists_of h' = (lists_of h)(l \<mapsto> (0, x) # es)) \<and>
    (case es of [] \<Rightarrow> List_Remove l h = Inr (NULL, h)
     | e # es' \<Rightarrow> \<exists>h'. List_Remove l h = Inr (snd e, h') \<and> heap_ok h' \<and> lists_of h' = (lists_of h)(l \<mapsto> es')) \<and>
    List_IsEmpty l h = Inr (es = [])"
proof (intro conjI)
  show "\<exists>h'. List_Append l x h = Inr h' \<and> heap_ok h' \<and> lists_of h' = (lists_of h)(l \<mapsto> es @ [(0, x)])"
    using Append_spec [OF assms, of x] by blast
  show "\<exists>h'. List_Prepend l x h = Inr h' \<and> heap_ok h' \<and> lists_of h' = (lists_of h)(l \<mapsto> (0, x) # es)"
    using Prepend_spec [OF assms, of x] by blast
  show "case es of [] \<Rightarrow> List_Remove l h = Inr (NULL, h)
     | e # es' \<Rightarrow> \<exists>h'. List_Remove l h = Inr (snd e, h') \<and> heap_ok h' \<and> lists_of h' = (lists_of h)(l \<mapsto> es')"
    using Remove_empty [OF assms(1)] Remove_spec [OF assms(1)] assms(2) by (cases es) fastforce+
qed (rule IsEmpty_spec [OF assms])

theorem list_operations_witness:
  "\<exists>h1 h2. List_Append 1 7 one_list = Inr h1 \<and> lists_of h1 1 = Some [(0, 7)] \<and>
     List_Prepend 1 8 one_list = Inr h2 \<and> List_IsEmpty 1 one_list = Inr True"
  using list_operations [OF one_list_ok one_list_empty, of 7] list_operations [OF one_list_ok one_list_empty, of 8]
  by auto

text \<open>
  \<open>SortedInsert\<close> returns on every well-formed list, sorted or not, and puts the item before
  the first entry with a larger key; \<open>SortedRemove\<close> takes the first entry, stores its key if a
  place for it is given, and leaves \<open>*keyPtr\<close> alone when the list is empty.
\<close>

theorem sorted_operations:
  assumes "heap_ok h" and "lists_of h l = Some es"
  shows "(\<exists>h'. List_SortedInsert l x k h = Some (Inr h') \<and> heap_ok h' \<and>
      lists_of h' = (lists_of h)(l \<mapsto>
        takeWhile (\<lambda>e. fst e \<le> k) es @ (k, x) # dropWhile (\<lambda>e. fst e \<le> k) es)) \<and>
    (case es of [] \<Rightarrow> List_SortedRemove l kp h = Inr (NULL, kp, h)
     | e # es' \<Rightarrow> \<exists>h'. List_SortedRemove l kp h = Inr (snd e, map_option (\<lambda>_. fst e) kp, h') \<and>
         heap_ok h' \<and> lists_of h' = (lists_of h)(l \<mapsto> es'))"
proof
  show "\<exists>h'. List_SortedInsert l x k h = Some (Inr h') \<and> heap_ok h' \<and>
      lists_of h' = (lists_of h)(l \<mapsto>
        takeWhile (\<lambda>e. fst e \<le> k) es @ (k, x) # dropWhile (\<lambda>e. fst e \<le> k) es)"
    using SortedInsert_spec [OF assms, of x k] unfolding kinsert_def by blast
  show "case es of [] \<Rightarrow> List_SortedRemove l kp h = Inr (NULL, kp, h)
     | e # es' \<Rightarrow> \<exists>h'. List_SortedRemove l kp h = Inr (snd e, map_option (\<lambda>_. fst e) kp, h') \<and>
         heap_ok h' \<and> lists_of h' = (lists_of h)(l \<mapsto> es')"
    using SortedRemove_empty [OF assms(1)] SortedRemove_spec [OF assms(1)] assms(2)
    by (cases es) fastforce+
qed

theorem sorted_operations_witness:
  "\<exists>h1. List_SortedInsert 1 7 3 one_list = Some (Inr h1) \<and> lists_of h1 1 = Some [(3, 7)] \<and>
     List_SortedRemove 1 (Some 9) one_list = Inr (NULL, Some 9, one_list)"
  using sorted_operations [OF one_list_ok one_list_empty, of 7 3 "Some 9"] by auto

text \<open>
  \<open>Mapcar\<close> returns, and applies the function to the items in order, each once (for a
  function that does not change the list).
\<close>

theorem mapcar_visits_all:
  assumes "heap_ok h" and "lists_of h l = Some es" and "\<And>x s. x \<in> snd ` set es \<Longrightarrow> func x (h, s) = Inr (h, g x s)"
  shows "List_Mapcar l func (h, s) = Some (Inr (h, fold g (map snd es) s))"
  using assms by (rule List_Mapcar_spec)

theorem mapcar_visits_all_witness:
  "\<exists>h. List_Append 1 7 one_list = Inr h \<and>
    List_Mapcar 1 (\<lambda>x (h, s). Inr (h, s @ [x])) (h, []) = Some (Inr (h, [7]))"
proof -
  from Append_spec [OF one_list_ok one_list_empty, of 7] obtain h where
    h: "List_Append 1 7 one_list = Inr h" "heap_ok h" "lists_of h 1 = Some [(0, 7)]" by auto
  from mapcar_visits_all [OF h(2,3), of "\<lambda>x (h, s). Inr (h, s @ [x])" "\<lambda>x s. s @ [x]" "[]"] h(1)
  show ?thesis by auto
qed




end
