(* ===== verification/Builds.thy ===== *)
theory Builds
  imports Boot
begin

text \<open>
  The other builds of \<open>system.cc\<close> and \<open>main.cc\<close>: which arguments \<open>Initialize\<close> and \<open>main\<close> read, which
  global objects are made and deleted, and which routines \<open>main\<close> calls, for every choice of the
  preprocessor symbols. The routines and classes themselves are not in the repository; what the two
  files do with them is the order of the calls and their arguments.
\<close>

section \<open>Builds\<close>

record build =
  THREADS :: bool
  USER_PROGRAM :: bool
  FILESYS :: bool
  FILESYS_NEEDED :: bool
  NETWORK :: bool

definition threads_build :: build where
  "threads_build = \<lparr>THREADS = True, USER_PROGRAM = False, FILESYS = False, FILESYS_NEEDED = False,
     NETWORK = False\<rparr>"

text \<open>
  \<open>argv\<close> from the current argument on. The entry after the last one is \<open>NULL\<close>.
\<close>

definition argv_at :: "string list \<Rightarrow> nat \<Rightarrow> string result" where
  "argv_at argv i = (if i < length argv then Inr (argv ! i) else Inl (BadPointer NULL))"

section \<open>Arguments of Initialize\<close>

text \<open>The network reliability: 1, or the value \<open>atof\<close> gives for a word.\<close>

datatype reliability = One | Atof string

record all_options = options +
  debugUserProg :: bool
  format :: bool
  rely :: reliability
  netname :: int

definition default_all_options :: all_options where
  "default_all_options = \<lparr>debugArgs = '''', randomYield = False, seeds = [], debugUserProg = False,
     format = False, rely = One, netname = 0\<rparr>"

text \<open>The body of the loop: the new values and \<open>argCount\<close>.\<close>

definition Initialize_arg ::
    "build \<Rightarrow> int \<Rightarrow> string list \<Rightarrow> all_options \<Rightarrow> (all_options \<times> nat) result" where
  "Initialize_arg b argc argv opt =
     bindE (argv_at argv 0) (\<lambda>w.
     bindE (if w = ''-d'' then
              if argc = 1 then Inr (opt\<lparr>debugArgs := ''+''\<rparr>, 1)
              else bindE (argv_at argv 1) (\<lambda>d. Inr (opt\<lparr>debugArgs := d\<rparr>, 2))
            else if w = ''-rs'' then
              bindE (assertE ''system.cc'' 105 (argc > 1)) (\<lambda>_.
              bindE (argv_at argv 1) (\<lambda>n.
              Inr (opt\<lparr>seeds := seeds opt @ [atoi n], randomYield := True\<rparr>, 2)))
            else Inr (opt, 1))
       (\<lambda>(opt, argCount).
     let opt = (if USER_PROGRAM b \<and> w = ''-s'' then opt\<lparr>debugUserProg := True\<rparr> else opt);
         opt = (if FILESYS_NEEDED b \<and> w = ''-f'' then opt\<lparr>format := True\<rparr> else opt)
     in if NETWORK b \<and> w = ''-l'' then
          bindE (assertE ''system.cc'' 121 (argc > 1)) (\<lambda>_.
          bindE (argv_at argv 1) (\<lambda>r. Inr (opt\<lparr>rely := Atof r\<rparr>, 2)))
        else if NETWORK b \<and> w = ''-m'' then
          bindE (assertE ''system.cc'' 125 (argc > 1)) (\<lambda>_.
          bindE (argv_at argv 1) (\<lambda>n. Inr (opt\<lparr>netname := atoi n\<rparr>, 2)))
        else Inr (opt, argCount)))"

lemma Initialize_arg_count: "Initialize_arg b argc argv opt = Inr (opt', n) \<Longrightarrow> 0 < n"
  by (auto simp: Initialize_arg_def bindE_eq_Inr Let_def split: if_splits)

function Initialize_loop ::
    "build \<Rightarrow> int \<Rightarrow> string list \<Rightarrow> all_options \<Rightarrow> all_options result" where
  "Initialize_loop b argc argv opt =
     (if argc > 0 then
        (case Initialize_arg b argc argv opt of
           Inl e \<Rightarrow> Inl e
         | Inr (opt, argCount) \<Rightarrow>
             Initialize_loop b (argc - int argCount) (drop argCount argv) opt)
      else Inr opt)"
  by auto
termination
  by (relation "measure (\<lambda>(b, argc, argv, opt). nat argc)") (auto dest: Initialize_arg_count)

declare Initialize_loop.simps [simp del]

definition Initialize_options :: "build \<Rightarrow> string list \<Rightarrow> all_options result" where
  "Initialize_options b argv =
     Initialize_loop b (int (length argv) - 1) (tl argv) default_all_options"

section \<open>Global objects\<close>

text \<open>The objects behind the global variables, with the arguments of their constructors.\<close>

datatype global =
    Statistics
  | Interrupt
  | Scheduler
  | Timer bool
  | MainThread
  | Machine bool
  | SynchDisk string
  | FileSystem bool
  | PostOffice int reliability int

definition Initialize_objects :: "build \<Rightarrow> all_options \<Rightarrow> global list" where
  "Initialize_objects b opt =
     [Statistics, Interrupt, Scheduler] @
     (if randomYield opt then [Timer (randomYield opt)] else []) @
     [MainThread] @
     (if USER_PROGRAM b then [Machine (debugUserProg opt)] else []) @
     (if FILESYS b then [SynchDisk ''DISK''] else []) @
     (if FILESYS_NEEDED b then [FileSystem (format opt)] else []) @
     (if NETWORK b then [PostOffice (netname opt) (rely opt) 10] else [])"

text \<open>
  \<open>delete\<close> of a global variable: the object it points to, found by its class, or nothing when the
  variable is \<open>NULL\<close>. The result has the object deleted and the objects left.
\<close>

datatype class_name = C_PostOffice | C_Machine | C_FileSystem | C_SynchDisk | C_Timer | C_Scheduler | C_Interrupt

fun is_object :: "class_name \<Rightarrow> global \<Rightarrow> bool" where
  "is_object C_PostOffice (PostOffice n r d) = True"
| "is_object C_Machine (Machine d) = True"
| "is_object C_FileSystem (FileSystem f) = True"
| "is_object C_SynchDisk (SynchDisk nm) = True"
| "is_object C_Timer (Timer r) = True"
| "is_object C_Scheduler Scheduler = True"
| "is_object C_Interrupt Interrupt = True"
| "is_object _ _ = False"

fun delete_object :: "class_name \<Rightarrow> global list \<Rightarrow> global list \<times> global list" where
  "delete_object c live = (filter (is_object c) live, filter (\<lambda>g. \<not> is_object c g) live)"

definition Cleanup_deletes :: "build \<Rightarrow> class_name list" where
  "Cleanup_deletes b =
     (if NETWORK b then [C_PostOffice] else []) @
     (if USER_PROGRAM b then [C_Machine] else []) @
     (if FILESYS_NEEDED b then [C_FileSystem] else []) @
     (if FILESYS b then [C_SynchDisk] else []) @
     [C_Timer, C_Scheduler, C_Interrupt]"

text \<open>The objects deleted, in order, and those that are left at \<open>Exit(0)\<close>.\<close>

definition Cleanup_objects :: "build \<Rightarrow> global list \<Rightarrow> global list \<times> global list" where
  "Cleanup_objects b live =
     fold (\<lambda>c (dead, live). let (d, live) = delete_object c live in (dead @ d, live))
       (Cleanup_deletes b) ([], live)"

section \<open>Commands of main\<close>

text \<open>The calls that \<open>main\<close> makes after \<open>Initialize\<close>.\<close>

datatype main_call =
    Call_ThreadTest int
  | Call_printf string
  | Call_StartProcess string
  | Call_ConsoleTest "(string \<times> string) option"
  | Call_Halt
  | Call_Copy string string
  | Call_Print string
  | Call_Remove string
  | Call_List
  | Call_PrintFileSystem
  | Call_PerformanceTest
  | Call_Delay int
  | Call_MailTest int
  | Call_Finish

text \<open>
  The sections of the body of the second loop: the calls and the new \<open>argCount\<close>. No word is a
  command of two of the sections, so that nothing has been called when an assertion fails.
\<close>

definition user_command :: "int \<Rightarrow> string list \<Rightarrow> nat \<Rightarrow> (main_call list \<times> nat) result" where
  "user_command argc argv argCount =
     bindE (argv_at argv 0) (\<lambda>w.
     if w = ''-x'' then
       bindE (assertE ''main.cc'' 113 (argc > 1)) (\<lambda>_.
       bindE (argv_at argv 1) (\<lambda>f. Inr ([Call_StartProcess f], 2)))
     else if w = ''-c'' then
       if argc = 1 then Inr ([Call_ConsoleTest None, Call_Halt], argCount)
       else bindE (assertE ''main.cc'' 120 (argc > 2)) (\<lambda>_.
            bindE (argv_at argv 1) (\<lambda>i.
            bindE (argv_at argv 2) (\<lambda>out. Inr ([Call_ConsoleTest (Some (i, out)), Call_Halt], 3))))
     else Inr ([], argCount))"

definition filesys_command :: "int \<Rightarrow> string list \<Rightarrow> nat \<Rightarrow> (main_call list \<times> nat) result" where
  "filesys_command argc argv argCount =
     bindE (argv_at argv 0) (\<lambda>w.
     if w = ''-cp'' then
       bindE (assertE ''main.cc'' 131 (argc > 2)) (\<lambda>_.
       bindE (argv_at argv 1) (\<lambda>u.
       bindE (argv_at argv 2) (\<lambda>n. Inr ([Call_Copy u n], 3))))
     else if w = ''-p'' then
       bindE (assertE ''main.cc'' 135 (argc > 1)) (\<lambda>_.
       bindE (argv_at argv 1) (\<lambda>f. Inr ([Call_Print f], 2)))
     else if w = ''-r'' then
       bindE (assertE ''main.cc'' 139 (argc > 1)) (\<lambda>_.
       bindE (argv_at argv 1) (\<lambda>f. Inr ([Call_Remove f], 2)))
     else if w = ''-l'' then Inr ([Call_List], argCount)
     else if w = ''-D'' then Inr ([Call_PrintFileSystem], argCount)
     else if w = ''-t'' then Inr ([Call_PerformanceTest], argCount)
     else Inr ([], argCount))"

definition network_command :: "int \<Rightarrow> string list \<Rightarrow> nat \<Rightarrow> (main_call list \<times> nat) result" where
  "network_command argc argv argCount =
     bindE (argv_at argv 0) (\<lambda>w.
     if w = ''-o'' then
       bindE (assertE ''main.cc'' 152 (argc > 1)) (\<lambda>_.
       bindE (argv_at argv 1) (\<lambda>n. Inr ([Call_Delay 2, Call_MailTest (atoi n)], 2)))
     else Inr ([], argCount))"

definition main_command :: "build \<Rightarrow> int \<Rightarrow> string list \<Rightarrow> (main_call list \<times> nat) result" where
  "main_command b argc argv =
     (let argCount = 1 in
      bindE (argv_at argv 0) (\<lambda>w.
      bindE (if USER_PROGRAM b then user_command argc argv argCount else Inr ([], argCount)) (\<lambda>(us, argCount).
      bindE (if FILESYS b then filesys_command argc argv argCount else Inr ([], argCount)) (\<lambda>(fs, argCount).
      bindE (if NETWORK b then network_command argc argv argCount else Inr ([], argCount)) (\<lambda>(ns, argCount).
      Inr ((if w = ''-z'' then [Call_printf copyright] else []) @ us @ fs @ ns, argCount))))))"

text \<open>Each iteration goes on by at least one argument.\<close>

definition advances :: "('a \<times> nat) result \<Rightarrow> bool" where
  "advances r \<longleftrightarrow> (case r of Inl e \<Rightarrow> True | Inr (x, n) \<Rightarrow> 0 < n)"

lemma advances_simps [simp]:
  "advances (Inl e)" "advances (Inr (x, n)) \<longleftrightarrow> 0 < n"
  by (simp_all add: advances_def)

lemma advances_bind: "(\<And>x. advances (f x)) \<Longrightarrow> advances (bindE m f)"
  by (cases m) simp_all

lemma advances_if: "advances r \<Longrightarrow> advances s \<Longrightarrow> advances (if c then r else s)"
  by simp

lemma advances_next:
  "advances m \<Longrightarrow> (\<And>x n. 0 < n \<Longrightarrow> advances (f (x, n))) \<Longrightarrow> advances (bindE m f)"
  by (cases m) auto

lemma command_counts:
  assumes "0 < argCount"
  shows "advances (user_command argc argv argCount)" "advances (filesys_command argc argv argCount)"
    "advances (network_command argc argv argCount)"
  unfolding user_command_def filesys_command_def network_command_def
  by (intro advances_bind advances_if; simp add: assms)+

lemma main_command_count: "main_command b argc argv = Inr (cs, n) \<Longrightarrow> 0 < n"
proof -
  have "advances (main_command b argc argv)"
    unfolding main_command_def Let_def
    by (rule advances_bind) (auto intro!: advances_next advances_if command_counts)
  then show "main_command b argc argv = Inr (cs, n) \<Longrightarrow> 0 < n" by simp
qed

text \<open>The loop and the call of \<open>Finish\<close>: the calls made, and the error that stopped them, if any.\<close>

function main_commands :: "build \<Rightarrow> int \<Rightarrow> string list \<Rightarrow> main_call list \<times> error option" where
  "main_commands b argc argv =
     (if argc > 0 then
        (case main_command b argc argv of
           Inl e \<Rightarrow> ([], Some e)
         | Inr (cs, argCount) \<Rightarrow>
             (let (ds, e) = main_commands b (argc - int argCount) (drop argCount argv)
              in (cs @ ds, e)))
      else ([Call_Finish], None))"
  by auto
termination
  by (relation "measure (\<lambda>(b, argc, argv). nat argc)") (auto dest: main_command_count)

declare main_commands.simps [simp del]

text \<open>
  \<open>main\<close>. With \<open>THREADS\<close> the first loop leaves \<open>argc\<close> 0 and \<open>argv\<close> behind the last argument, and the
  head of the second loop decrements \<open>argc\<close> once more.
\<close>

definition main_calls :: "build \<Rightarrow> string list \<Rightarrow> main_call list \<times> error option" where
  "main_calls b argv =
     (if THREADS b then
        (case main_args (tl argv) 1 of
           Inl e \<Rightarrow> ([], Some e)
         | Inr testnum \<Rightarrow>
             (let (cs, e) = main_commands b (0 - 1) [] in (Call_ThreadTest testnum # cs, e)))
      else main_commands b (int (length argv) - 1) (tl argv))"

end
