(* ===== verification/LockTestRun.thy ===== *)
theory LockTestRun
  imports CodeSteps
begin

text \<open>
  The lock test, run on any machine without timer interrupts: the steps of the two threads in the
  order in which the scheduler runs them. \<open>locked\<close> is what there is to know of \<open>locktest1\<close>.
\<close>

section \<open>Steps on the lock\<close>

text \<open>\<open>locktest1\<close> is \<open>l\<close>, its \<open>held\<close> flag is \<open>v\<close>, and \<open>ts\<close> wait for it.\<close>

definition locked :: "'m kernel \<Rightarrow> ptr \<Rightarrow> word32 \<Rightarrow> ptr list \<Rightarrow> bool" where
  "locked k l v ts \<longleftrightarrow> locktest1 k = l \<and> map_option held (locks k l) = Some v \<and> queue k (LockQ l) = ts"

lemma same_locked: "same_locks k k' \<Longrightarrow> locked k l v ts \<Longrightarrow> locked k' l v ts"
  by (simp add: same_locks_def locked_def)

lemma others_locked: "others c k k' \<Longrightarrow> locked k l v ts \<Longrightarrow> locked k' l v ts"
  unfolding others_def by (blast intro: same_locked)

lemma lockedE:
  assumes "locked k l v ts"
  obtains L where "lock_ptr Locktest1 k = l" and "locks k l = Some L" and "held L = v"
    and "queue k (LockQ l) = ts" and "locktest1 k = l"
  using assms by (auto simp: locked_def)

lemma view_at_code: "view pf k c (CodeF ss # us) q d out \<Longrightarrow> user_frames us \<Longrightarrow> at_code pf k c ss us"
  by (simp add: view_def at_code_def)

lemma new_lock_step:
  assumes pf: "platform_ok pf" and v: "view pf k c (CodeF (NewLocktest1 nm # ss) # us) q d out"
    and us: "user_frames us"
  shows "\<exists>k' l. step pf k = Inr k' \<and> view pf k' c (CodeF ss # us) q d out \<and> locked k' l 0 []"
proof -
  note n = at_code_next [OF view_at_code [OF v us]]
  let ?k1 = "k\<lparr>frames := (frames k)(c := CodeF ss # us)\<rparr>"
  obtain l k' where new: "new_Lock (CLiteral nm) ?k1 = (l, k')" by fastforce
  have "wf ?k1" using n(2) by (simp add: at_code_def kinv_def)
  from wf_new_lock [OF this new] obtain h p where k':
    "k' = ?k1\<lparr>heap := h, locks := (locks k)(l \<mapsto> \<lparr>lock_name = CLiteral nm, held = 0, lock_queue = p\<rparr>)\<rparr>"
    "queue k' = queue k" "locks k l = None" by auto
  have "queue k (LockQ l) = []" using k'(3) by (simp add: queue_def)
  moreover have step: "step pf k = Inr (k'\<lparr>locktest1 := l\<rparr>)" using n(1) new by simp
  moreover have "kinv pf (k'\<lparr>locktest1 := l\<rparr>)" using step_kinv [OF pf _ step] v by (simp add: view_def)
  ultimately show ?thesis using k'(1,2) v
    by (intro exI [of _ "k'\<lparr>locktest1 := l\<rparr>"] exI [of _ l]) (simp add: view_def locked_def)
qed

lemma acquire_view:
  assumes pf: "platform_ok pf" and v: "view pf k c (CodeF (Acquire Locktest1 # ss) # us) q d out"
    and us: "user_frames us" and l: "locked k l 0 ts"
  shows "\<exists>k'. step pf k = Inr k' \<and> view pf k' c (CodeF ss # us) q d out \<and> locked k' l 1 ts \<and> spares c k k'"
proof -
  from l obtain L where L: "lock_ptr Locktest1 k = l" "locks k l = Some L" "held L = 0"
    "queue k (LockQ l) = ts" "locktest1 k = l" by (rule lockedE)
  from acquire_free_step [OF pf view_at_code [OF v us] L(1-3)] obtain m where
    m: "step pf k = Inr (k\<lparr>frames := (frames k)(c := CodeF ss # us), locks := (locks k)(l \<mapsto> L\<lparr>held := 1\<rparr>),
      history := history k @ [EvAcquire l c], interrupt := m\<rparr>)"
    "at_code pf (k\<lparr>frames := (frames k)(c := CodeF ss # us), locks := (locks k)(l \<mapsto> L\<lparr>held := 1\<rparr>),
      history := history k @ [EvAcquire l c], interrupt := m\<rparr>) c ss us"
    "queue (k\<lparr>frames := (frames k)(c := CodeF ss # us), locks := (locks k)(l \<mapsto> L\<lparr>held := 1\<rparr>),
      history := history k @ [EvAcquire l c], interrupt := m\<rparr>) = queue k"
    by (auto simp: Let_def)
  show ?thesis
    by (rule exI, rule conjI, rule m(1)) (use m(2,3) v L in \<open>simp add: view_def at_code_def locked_def spares_def\<close>)
qed

lemma block_view:
  assumes pf: "platform_ok pf" and v: "view pf k c (CodeF (Acquire Locktest1 # ss) # us) q d out"
    and us: "user_frames us" and l: "locked k l 1 ts"
  shows "\<exists>k' lev. step pf k = Inr k' \<and> view pf k' c (SleepF # AcquireF l lev # CodeF ss # us) q d out \<and>
    locked k' l 1 (ts @ [c]) \<and> spares c k k'"
proof -
  from l obtain L where L: "lock_ptr Locktest1 k = l" "locks k l = Some L" "held L = 1"
    "queue k (LockQ l) = ts" "locktest1 k = l" by (rule lockedE)
  then have "held L \<noteq> 0" by simp
  from acquire_held_step [OF pf view_at_code [OF v us] L(1,2) this] obtain h C m where
    m: "step pf k = Inr (k\<lparr>interrupt := m, heap := h,
      frames := (frames k)(c := SleepF # AcquireF l (getLevel pf (interrupt k)) # CodeF ss # us),
      threads := (threads k)(c \<mapsto> C\<lparr>status := BLOCKED\<rparr>)\<rparr>)"
    "kinv pf (k\<lparr>interrupt := m, heap := h,
      frames := (frames k)(c := SleepF # AcquireF l (getLevel pf (interrupt k)) # CodeF ss # us),
      threads := (threads k)(c \<mapsto> C\<lparr>status := BLOCKED\<rparr>)\<rparr>)"
    "queue (k\<lparr>interrupt := m, heap := h,
      frames := (frames k)(c := SleepF # AcquireF l (getLevel pf (interrupt k)) # CodeF ss # us),
      threads := (threads k)(c \<mapsto> C\<lparr>status := BLOCKED\<rparr>)\<rparr>) = (queue k)(LockQ l := queue k (LockQ l) @ [c])"
    by (auto simp: Let_def)
  show ?thesis
    by (rule exI, rule exI [of _ "getLevel pf (interrupt k)"], rule conjI, rule m(1))
       (use m(2,3) v L in \<open>simp add: view_def locked_def spares_def\<close>)
qed

text \<open>A woken thread tests the lock again.\<close>

lemma retry_view:
  assumes pf: "platform_ok pf" and v: "view pf k c (AcquireF l lev # CodeF ss # us) q d out"
    and us: "user_frames us" and l: "locked k l 0 ts"
  shows "\<exists>k'. step pf k = Inr k' \<and> view pf k' c (CodeF ss # us) q d out \<and> locked k' l 1 ts \<and> spares c k k'"
proof -
  let ?k' = "k\<lparr>frames := (frames k)(c := CodeF ss # us), locks := (locks k)(l \<mapsto> the (locks k l)\<lparr>held := 1\<rparr>),
      history := history k @ [EvAcquire l c], interrupt := snd (SetLevel pf lev (interrupt k))\<rparr>"
  have k: "kinv pf k" "currentThread k = c" "frames k c = AcquireF l lev # CodeF ss # us"
    using v by (simp_all add: view_def)
  from l obtain L where L: "locks k l = Some L" "held L = 0" by (rule lockedE)
  have step: "step pf k = Inr ?k'"
    using k(2,3) L pf by (simp add: step_def pop_def Lock_Acquire_loop_def Let_def log_event_def set_level_ok)
  have "queue ?k' = queue k" using queue_value(2) [of "k\<lparr>frames := (frames k)(c := CodeF ss # us)\<rparr>" l L] L(1) by simp
  with step_kinv [OF pf k(1) step] step v l show ?thesis
    by (intro exI [of _ ?k']) (simp add: view_def locked_def spares_def)
qed

lemma release_view:
  assumes pf: "platform_ok pf" and v: "view pf k c (CodeF (Release Locktest1 # ss) # us) q d out"
    and us: "user_frames us" and l: "locked k l v0 ts"
  shows "\<exists>k'. step pf k = Inr k' \<and> view pf k' c (CodeF ss # us) (q @ take 1 ts) d out \<and>
    locked k' l 0 (drop 1 ts) \<and> spares c k k'"
proof -
  from l obtain L where L: "lock_ptr Locktest1 k = l" "locks k l = Some L"
    "queue k (LockQ l) = ts" "locktest1 k = l" by (rule lockedE)
  from release_step [OF pf view_at_code [OF v us] L(1,2)] obtain th h m where
    m: "step pf k = Inr (k\<lparr>frames := (frames k)(c := CodeF ss # us), threads := th, heap := h,
      locks := (locks k)(l \<mapsto> L\<lparr>held := 0\<rparr>), history := history k @ [EvRelease l c], interrupt := m\<rparr>)"
    "at_code pf (k\<lparr>frames := (frames k)(c := CodeF ss # us), threads := th, heap := h,
      locks := (locks k)(l \<mapsto> L\<lparr>held := 0\<rparr>), history := history k @ [EvRelease l c], interrupt := m\<rparr>) c ss us"
    "wakes (LockQ l) k (k\<lparr>frames := (frames k)(c := CodeF ss # us), threads := th, heap := h,
      locks := (locks k)(l \<mapsto> L\<lparr>held := 0\<rparr>), history := history k @ [EvRelease l c], interrupt := m\<rparr>)"
    by (auto simp: Let_def)
  show ?thesis
    by (rule exI, rule conjI, rule m(1))
       (use m(2,3) v L in \<open>auto simp: view_def at_code_def locked_def spares_def wakes_def split: list.splits\<close>)
qed

text \<open>Yielding while nobody else is ready.\<close>

lemma yield_alone_step:
  assumes pf: "platform_ok pf" and v: "view pf k c (CodeF (CurrentYield # ss) # us) [] d out"
    and us: "user_frames us"
  shows "\<exists>k'. step pf k = Inr k' \<and> view pf k' c (CodeF ss # us) [] d out \<and> others c k k'"
proof -
  let ?k1 = "k\<lparr>frames := (frames k)(c := CodeF ss # us)\<rparr>"
  note n = at_code_next [OF view_at_code [OF v us]]
  have k1: "kinv pf ?k1" "user_frames (frames ?k1 (currentThread ?k1))" "queue ?k1 ReadyQ = []"
    "currentThread k = c" using n(2) us v by (simp_all add: at_code_def view_def)
  from Yield_alone [OF pf k1(1-3)] obtain m where
    m: "Thread_Yield pf c ?k1 = Inr (?k1\<lparr>interrupt := m\<rparr>)" "kinv pf (?k1\<lparr>interrupt := m\<rparr>)"
    using k1(4) by auto
  then have "step pf k = Inr (?k1\<lparr>interrupt := m\<rparr>)" using n(1) k1(4) by simp
  with m(2) v show ?thesis
    by (intro exI [of _ "?k1\<lparr>interrupt := m\<rparr>"]) (auto simp: view_def intro!: othersI)
qed

section \<open>The run\<close>

lemma others_keep: "others c k k' \<Longrightarrow> spares c k k'"
  by (simp add: others_def)

lemma spares_frames: "spares c k k' \<Longrightarrow> t \<noteq> c \<Longrightarrow> frames k' t = frames k t"
  by (simp add: spares_def)

lemma spares_forked: "spares c k k' \<Longrightarrow> t \<noteq> c \<Longrightarrow> forked pf k t func arg \<Longrightarrow> forked pf k' t func arg"
  by (fastforce simp: spares_def forked_def)

text \<open>The main thread forks the two threads and finishes.\<close>

lemma lock_test_forks:
  assumes pf: "platform_ok pf" and main: "main pf hardware aS a1 a2 argv = Inr k0"
    and args: "main_args (tl argv) 1 = Inr 2"
  shows "\<exists>k1 l k t1 t2. step pf k0 = Inr k1 \<and> locktest1 k1 = l \<and> runs pf k1 k \<and> locked k l 0 [] \<and>
    view pf k t1 [RootF] [t2] 3 [] \<and> frames k t2 = [RootF] \<and> forked pf k t1 a1 0 \<and> forked pf k t2 a2 0 \<and>
    t1 \<noteq> 3 \<and> t2 \<noteq> 3 \<and> t2 \<noteq> t1"
proof -
  have v0: "view pf k0 3 (CodeF (NewLocktest1 ''LockTest1'' # [ForkNew ''one'' a1 0, ForkNew ''two'' a2 0,
      CurrentFinish]) # []) [] NULL []"
    using main_view [OF pf main args] by (simp add: main_code_def ThreadTest_def LockTest1_def)
  from new_lock_step [OF pf v0] obtain k1 l where k1: "step pf k0 = Inr k1"
    "view pf k1 3 (CodeF (ForkNew ''one'' a1 0 # [ForkNew ''two'' a2 0, CurrentFinish]) # []) [] NULL []"
    "locked k1 l 0 []" by auto
  from fork_step [OF pf _ k1(2)] obtain k2 t1 where k2: "step pf k1 = Inr k2"
    "view pf k2 3 (CodeF (ForkNew ''two'' a2 0 # [CurrentFinish]) # []) [t1] NULL []" "t1 \<noteq> 3"
    "frames k2 t1 = [RootF]" "forked pf k2 t1 a1 0" "same_locks k1 k2" by auto
  from fork_step [OF pf _ k2(2)] obtain k3 t2 where k3: "step pf k2 = Inr k3"
    "view pf k3 3 (CodeF (CurrentFinish # []) # []) [t1, t2] NULL []" "t2 \<noteq> 3"
    "frames k3 t2 = [RootF]" "forked pf k3 t2 a2 0" "same_locks k2 k3" "threads k2 t2 = None"
    "\<And>u. u \<noteq> 3 \<Longrightarrow> u \<noteq> t2 \<Longrightarrow> frames k3 u = frames k2 u \<and> threads k3 u = threads k2 u" by auto
  have t: "t2 \<noteq> t1" using k2(5) k3(7) by (auto simp: forked_def)
  then have t1: "frames k3 t1 = [RootF]" "forked pf k3 t1 a1 0"
    using k3(8) [of t1] k2(3-5) by (auto simp: forked_def)
  from finish_step [OF pf _ k3(2)] obtain k4 where k4: "step pf k3 = Inr k4"
    "view pf k4 3 (SleepF # [CodeF []]) (t1 # [t2]) 3 []" "others 3 k3 k4" by auto
  from dispatch_step [OF pf k4(2) k2(3)] obtain k5 where k5: "step pf k4 = Inr k5"
    "view pf k5 t1 (frames k4 t1) [t2] 3 []" "others 3 k4 k5" by blast
  have "locked k5 l 0 []"
    by (rule others_locked [OF k5(3) others_locked [OF k4(3)
        same_locked [OF k3(6) same_locked [OF k2(6) k1(3)]]]])
  moreover have "frames k4 t1 = [RootF]" "frames k5 t2 = [RootF]"
    using spares_frames [OF others_keep [OF k4(3)]] spares_frames [OF others_keep [OF k5(3)]]
      t1(1) k2(3) k3(3,4) by simp_all
  moreover have "forked pf k5 t1 a1 0" "forked pf k5 t2 a2 0"
    using others_forked [OF k5(3)] others_forked [OF k4(3)] k2(3) k3(3,5) t1(2) by blast+
  moreover have "runs pf k1 k5"
    by (rule runs_step [OF k2(1) runs_step [OF k3(1) runs_step [OF k4(1) runs1 [OF k5(1)]]]])
  moreover have "locktest1 k1 = l" using k1(3) by (simp add: locked_def)
  ultimately show ?thesis using k1(1) k5(2) k2(3) k3(3) t by auto
qed

text \<open>The first thread takes the lock.\<close>

lemma lock_test_first:
  assumes pf: "platform_ok pf" and addr: "a1 \<noteq> addr_InterruptEnable pf" "a1 \<noteq> addr_ThreadFinish pf"
    and code: "program pf a1 0 = LockThread1 0"
    and main: "main pf hardware aS a1 a2 argv = Inr k0" and args: "main_args (tl argv) 1 = Inr 2"
  shows "\<exists>k1 l k t1 t2. step pf k0 = Inr k1 \<and> locktest1 k1 = l \<and> runs pf k1 k \<and> locked k l 1 [] \<and>
    view pf k t1 (CodeF (drop 2 (LockThread1 0)) # [CallF (addr_ThreadFinish pf) 0]) [t2] 3 [''L1:0'' @ newline] \<and>
    frames k t2 = [RootF] \<and> forked pf k t2 a2 0 \<and> t1 \<noteq> 3 \<and> t2 \<noteq> 3 \<and> t2 \<noteq> t1"
proof -
  from lock_test_forks [OF pf main args] obtain k1 l k2 t1 t2 where k1: "step pf k0 = Inr k1" "locktest1 k1 = l"
    and k2: "runs pf k1 k2" "locked k2 l 0 []" "view pf k2 t1 [RootF] [t2] 3 []" "frames k2 t2 = [RootF]"
      "forked pf k2 t1 a1 0" "forked pf k2 t2 a2 0"
    and t: "t1 \<noteq> 3" "t2 \<noteq> 3" "t2 \<noteq> t1" by blast
  from root_steps [OF pf k2(3,5) addr] code obtain k3 where k3: "runs pf k2 k3"
    "view pf k3 t1 (CodeF (Printf (''L1:0'' @ newline) # Acquire Locktest1 # drop 2 (LockThread1 0)) #
      [CallF (addr_ThreadFinish pf) 0]) [t2] 3 []" "others t1 k2 k3"
    by (auto simp: LockThread1_def)
  from printf_step [OF pf k3(2)] obtain k4 where k4: "step pf k3 = Inr k4"
    "view pf k4 t1 (CodeF (Acquire Locktest1 # drop 2 (LockThread1 0)) #
      [CallF (addr_ThreadFinish pf) 0]) [t2] 3 [''L1:0'' @ newline]" "others t1 k3 k4" by auto
  from acquire_view [OF pf k4(2) _ others_locked [OF k4(3) others_locked [OF k3(3) k2(2)]]]
  obtain k5 where k5: "step pf k4 = Inr k5"
    "view pf k5 t1 (CodeF (drop 2 (LockThread1 0)) # [CallF (addr_ThreadFinish pf) 0]) [t2] 3 [''L1:0'' @ newline]"
    "locked k5 l 1 []" "spares t1 k4 k5" by auto
  have "frames k5 t2 = [RootF]"
    using spares_frames [OF others_keep [OF k3(3)] t(3)] spares_frames [OF others_keep [OF k4(3)] t(3)]
      spares_frames [OF k5(4) t(3)] k2(4) by simp
  moreover have "forked pf k5 t2 a2 0"
    by (rule spares_forked [OF k5(4) t(3) others_forked [OF k4(3) t(3) others_forked [OF k3(3) t(3) k2(6)]]])
  moreover have "runs pf k1 k5"
    by (rule runs_trans [OF k2(1) runs_trans [OF k3(1) runs_step [OF k4(1) runs1 [OF k5(1)]]]])
  ultimately show ?thesis using k1 k5(2,3) t by blast
qed

text \<open>The second thread finds the lock held and goes to sleep.\<close>

lemma lock_test_contend:
  assumes pf: "platform_ok pf" and addr: "a2 \<noteq> addr_InterruptEnable pf" "a2 \<noteq> addr_ThreadFinish pf"
    and code: "program pf a2 0 = LockThread2 0"
    and v: "view pf k t1 (CodeF (drop 2 (LockThread1 0)) # us) [t2] d out" and us: "user_frames us"
    and l: "locked k l 1 []" and t2: "t2 \<noteq> t1" "frames k t2 = [RootF]" "forked pf k t2 a2 0"
  shows "\<exists>k' lev lev'. runs pf k k' \<and> locked k' l 1 [t2] \<and>
    view pf k' t1 (RunF # YieldF lev # CodeF (drop 4 (LockThread1 0)) # us) [] d
      (out @ [''L1:1'' @ newline, ''L2:0'' @ newline]) \<and>
    frames k' t2 = RunF # AcquireF l lev' # CodeF (drop 2 (LockThread2 0)) # [CallF (addr_ThreadFinish pf) 0]"
proof -
  let ?fin = "[CallF (addr_ThreadFinish pf) 0]" and ?out = "out @ [''L1:1'' @ newline]"
  have v0: "view pf k t1 (CodeF (Printf (''L1:1'' @ newline) # CurrentYield # drop 4 (LockThread1 0)) # us) [t2] d out"
    using v by (simp add: LockThread1_def)
  from printf_step [OF pf v0] obtain k1 where k1: "step pf k = Inr k1"
    "view pf k1 t1 (CodeF (CurrentYield # drop 4 (LockThread1 0)) # us) [t2] d ?out" "others t1 k k1" by blast
  from yield_step [OF pf k1(2) us] obtain k2 lev where k2: "step pf k1 = Inr k2"
    "view pf k2 t2 (frames k1 t2) ([] @ [t1]) d ?out"
    "frames k2 t1 = RunF # YieldF lev # CodeF (drop 4 (LockThread1 0)) # us" "others t1 k1 k2" by blast
  have "frames k1 t2 = [RootF]" using spares_frames [OF others_keep [OF k1(3)] t2(1)] t2(2) by simp
  with k2(2) have v2: "view pf k2 t2 [RootF] [t1] d ?out" by simp
  have f2: "forked pf k2 t2 a2 0" by (rule others_forked [OF k2(4) t2(1) others_forked [OF k1(3) t2(1,3)]])
  from root_steps [OF pf v2 f2 addr] code obtain k3 where k3: "runs pf k2 k3"
    "view pf k3 t2 (CodeF (Printf (''L2:0'' @ newline) # Acquire Locktest1 # drop 2 (LockThread2 0)) # ?fin)
      [t1] d ?out" "others t2 k2 k3"
    by (auto simp: LockThread2_def)
  from printf_step [OF pf k3(2)] obtain k4 where k4: "step pf k3 = Inr k4"
    "view pf k4 t2 (CodeF (Acquire Locktest1 # drop 2 (LockThread2 0)) # ?fin) [t1] d (?out @ [''L2:0'' @ newline])"
    "others t2 k3 k4" by blast
  have l4: "locked k4 l 1 []"
    by (rule others_locked [OF k4(3) others_locked [OF k3(3) others_locked [OF k2(4) others_locked [OF k1(3) l]]]])
  from block_view [OF pf k4(2) _ l4] obtain k5 lev' where k5: "step pf k4 = Inr k5"
    "view pf k5 t2 (SleepF # AcquireF l lev' # CodeF (drop 2 (LockThread2 0)) # ?fin) (t1 # []) d
      (?out @ [''L2:0'' @ newline])" "locked k5 l 1 ([] @ [t2])" "spares t2 k4 k5" by auto
  note t1 = t2(1) [symmetric]
  from dispatch_step [OF pf k5(2) t1] obtain k6 where k6: "step pf k5 = Inr k6"
    "view pf k6 t1 (frames k5 t1) [] d (?out @ [''L2:0'' @ newline])"
    "frames k6 t2 = RunF # AcquireF l lev' # CodeF (drop 2 (LockThread2 0)) # ?fin" "others t2 k5 k6" by blast
  have "frames k5 t1 = RunF # YieldF lev # CodeF (drop 4 (LockThread1 0)) # us"
    using spares_frames [OF others_keep [OF k3(3)] t1] spares_frames [OF others_keep [OF k4(3)] t1]
      spares_frames [OF k5(4) t1] k2(3) by simp
  with k6(2) have "view pf k6 t1 (RunF # YieldF lev # CodeF (drop 4 (LockThread1 0)) # us) [] d
      (out @ [''L1:1'' @ newline, ''L2:0'' @ newline])" by simp
  moreover have "locked k6 l 1 [t2]" using others_locked [OF k6(4) k5(3)] by simp
  moreover have "runs pf k k6"
    by (rule runs_step [OF k1(1) runs_step [OF k2(1) runs_trans [OF k3(1)
          runs_step [OF k4(1) runs_step [OF k5(1) runs1 [OF k6(1)]]]]]])
  ultimately show ?thesis using k6(3) by blast
qed

text \<open>The end of a thread: print, release, print, and return to \<open>ThreadFinish\<close>.\<close>

lemma lock_thread_end:
  assumes pf: "platform_ok pf" and ne: "addr_ThreadFinish pf \<noteq> addr_InterruptEnable pf"
    and v: "view pf k c (CodeF [Printf s, Release Locktest1, Printf r] # [CallF (addr_ThreadFinish pf) 0]) q d out"
    and l: "locked k l v0 ts"
  shows "\<exists>k'. runs pf k k' \<and> view pf k' c [SleepF] (q @ take 1 ts) c (out @ [s, r]) \<and>
    locked k' l 0 (drop 1 ts) \<and> (\<forall>t. t \<noteq> c \<longrightarrow> frames k' t = frames k t)"
proof -
  let ?fin = "[CallF (addr_ThreadFinish pf) 0]"
  from printf_step [OF pf v] obtain k1 where k1: "step pf k = Inr k1"
    "view pf k1 c (CodeF (Release Locktest1 # [Printf r]) # ?fin) q d (out @ [s])" "others c k k1" by blast
  from release_view [OF pf k1(2) _ others_locked [OF k1(3) l]] obtain k2 where k2: "step pf k1 = Inr k2"
    "view pf k2 c (CodeF (Printf r # []) # ?fin) (q @ take 1 ts) d (out @ [s])" "locked k2 l 0 (drop 1 ts)"
    "spares c k1 k2" by auto
  from printf_step [OF pf k2(2)] obtain k3 where k3: "step pf k2 = Inr k3"
    "view pf k3 c (CodeF [] # ?fin) (q @ take 1 ts) d ((out @ [s]) @ [r])" "others c k2 k3" by blast
  from code_end_step [OF pf k3(2)] obtain k4 where k4: "step pf k3 = Inr k4"
    "view pf k4 c (CallF (addr_ThreadFinish pf) 0 # []) (q @ take 1 ts) d ((out @ [s]) @ [r])"
    "others c k3 k4" by blast
  from call_finish_step [OF pf _ ne k4(2)] obtain k5 where k5: "step pf k4 = Inr k5"
    "view pf k5 c (SleepF # []) (q @ take 1 ts) c ((out @ [s]) @ [r])" "others c k4 k5" by auto
  have "locked k5 l 0 (drop 1 ts)"
    by (rule others_locked [OF k5(3) others_locked [OF k4(3) others_locked [OF k3(3) k2(3)]]])
  moreover have "frames k5 t = frames k t" if t: "t \<noteq> c" for t
    using spares_frames [OF others_keep [OF k1(3)] t] spares_frames [OF k2(4) t]
      spares_frames [OF others_keep [OF k3(3)] t] spares_frames [OF others_keep [OF k4(3)] t]
      spares_frames [OF others_keep [OF k5(3)] t] by simp
  moreover have "runs pf k k5"
    by (rule runs_step [OF k1(1) runs_step [OF k2(1) runs_step [OF k3(1)
          runs_step [OF k4(1) runs1 [OF k5(1)]]]]])
  ultimately show ?thesis using k5(2) by auto
qed

lemma lock_test_run:
  assumes pf: "platform_ok pf" and idle: "\<And>m. Idle pf m = None"
    and addr: "addr_ThreadFinish pf \<noteq> addr_InterruptEnable pf" "a1 \<noteq> addr_InterruptEnable pf"
      "a1 \<noteq> addr_ThreadFinish pf" "a2 \<noteq> addr_InterruptEnable pf" "a2 \<noteq> addr_ThreadFinish pf"
    and code: "program pf a1 0 = LockThread1 0" "program pf a2 0 = LockThread2 0"
    and main: "main pf hardware aS a1 a2 argv = Inr k0" and args: "main_args (tl argv) 1 = Inr 2"
  shows "\<exists>n k. run pf n k0 = (k, Some Halted) \<and> map_option held (locks k (locktest1 k)) = Some 0 \<and>
    printed k = map (\<lambda>s. s @ newline)
      [''L1:0'', ''L1:1'', ''L2:0'', ''L1:2'', ''L1:3'', ''L2:1'', ''L2:2'', ''L2:3'']"
proof -
  let ?fin = "[CallF (addr_ThreadFinish pf) 0]"
  let ?out = "map (\<lambda>s. s @ newline) [''L1:0'', ''L1:1'', ''L2:0'']"
  from lock_test_first [OF pf addr(2,3) code(1) main args] obtain ka l k1 t1 t2 where
    ka: "step pf k0 = Inr ka" "runs pf ka k1" and k1: "locked k1 l 1 []"
      "view pf k1 t1 (CodeF (drop 2 (LockThread1 0)) # ?fin) [t2] 3 [''L1:0'' @ newline]"
      "frames k1 t2 = [RootF]" "forked pf k1 t2 a2 0"
    and t: "t1 \<noteq> 3" "t2 \<noteq> 3" "t2 \<noteq> t1" by blast
  from lock_test_contend [OF pf addr(4,5) code(2) k1(2) _ k1(1) t(3) k1(3,4)]
  obtain k2 lev lev' where k2: "runs pf k1 k2" "locked k2 l 1 [t2]"
    "view pf k2 t1 (RunF # YieldF lev # CodeF (drop 4 (LockThread1 0)) # ?fin) [] 3 ?out"
    "frames k2 t2 = RunF # AcquireF l lev' # CodeF (drop 2 (LockThread2 0)) # ?fin" by auto
  have main_ptr: "(3::ptr) \<noteq> NULL" by simp
  from destroy_step [OF pf k2(3) main_ptr] obtain k3 where k3: "step pf k2 = Inr k3"
    "view pf k3 t1 (YieldF lev # CodeF (drop 4 (LockThread1 0)) # ?fin) [] NULL ?out" "same_locks k2 k3"
    "frames k3 t2 = frames k2 t2" using t by blast
  from yield_return_step [OF pf k3(2)] obtain k4 where k4: "step pf k3 = Inr k4"
    "view pf k4 t1 (CodeF [Printf (''L1:2'' @ newline), Release Locktest1, Printf (''L1:3'' @ newline)] # ?fin)
      [] NULL ?out" "others t1 k3 k4" by (auto simp: LockThread1_def)
  from lock_thread_end [OF pf addr(1) k4(2) others_locked [OF k4(3) same_locked [OF k3(3) k2(2)]]]
  obtain k5 where k5: "runs pf k4 k5"
    "view pf k5 t1 (SleepF # []) (t2 # []) t1 (?out @ [''L1:2'' @ newline, ''L1:3'' @ newline])"
    "locked k5 l 0 []" "frames k5 t2 = frames k4 t2" using t(3) by auto
  from dispatch_step [OF pf k5(2) t(3)] obtain k6 where k6: "step pf k5 = Inr k6"
    "view pf k6 t2 (frames k5 t2) [] t1 (?out @ [''L1:2'' @ newline, ''L1:3'' @ newline])"
    "others t1 k5 k6" by blast
  have f2: "frames k5 t2 = RunF # AcquireF l lev' # CodeF (drop 2 (LockThread2 0)) # ?fin"
    using k5(4) spares_frames [OF others_keep [OF k4(3)] t(3)] k3(4) k2(4) by simp
  from destroy_step [OF pf k6(2) [unfolded f2] view_not_null [OF k5(2)]] obtain k7 where k7: "step pf k6 = Inr k7"
    "view pf k7 t2 (AcquireF l lev' # CodeF (drop 2 (LockThread2 0)) # ?fin) [] NULL
      (?out @ [''L1:2'' @ newline, ''L1:3'' @ newline])" "same_locks k6 k7" by blast
  from retry_view [OF pf k7(2) _ same_locked [OF k7(3) others_locked [OF k6(3) k5(3)]]]
  obtain k8 where k8: "step pf k7 = Inr k8" "locked k8 l 1 []"
    "view pf k8 t2 (CodeF (Printf (''L2:1'' @ newline) # CurrentYield # drop 4 (LockThread2 0)) # ?fin) [] NULL
      (?out @ [''L1:2'' @ newline, ''L1:3'' @ newline])" by (auto simp: LockThread2_def)
  from printf_step [OF pf k8(3)] obtain k9 where k9: "step pf k8 = Inr k9" "others t2 k8 k9"
    "view pf k9 t2 (CodeF (CurrentYield # drop 4 (LockThread2 0)) # ?fin) [] NULL
      ((?out @ [''L1:2'' @ newline, ''L1:3'' @ newline]) @ [''L2:1'' @ newline])" by blast
  from yield_alone_step [OF pf k9(3)] obtain k10 where k10: "step pf k9 = Inr k10" "others t2 k9 k10"
    "view pf k10 t2 (CodeF [Printf (''L2:2'' @ newline), Release Locktest1, Printf (''L2:3'' @ newline)] # ?fin)
      [] NULL ((?out @ [''L1:2'' @ newline, ''L1:3'' @ newline]) @ [''L2:1'' @ newline])"
    by (auto simp: LockThread2_def)
  from lock_thread_end [OF pf addr(1) k10(3) others_locked [OF k10(2) others_locked [OF k9(2) k8(2)]]]
  obtain k11 where k11: "runs pf k10 k11" "locked k11 l 0 []" "view pf k11 t2 (SleepF # []) [] t2
      (((?out @ [''L1:2'' @ newline, ''L1:3'' @ newline]) @ [''L2:1'' @ newline]) @
        [''L2:2'' @ newline, ''L2:3'' @ newline])" by auto
  have "runs pf k4 k7" by (rule runs_trans [OF k5(1) runs_step [OF k6(1) runs1 [OF k7(1)]]])
  moreover have "runs pf k7 k11"
    by (rule runs_step [OF k8(1) runs_step [OF k9(1) runs_step [OF k10(1) k11(1)]]])
  moreover have "runs pf k0 k4"
    by (rule runs_step [OF ka(1) runs_trans [OF ka(2) runs_trans [OF k2(1) runs_step [OF k3(1) runs1 [OF k4(1)]]]]])
  ultimately have "runs pf k0 k11" by (blast intro: runs_trans)
  from runs_end [OF this halt_step [OF pf k11(3) idle]] obtain n where "run pf n k0 = (k11, Some Halted)" ..
  moreover have "map_option held (locks k11 (locktest1 k11)) = Some 0" using k11(2) by (simp add: locked_def)
  ultimately show ?thesis using k11(3) by (auto simp: view_def)
qed

end
