(* ===== verification/BootProps.thy ===== *)
theory BootProps
  imports KernelProps LockTestRun
begin

text \<open>
  Properties of \<open>system.cc\<close>, \<open>main.cc\<close>, \<open>threadtest.cc\<close> and \<open>utility.h\<close>: the command line, the
  first state, the output of the ping-pong test, and shutdown.
\<close>

section \<open>Numbers on the command line\<close>

lemma digit_simps:
  assumes "d < 10"
  shows "(of_char (digit d) :: int) = 48 + int d" and "is_digit (digit d)"
proof -
  have "(of_char (digit d) :: nat) = 48 + d"
    using assms by (simp add: digit_def of_char_of)
  then show "(of_char (digit d) :: int) = 48 + int d"
    by (metis of_nat_add of_nat_numeral of_nat_of_char)
  then show "is_digit (digit d)" using assms by (simp add: is_digit_def)
qed

lemma digits_value_append:
  "list_all is_digit xs \<Longrightarrow> digits_value acc (xs @ ys) = digits_value (digits_value acc xs) ys"
  by (induction xs arbitrary: acc) simp_all

lemma decimal_nat_digits: "list_all is_digit (decimal_nat n)"
  by (induction n rule: decimal_nat.induct)
     (subst decimal_nat.simps, auto simp: digit_simps)

lemma digits_value_decimal: "digits_value 0 (decimal_nat n) = int n"
proof (induction n rule: decimal_nat.induct)
  case (1 n)
  show ?case
  proof (cases "n < 10")
    case True
    then show ?thesis by (subst decimal_nat.simps) (simp add: digit_simps)
  next
    case False
    then have "digits_value 0 (decimal_nat (n div 10) @ [digit (n mod 10)]) = int (n div 10) * 10 + int (n mod 10)"
      using 1 by (simp add: digits_value_append decimal_nat_digits digit_simps)
    with False show ?thesis by (subst decimal_nat.simps) (simp, presburger)
  qed
qed

lemma decimal_nat_Cons:
  obtains c cs where "decimal_nat n = c # cs" and "is_digit c"
proof -
  have "decimal_nat n \<noteq> []" by (subst decimal_nat.simps) simp
  then obtain c cs where "decimal_nat n = c # cs" by (cases "decimal_nat n") auto
  with decimal_nat_digits [of n] that show ?thesis by simp
qed

lemma digit_not_sign:
  "is_digit c \<Longrightarrow> \<not> is_space c" "is_digit c \<Longrightarrow> c \<noteq> CHR ''-''" "is_digit c \<Longrightarrow> c \<noteq> CHR ''+''"
  by (auto simp: is_digit_def is_space_def)

text \<open>\<open>atoi\<close> reads back what \<open>printf("%d")\<close> prints.\<close>

lemma atoi_decimal: "atoi (decimal i) = i"
proof (cases "i < 0")
  case True
  then show ?thesis by (simp add: atoi_def decimal_def is_space_def digits_value_decimal)
next
  case False
  obtain c cs where c: "decimal_nat (nat i) = c # cs" "is_digit c" by (rule decimal_nat_Cons)
  then have "digits_value 0 (c # cs) = i" using digits_value_decimal [of "nat i"] False by simp
  with c False show ?thesis by (simp add: atoi_def decimal_def digit_not_sign del: digits_value.simps)
qed

section \<open>The command line\<close>

lemma main_args_append:
  "main_args xs t = Inr n \<Longrightarrow> main_args (xs @ ys) t = main_args ys n"
proof (induction xs t rule: main_args.induct)
  case (1 t)
  then show ?case by simp
next
  case (2 arg argv t)
  then obtain c where c: "second_char arg = Inr c" by (auto simp: bindE_eq_Inr)
  show ?case
  proof (cases "c = CHR ''q''")
    case True
    with 2 c show ?thesis by (cases argv) simp_all
  next
    case False
    with 2 c show ?thesis by simp
  qed
qed

text \<open>
  How \<open>main\<close> chooses the test. After arguments that leave \<open>n\<close>, a word with \<open>q\<close> as its second
  character and a number choose that number; any other word chooses test 1 again, whatever was
  chosen before it; and a last word with \<open>q\<close> and no number makes \<open>atoi\<close> dereference \<open>NULL\<close>.
\<close>

theorem main_chooses_test:
  assumes "main_args xs t = Inr n" and "second_char arg = Inr c"
  shows "(c = CHR ''q'' \<longrightarrow> main_args (xs @ [arg, decimal i]) t = Inr i) \<and>
    (c = CHR ''q'' \<longrightarrow> main_args (xs @ [arg]) t = Inl (BadPointer NULL)) \<and>
    (c \<noteq> CHR ''q'' \<longrightarrow> main_args (xs @ [arg]) t = Inr 1)"
  using assms by (simp add: main_args_append atoi_decimal)

theorem main_chooses_test_witness:
  "main_args [''-q'', decimal 2] 1 = Inr 2 \<and> main_args [''-q'', decimal 2, ''-z''] 1 = Inr 1"
proof -
  have q: "second_char ''-q'' = Inr (CHR ''q'')" and z: "second_char ''-z'' = Inr (CHR ''z'')"
    by (simp_all add: second_char_def)
  have one: "main_args [] 1 = Inr 1" by simp
  have "main_args [''-q'', decimal 2] 1 = Inr 2" using main_chooses_test [OF one q, of 2] by simp
  with main_chooses_test [OF this z] show ?thesis by simp
qed

text \<open>What a user means by the options, and how they are written.\<close>

datatype opt = DebugFlags string | RandomSeed int | Unknown string

fun written :: "opt \<Rightarrow> string list" where
  "written (DebugFlags fl) = [''-d'', fl]"
| "written (RandomSeed i) = [''-rs'', decimal i]"
| "written (Unknown w) = [w]"

fun meant :: "opt \<Rightarrow> options \<Rightarrow> options" where
  "meant (DebugFlags fl) o1 = o1\<lparr>debugArgs := fl\<rparr>"
| "meant (RandomSeed i) o1 = o1\<lparr>seeds := seeds o1 @ [i], randomYield := True\<rparr>"
| "meant (Unknown w) o1 = o1"

fun proper :: "opt \<Rightarrow> bool" where
  "proper (Unknown w) \<longleftrightarrow> w \<noteq> ''-d'' \<and> w \<noteq> ''-rs''"
| "proper _ \<longleftrightarrow> True"

lemma Initialize_args_written:
  "list_all proper os \<Longrightarrow>
    Initialize_args (concat (map written os) @ ys) o1 = Initialize_args ys (fold meant os o1)"
proof (induction os arbitrary: o1)
  case Nil
  then show ?case by simp
next
  case (Cons x os)
  then show ?case by (cases x) (simp_all add: atoi_decimal)
qed

text \<open>
  \<open>Initialize\<close> reads any sequence of options as it is meant: the last \<open>-d\<close> sets the debug flags,
  each \<open>-rs\<close> seeds the random numbers and asks for random time slices, and other words are ignored.
  A final \<open>-d\<close> enables all flags; a final \<open>-rs\<close> fails the assertion in line 105.
\<close>

theorem initialize_reads_options:
  assumes "list_all proper os"
  shows "Initialize_args (concat (map written os)) o1 = Inr (fold meant os o1) \<and>
    Initialize_args (concat (map written os) @ [''-d'']) o1 = Inr ((fold meant os o1)\<lparr>debugArgs := ''+''\<rparr>) \<and>
    Initialize_args (concat (map written os) @ [''-rs'']) o1 = Inl (AssertionFailed ''system.cc'' 105)"
  using Initialize_args_written [OF assms, of "[]" o1] Initialize_args_written [OF assms, of "[''-d'']" o1]
    Initialize_args_written [OF assms, of "[''-rs'']" o1]
  by simp

theorem initialize_reads_options_witness:
  "Initialize_args [''-q'', ''-d'', ''t'', ''-rs'', decimal 7] default_options =
     Inr \<lparr>debugArgs = ''t'', randomYield = True, seeds = [7]\<rparr>"
  using initialize_reads_options [of "[Unknown ''-q'', DebugFlags ''t'', RandomSeed 7]" default_options]
  by (simp add: default_options_def)

section \<open>Starting and stopping\<close>

text \<open>
  The first state. \<open>main\<close> starts with one thread, which runs the chosen test, with an empty
  ready list, no semaphores or locks, nothing printed and interrupts on; the kernel's invariant
  holds of it.
\<close>

theorem main_first_state:
  assumes "platform_ok pf" and "main pf hardware aS a1 a2 argv = Inr k"
  shows "\<exists>testnum. main_args (tl argv) 1 = Inr testnum \<and> kinv pf k \<and>
    threads k = [currentThread k \<mapsto> first_thread] \<and> status first_thread = RUNNING \<and>
    frames k (currentThread k) = [CodeF (main_code testnum aS a1 a2)] \<and>
    (\<forall>ow. queue k ow = []) \<and> semaphores k = Map.empty \<and> locks k = Map.empty \<and>
    threadToBeDestroyed k = NULL \<and> printed k = [] \<and> getLevel pf (interrupt k) = IntOn"
proof -
  from main_state [OF assms(2)] obtain opt testnum where
    m: "main_args (tl argv) 1 = Inr testnum"
      "k = (kernel0 (Enable pf (hardware opt)))\<lparr>heap := first_heap, threads := [3 \<mapsto> first_thread],
        frames := (\<lambda>_. [])(3 := [CodeF (main_code testnum aS a1 a2)]), currentThread := 3, readyList := 2\<rparr>"
    by blast
  then have "threads k = [currentThread k \<mapsto> first_thread]" "threadToBeDestroyed k = NULL"
    "frames k (currentThread k) = [CodeF (main_code testnum aS a1 a2)]"
    "getLevel pf (interrupt k) = IntOn"
    using platform_okD(3) [OF assms(1)] by (simp_all add: kernel0_def)
  moreover have "status first_thread = RUNNING" by (simp add: first_thread_def)
  ultimately show ?thesis using m(1) main_kinv [OF assms] by blast
qed

theorem main_first_state_witness:
  "kinv plain_machine (start 2) \<and> (\<forall>ow. queue (start 2) ow = []) \<and>
     threads (start 2) = [currentThread (start 2) \<mapsto> first_thread]"
  using main_first_state [OF plain_machine_ok start_main(2)] by blast

text \<open>
  \<open>Cleanup\<close> returns in every state of the running kernel: the ready list is deleted with all its
  elements, and every other list is left alone. (The threads still on it are not deleted.)
\<close>

theorem cleanup_returns:
  assumes "kinv pf k"
  shows "\<exists>k'. Cleanup release k = Some (Inr k') \<and>
    lists_of (heap k') = (lists_of (heap k))(readyList k := None) \<and> threads k' = threads k \<and>
    interrupt k' = release (interrupt k) \<and>
    printed k' = printed k @ [newline @ ''Cleaning up...'' @ newline]"
proof -
  have wf: "wf k" using assms by (simp add: kinv_def)
  from wf_queueE [OF wf, of ReadyQ "readyList k"] obtain es where
    es: "heap_ok (heap k)" "lists_of (heap k) (readyList k) = Some es" "queue k ReadyQ = map snd es" by auto
  have "NULL \<notin> set (queue k ReadyQ)"
    using kinv_placement(2) [OF assms, of NULL] wfD(4) [OF wf, of NULL] by auto
  then have "NULL \<notin> snd ` set es" using es(3) by simp
  from delete_List_spec [OF es(1,2) this] show ?thesis
    by (auto simp: Cleanup_def delete_Scheduler_def printf_def Let_def)
qed

theorem cleanup_returns_witness:
  "\<exists>k'. Cleanup (\<lambda>m. m) (start 1) = Some (Inr k') \<and> lists_of (heap k') 2 = None"
proof -
  have "readyList (start 1) = 2" by (simp add: start_def)
  with cleanup_returns [OF start_kinv(1), of "\<lambda>m. m"] show ?thesis by auto
qed

section \<open>The ping-pong test\<close>

text \<open>
  C38: The ping-pong test, on any machine without devices or time slices: the two threads print their
  five lines in strict alternation, the machine halts after that, and the main thread's object is
  gone.
\<close>

theorem ping_pong:
  assumes "platform_ok pf" and "\<And>m. Idle pf m = None"
    and "addr_ThreadFinish pf \<noteq> addr_InterruptEnable pf" and "aS \<noteq> addr_InterruptEnable pf"
    and "aS \<noteq> addr_ThreadFinish pf" and "program pf aS 1 = SimpleThread 1"
    and "main pf hardware aS a1 a2 argv = Inr k0" and "main_args (tl argv) 1 = Inr 1"
  shows "\<exists>n k. run pf n k0 = (k, Some Halted) \<and> threads k 3 = None \<and>
    printed k = concat (map (\<lambda>j. [looped 0 j, looped 1 j]) [0..<5])"
  using ping_pong_run [OF assms] by (simp add: rounds_def conj_commute)

theorem ping_pong_witness:
  "\<exists>n k. run plain_machine n (start 1) = (k, Some Halted) \<and>
     printed k = concat (map (\<lambda>j. [looped 0 j, looped 1 j]) [0..<5])"
proof -
  have p: "\<And>m. Idle plain_machine m = None" "addr_ThreadFinish plain_machine \<noteq> addr_InterruptEnable plain_machine"
    "10 \<noteq> addr_InterruptEnable plain_machine" "10 \<noteq> addr_ThreadFinish plain_machine"
    "program plain_machine 10 1 = SimpleThread 1"
    by (simp_all add: plain_machine_def test_program_def)
  have "main_args (tl [''nachos'']) 1 = Inr 1" by simp
  from ping_pong [OF plain_machine_ok p start_main(1) this] show ?thesis by blast
qed

section \<open>The lock test\<close>

text \<open>
  C37: The lock test (\<open>nachos -q 2\<close>), on any machine without devices or time slices: \<open>LockThread2\<close>
  reaches the lock while \<open>LockThread1\<close> holds it and waits until it is released, so the eight lines
  appear in this order; then the machine halts, and the lock is free.
\<close>

theorem lock_test_output:
  assumes "platform_ok pf" and "\<And>m. Idle pf m = None"
    and "addr_ThreadFinish pf \<noteq> addr_InterruptEnable pf"
    and "a1 \<noteq> addr_InterruptEnable pf" and "a1 \<noteq> addr_ThreadFinish pf"
    and "a2 \<noteq> addr_InterruptEnable pf" and "a2 \<noteq> addr_ThreadFinish pf"
    and "program pf a1 0 = LockThread1 0" and "program pf a2 0 = LockThread2 0"
    and "main pf hardware aS a1 a2 argv = Inr k0" and "main_args (tl argv) 1 = Inr 2"
  shows "\<exists>n k. run pf n k0 = (k, Some Halted) \<and> map_option held (locks k (locktest1 k)) = Some 0 \<and>
    printed k = map (\<lambda>s. s @ newline)
      [''L1:0'', ''L1:1'', ''L2:0'', ''L1:2'', ''L1:3'', ''L2:1'', ''L2:2'', ''L2:3'']"
  by (rule lock_test_run [OF assms])

theorem lock_test_output_witness:
  "\<exists>n k. run plain_machine n (start 2) = (k, Some Halted) \<and>
     map_option held (locks k (locktest1 k)) = Some 0 \<and>
     printed k = map (\<lambda>s. s @ newline)
       [''L1:0'', ''L1:1'', ''L2:0'', ''L1:2'', ''L1:3'', ''L2:1'', ''L2:2'', ''L2:3'']"
proof -
  have p: "\<And>m. Idle plain_machine m = None" "addr_ThreadFinish plain_machine \<noteq> addr_InterruptEnable plain_machine"
    "11 \<noteq> addr_InterruptEnable plain_machine" "11 \<noteq> addr_ThreadFinish plain_machine"
    "12 \<noteq> addr_InterruptEnable plain_machine" "12 \<noteq> addr_ThreadFinish plain_machine"
    "program plain_machine 11 0 = LockThread1 0" "program plain_machine 12 0 = LockThread2 0"
    by (simp_all add: plain_machine_def test_program_def)
  have "main_args (tl [''nachos'', ''-q'', ''2'']) 1 = Inr 2"
    by (simp add: second_char_def atoi_def is_space_def is_digit_def)
  from lock_test_output [OF plain_machine_ok p start_main(2) this] show ?thesis .
qed

end
