(* ===== verification/BuildProps.thy ===== *)
theory BuildProps
  imports Builds BootProps
begin

text \<open>
  Properties of the builds of \<open>Builds\<close>: command lines are read as they are written, the build with
  \<open>THREADS\<close> agrees with \<open>Boot\<close> and never reaches the second loop of \<open>main\<close>, and \<open>Cleanup\<close> deletes
  what \<open>Initialize\<close> made.
\<close>

lemma argv_at_simps [simp]:
  "argv_at (w # ws) 0 = Inr w" "argv_at (w # ws) (Suc i) = argv_at ws i" "argv_at [] i = Inl (BadPointer NULL)"
  by (simp_all add: argv_at_def)

lemma argv_at_numeral [simp]:
  "argv_at (w # ws) (numeral v) = argv_at ws (pred_numeral v)" "argv_at (w # ws) 1 = argv_at ws 0"
  by (simp_all add: numeral_eq_Suc)

section \<open>Commands of main\<close>














definition user_build :: build where
  "user_build = \<lparr>THREADS = False, USER_PROGRAM = True, FILESYS = True, FILESYS_NEEDED = True, NETWORK = False\<rparr>"


section \<open>The build with THREADS\<close>




lemma threads_build_arg:
  "Initialize_arg threads_build argc (w # ws) opt =
     (if w = ''-d'' then
        if argc = 1 then Inr (opt\<lparr>debugArgs := ''+''\<rparr>, 1)
        else bindE (argv_at ws 0) (\<lambda>d. Inr (opt\<lparr>debugArgs := d\<rparr>, 2))
      else if w = ''-rs'' then
        bindE (assertE ''system.cc'' 105 (argc > 1)) (\<lambda>_.
        bindE (argv_at ws 0) (\<lambda>n. Inr (opt\<lparr>seeds := seeds opt @ [atoi n], randomYield := True\<rparr>, 2)))
      else Inr (opt, 1))"
proof -
  have "bindE m (\<lambda>(opt, argCount). Inr (opt, argCount)) = m" for m :: "(all_options \<times> nat) result"
    by (cases m) auto
  then show ?thesis by (simp add: Initialize_arg_def threads_build_def Let_def)
qed

lemma no_more_arguments: "argc \<le> 0 \<Longrightarrow> Initialize_loop b argc argv opt = Inr opt"
  by (subst Initialize_loop.simps) simp

lemma threads_build_loop:
  "map_sum id options.truncate (Initialize_loop threads_build (int (length argv)) argv opt) =
     Initialize_args argv (options.truncate opt)"
proof (induction argv "options.truncate opt" arbitrary: opt rule: Initialize_args.induct)
  case 1
  show ?case by (subst Initialize_loop.simps) simp
next
  case (2 arg argv)
  show ?case
  proof (cases argv)
    case Nil
    then show ?thesis
      using 2(3) [of opt] by (subst Initialize_loop.simps)
        (auto simp: threads_build_arg assertE_def options.truncate_def Initialize_loop.simps [of threads_build 0])
  next
    case (Cons w ws)
    then show ?thesis
      using 2 by (subst Initialize_loop.simps) (simp add: threads_build_arg assertE_def options.truncate_def)
  qed
qed

text \<open>
  The build with \<open>THREADS\<close> only, which the rest of the development models: the general argument
  loop of \<open>Initialize\<close> computes what \<open>Initialize_args\<close> does, \<open>Initialize\<close> makes the objects of the
  thread system only, and \<open>main\<close> makes the calls that \<open>main_code\<close> is made of.
\<close>

theorem threads_build_agrees:
  "map_sum id options.truncate (Initialize_options threads_build argv) =
     Initialize_args (tl argv) default_options \<and>
   set (Initialize_objects threads_build opt) \<subseteq> {Statistics, Interrupt, Scheduler, Timer True, MainThread} \<and>
   (main_args (tl argv) 1 = Inr t \<longrightarrow>
     main_calls threads_build argv = ([Call_ThreadTest t, Call_Finish], None) \<and>
     main_code t aS a1 a2 = ThreadTest t aS a1 a2 @ [CurrentFinish])"
proof (intro conjI impI)
  have "options.truncate default_all_options = default_options"
    by (simp add: default_all_options_def default_options_def options.truncate_def)
  moreover have "Initialize_options threads_build argv =
      Initialize_loop threads_build (int (length (tl argv))) (tl argv) default_all_options"
    by (cases argv) (simp_all add: Initialize_options_def no_more_arguments)
  ultimately show "map_sum id options.truncate (Initialize_options threads_build argv) =
      Initialize_args (tl argv) default_options"
    using threads_build_loop [of "tl argv" default_all_options] by simp
  show "set (Initialize_objects threads_build opt) \<subseteq> {Statistics, Interrupt, Scheduler, Timer True, MainThread}"
    by (auto simp: Initialize_objects_def threads_build_def)
  assume t: "main_args (tl argv) 1 = Inr t"
  have "main_commands threads_build (0 - 1) [] = ([Call_Finish], None)" by (subst main_commands.simps) simp
  with t show "main_calls threads_build argv = ([Call_ThreadTest t, Call_Finish], None)"
    by (simp add: main_calls_def) (simp add: threads_build_def)
  show "main_code t aS a1 a2 = ThreadTest t aS a1 a2 @ [CurrentFinish]" by (simp add: main_code_def)
qed

theorem threads_build_agrees_witness:
  "main_calls threads_build [''nachos'', ''-q'', ''2''] = ([Call_ThreadTest 2, Call_Finish], None)"
proof -
  have "main_args (tl [''nachos'', ''-q'', ''2'']) 1 = Inr 2"
    by (simp add: second_char_def atoi_def is_space_def is_digit_def)
  with threads_build_agrees [of "[''nachos'', ''-q'', ''2'']" undefined 2 10 11 12] show ?thesis by blast
qed

section \<open>Options of Initialize\<close>

datatype init_option =
    Debug string
  | Seed int
  | SingleStep
  | FormatDisk
  | Reliability string
  | MachineId int
  | OtherWord string

fun option_words :: "init_option \<Rightarrow> string list" where
  "option_words (Debug fl) = [''-d'', fl]"
| "option_words (Seed i) = [''-rs'', decimal i]"
| "option_words SingleStep = [''-s'']"
| "option_words FormatDisk = [''-f'']"
| "option_words (Reliability r) = [''-l'', r]"
| "option_words (MachineId i) = [''-m'', decimal i]"
| "option_words (OtherWord w) = [w]"

fun option_meant :: "init_option \<Rightarrow> all_options \<Rightarrow> all_options" where
  "option_meant (Debug fl) o1 = o1\<lparr>debugArgs := fl\<rparr>"
| "option_meant (Seed i) o1 = o1\<lparr>seeds := seeds o1 @ [i], randomYield := True\<rparr>"
| "option_meant SingleStep o1 = o1\<lparr>debugUserProg := True\<rparr>"
| "option_meant FormatDisk o1 = o1\<lparr>format := True\<rparr>"
| "option_meant (Reliability r) o1 = o1\<lparr>rely := Atof r\<rparr>"
| "option_meant (MachineId i) o1 = o1\<lparr>netname := i\<rparr>"
| "option_meant (OtherWord w) o1 = o1"

definition known_options :: "build \<Rightarrow> string set" where
  "known_options b = {''-d'', ''-rs''} \<union> (if USER_PROGRAM b then {''-s''} else {}) \<union>
     (if FILESYS_NEEDED b then {''-f''} else {}) \<union> (if NETWORK b then {''-l'', ''-m''} else {})"

fun has_option :: "build \<Rightarrow> init_option \<Rightarrow> bool" where
  "has_option b (OtherWord w) \<longleftrightarrow> w \<notin> known_options b"
| "has_option b x \<longleftrightarrow> hd (option_words x) \<in> known_options b"

lemma Initialize_arg_written:
  "has_option b x \<Longrightarrow>
    Initialize_arg b (int (length (option_words x @ ys))) (option_words x @ ys) opt =
      Inr (option_meant x opt, length (option_words x))"
  by (cases x) (auto simp: Initialize_arg_def known_options_def assertE_def Let_def atoi_decimal split: if_splits)

lemma Initialize_loop_written:
  "list_all (has_option b) xs \<Longrightarrow>
    Initialize_loop b (int (length (concat (map option_words xs) @ ys))) (concat (map option_words xs) @ ys) opt =
      Initialize_loop b (int (length ys)) ys (fold option_meant xs opt)"
proof (induction xs arbitrary: opt)
  case Nil
  show ?case by simp
next
  case (Cons x xs)
  let ?rest = "concat (map option_words xs) @ ys"
  have "0 < int (length (option_words x @ ?rest))" by (cases x) simp_all
  with Initialize_arg_written [of b x ?rest opt] Cons.prems
  have "Initialize_loop b (int (length (option_words x @ ?rest))) (option_words x @ ?rest) opt =
      Initialize_loop b (int (length ?rest)) ?rest (option_meant x opt)"
    by (subst Initialize_loop.simps) simp
  with Cons show ?case by simp
qed

text \<open>
  Options of \<open>Initialize\<close>. Every build reads any sequence of the options it has as they are
  meant, and ignores other words. A final \<open>-d\<close> enables all debugging messages; a final \<open>-rs\<close>, and
  with \<open>NETWORK\<close> a final \<open>-l\<close> or \<open>-m\<close>, fails its assertion.
\<close>

theorem initialize_options_read:
  assumes "list_all (has_option b) xs"
  shows "let argv = nachos # concat (map option_words xs); o1 = fold option_meant xs default_all_options in
    Initialize_options b argv = Inr o1 \<and>
    Initialize_options b (argv @ [''-d'']) = Inr (o1\<lparr>debugArgs := ''+''\<rparr>) \<and>
    Initialize_options b (argv @ [''-rs'']) = Inl (AssertionFailed ''system.cc'' 105) \<and>
    (NETWORK b \<longrightarrow> Initialize_options b (argv @ [''-l'']) = Inl (AssertionFailed ''system.cc'' 121) \<and>
       Initialize_options b (argv @ [''-m'']) = Inl (AssertionFailed ''system.cc'' 125))"
proof -
  let ?argv = "nachos # concat (map option_words xs)" and ?o1 = "fold option_meant xs default_all_options"
  have read: "Initialize_options b (?argv @ ys) = Initialize_loop b (int (length ys)) ys ?o1" for ys
    using Initialize_loop_written [OF assms(1), of ys default_all_options]
    by (simp add: Initialize_options_def)
  have one: "Initialize_loop b (int (length [w])) [w] opt = (case Initialize_arg b 1 [w] opt of
      Inl e \<Rightarrow> Inl e | Inr (opt', n) \<Rightarrow> Inr opt')" for w opt
    by (subst Initialize_loop.simps)
       (auto split: sum.splits dest: Initialize_arg_count intro!: no_more_arguments)
  show ?thesis
    using no_more_arguments [of 0 b "[]" ?o1] read [of "[]"] read [of "[''-d'']"] read [of "[''-rs'']"] read [of "[''-l'']"] read [of "[''-m'']"]
    unfolding one by (auto simp: Initialize_arg_def assertE_def Let_def)
qed

theorem initialize_options_read_witness:
  "Initialize_options user_build [''nachos'', ''-x'', ''-f'', ''-rs'', decimal 7, ''-d''] =
     Inr (default_all_options\<lparr>debugArgs := ''+'', randomYield := True, seeds := [7], format := True\<rparr>)"
proof -
  have "list_all (has_option user_build) [OtherWord ''-x'', FormatDisk, Seed 7]"
    by (simp add: user_build_def known_options_def)
  from initialize_options_read [OF this, of "''nachos''"] show ?thesis by (simp add: default_all_options_def)
qed

text \<open>
  In a build with \<open>FILESYS\<close> and \<open>NETWORK\<close> the word \<open>-l\<close> is both the reliability of \<open>Initialize\<close>
  and the directory listing of \<open>main\<close>: alone it fails the assertion of \<open>Initialize\<close>, and a following
  word is taken as the reliability. The documented \<open>-n\<close> is ignored.
\<close>

theorem list_option_clash:
  assumes "FILESYS b" and "NETWORK b" and "\<not> THREADS b"
  shows "Initialize_options b [nachos, ''-l''] = Inl (AssertionFailed ''system.cc'' 121) \<and>
    main_calls b [nachos, ''-l''] = ([Call_List, Call_Finish], None) \<and>
    Initialize_options b [nachos, ''-l'', w] = Inr (default_all_options\<lparr>rely := Atof w\<rparr>) \<and>
    Initialize_options b [nachos, ''-n'', ''0.5''] = Inr default_all_options"
proof -
  have "Initialize_loop b 0 [] opt = Inr opt" for opt by (subst Initialize_loop.simps) simp
  moreover have "main_commands b 0 [] = ([Call_Finish], None)" by (subst main_commands.simps) simp
  ultimately show ?thesis using assms
    by (simp add: Initialize_options_def main_calls_def main_commands.simps [of b 1] Initialize_loop.simps [of b 1]
        Initialize_loop.simps [of b 2] Initialize_arg_def main_command_def user_command_def filesys_command_def
        network_command_def assertE_def Let_def)
qed

theorem list_option_clash_witness:
  "Initialize_options (user_build\<lparr>NETWORK := True\<rparr>) [''nachos'', ''-l''] = Inl (AssertionFailed ''system.cc'' 121)"
proof -
  have "FILESYS (user_build\<lparr>NETWORK := True\<rparr>)" "NETWORK (user_build\<lparr>NETWORK := True\<rparr>)"
    "\<not> THREADS (user_build\<lparr>NETWORK := True\<rparr>)" by (simp_all add: user_build_def)
  from list_option_clash [OF this, of "''nachos''" "''0.5''"] show ?thesis by blast
qed

section \<open>Objects\<close>

text \<open>
  \<open>Cleanup\<close> deletes every object that \<open>Initialize\<close> made, once, except the statistics and the main
  thread, which are left. What is deleted goes in the reverse order of its creation, apart from the
  simulated machine: the file system before the disk under it, and the interrupts last.
\<close>

theorem cleanup_deletes_objects:
  "case Cleanup_objects b (Initialize_objects b opt) of (dead, live) \<Rightarrow>
     live = [Statistics, MainThread] \<and>
     mset (dead @ live) = mset (Initialize_objects b opt) \<and>
     filter (\<lambda>g. \<not> is_object C_Machine g) dead =
       filter (\<lambda>g. \<not> is_object C_Machine g \<and> g \<notin> set live) (rev (Initialize_objects b opt))"
  by (simp add: Cleanup_objects_def Cleanup_deletes_def Initialize_objects_def Let_def)

end
