(* ===== verification/UserProgram.thy ===== *)
theory UserProgram
  imports StepPreserve
begin

text \<open>
  The thread system as built with \<open>USER_PROGRAM\<close>: the user registers and the address space of a
  thread, \<open>SaveUserState\<close> and \<open>RestoreUserState\<close> of \<open>thread.cc\<close>, and the branches of
  \<open>Scheduler::Run\<close>. \<open>machine.h\<close> and \<open>addrspace.h\<close> are not in the repository; \<open>'u\<close> is the state of
  the simulated machine and of the address spaces, and \<open>umachine\<close> what the kernel calls there.
\<close>

section \<open>State\<close>

record 'u umachine =
  NumTotalRegs :: nat
  ReadRegister :: "nat \<Rightarrow> 'u \<Rightarrow> word32"
  WriteRegister :: "nat \<Rightarrow> word32 \<Rightarrow> 'u \<Rightarrow> 'u"
  SaveState :: "ptr \<Rightarrow> 'u \<Rightarrow> 'u"
  RestoreState :: "ptr \<Rightarrow> 'u \<Rightarrow> 'u"

text \<open>The additional fields of every thread, and the machine. Registers never saved are \<open>None\<close>.\<close>

record 'u user =
  userRegisters :: "ptr \<Rightarrow> nat \<Rightarrow> word32 option"
  space :: "ptr \<Rightarrow> ptr"
  mach :: 'u

section \<open>Operations\<close>

text \<open>The constructor leaves \<open>userRegisters\<close> alone.\<close>

definition new_Thread_user :: "string \<Rightarrow> 'm kernel \<times> 'u user \<Rightarrow> ptr \<times> 'm kernel \<times> 'u user" where
  "new_Thread_user threadName s =
     (let (k, u) = s; (t, k) = new_Thread threadName k
      in (t, k, u\<lparr>userRegisters := (userRegisters u)(t := Map.empty), space := (space u)(t := NULL)\<rparr>))"

definition Thread_SaveUserState :: "'u umachine \<Rightarrow> ptr \<Rightarrow> 'u user \<Rightarrow> 'u user" where
  "Thread_SaveUserState um this u =
     fold (\<lambda>i u. u\<lparr>userRegisters := (userRegisters u)
              (this := (userRegisters u this)(i \<mapsto> ReadRegister um i (mach u)))\<rparr>)
       [0..<NumTotalRegs um] u"

definition Thread_RestoreUserState :: "'u umachine \<Rightarrow> ptr \<Rightarrow> 'u user \<Rightarrow> 'u user result" where
  "Thread_RestoreUserState um this u =
     fold (\<lambda>i r. bindE r (\<lambda>u. bindE (deref (userRegisters u this) i) (\<lambda>v.
              Inr (u\<lparr>mach := WriteRegister um i v (mach u)\<rparr>))))
       [0..<NumTotalRegs um] (Inr u)"

definition Scheduler_Run_user ::
    "'m platform \<Rightarrow> 'u umachine \<Rightarrow> ptr \<Rightarrow> 'm kernel \<times> 'u user \<Rightarrow> ('m kernel \<times> 'u user) result" where
  "Scheduler_Run_user pf um nextThread s =
     (let (k, u) = s
      in bindE (deref (threads k) (currentThread k)) (\<lambda>_.
         let u = (if space u (currentThread k) \<noteq> NULL then
               let u = Thread_SaveUserState um (currentThread k) u
               in u\<lparr>mach := SaveState um (space u (currentThread k)) (mach u)\<rparr>
             else u)
         in bindE (Scheduler_Run pf nextThread k) (\<lambda>k. Inr (k, u))))"

definition Scheduler_Run_resume_user ::
    "'u umachine \<Rightarrow> 'm kernel \<times> 'u user \<Rightarrow> ('m kernel \<times> 'u user) result" where
  "Scheduler_Run_resume_user um s =
     (let (k, u) = s
      in bindE (Scheduler_Run_resume k) (\<lambda>k.
         if space u (currentThread k) \<noteq> NULL then
           bindE (Thread_RestoreUserState um (currentThread k) u) (\<lambda>u.
           Inr (k, u\<lparr>mach := RestoreState um (space u (currentThread k)) (mach u)\<rparr>))
         else Inr (k, u)))"

text \<open>\<open>Yield\<close> and the loop of \<open>Sleep\<close>, which call \<open>Run\<close>; and \<open>Fork\<close> of a new thread.\<close>

definition Thread_Yield_user ::
    "'m platform \<Rightarrow> 'u umachine \<Rightarrow> ptr \<Rightarrow> 'm kernel \<times> 'u user \<Rightarrow> ('m kernel \<times> 'u user) result" where
  "Thread_Yield_user pf um this s =
     (let (k, u) = s; (oldLevel, k) = set_level pf IntOff k
      in bindE (assertE ''thread.cc'' 180 (this = currentThread k)) (\<lambda>_.
         bindE (Scheduler_FindNextToRun k) (\<lambda>(nextThread, k).
         if nextThread \<noteq> NULL then
           bindE (Scheduler_ReadyToRun this k) (\<lambda>k.
           Scheduler_Run_user pf um nextThread (push this (YieldF oldLevel) k, u))
         else Inr (snd (set_level pf oldLevel k), u))))"

definition Sleep_loop_user ::
    "'m platform \<Rightarrow> 'u umachine \<Rightarrow> 'm kernel \<times> 'u user \<Rightarrow> ('m kernel \<times> 'u user) result" where
  "Sleep_loop_user pf um s =
     (let (k, u) = s
      in bindE (Scheduler_FindNextToRun k) (\<lambda>(nextThread, k).
         if nextThread = NULL then
           (case Idle pf (interrupt k) of
              None \<Rightarrow> Inl Halted
            | Some (ss, m) \<Rightarrow>
                bindE (run_handlers pf ss (k\<lparr>interrupt := m\<rparr>)) (\<lambda>k.
                Inr (push (currentThread k) SleepF k, u)))
         else Scheduler_Run_user pf um nextThread (k, u)))"

definition ForkNew_user ::
    "'m platform \<Rightarrow> string \<Rightarrow> word32 \<Rightarrow> word32 \<Rightarrow> 'm kernel \<times> 'u user \<Rightarrow> ('m kernel \<times> 'u user) result" where
  "ForkNew_user pf nm func arg s =
     (let (t, k, u) = new_Thread_user nm s in bindE (Thread_Fork pf t func arg k) (\<lambda>k. Inr (k, u)))"

section \<open>Steps\<close>

definition step_user ::
    "'m platform \<Rightarrow> 'u umachine \<Rightarrow> 'm kernel \<times> 'u user \<Rightarrow> ('m kernel \<times> 'u user) result" where
  "step_user pf um s =
     (let (k, u) = s; c = currentThread k
      in case frames k c of
           SleepF # fs \<Rightarrow> Sleep_loop_user pf um (pop k, u)
         | RunF # fs \<Rightarrow> Scheduler_Run_resume_user um (pop k, u)
         | CodeF (CurrentYield # ss) # fs \<Rightarrow> Thread_Yield_user pf um c (push c (CodeF ss) (pop k), u)
         | CodeF (ForkNew nm func arg # ss) # fs \<Rightarrow> ForkNew_user pf nm func arg (push c (CodeF ss) (pop k), u)
         | _ \<Rightarrow> bindE (step pf k) (\<lambda>k. Inr (k, u)))"

text \<open>
  The system: a thread that is not in the kernel may run user code, which changes the machine, and
  may give itself an address space.
\<close>

inductive user_sys_step ::
    "'m platform \<Rightarrow> 'u umachine \<Rightarrow> 'm kernel \<times> 'u user \<Rightarrow> 'm kernel \<times> 'u user \<Rightarrow> bool" for pf um where
  user_thread: "step_user pf um s = Inr s' \<Longrightarrow> user_sys_step pf um s s'"
| user_code: "\<not> in_kernel (frames k (currentThread k)) \<Longrightarrow> 
    user_sys_step pf um (k, u) (k, u\<lparr>mach := m, space := (space u)(currentThread k := p)\<rparr>)"
| user_time_slice: "getLevel pf (interrupt k) = IntOn \<Longrightarrow>
    Thread_Yield_user pf um (currentThread k) (k, u) = Inr s' \<Longrightarrow> user_sys_step pf um (k, u) s'"
| user_device: "getLevel pf (interrupt k) = IntOn \<Longrightarrow>
    Semaphore_V pf s k = Inr k' \<Longrightarrow> user_sys_step pf um (k, u) (k', u)"

inductive_cases user_sys_stepE [consumes 1, case_names user_thread user_code user_time_slice user_device]:
  "user_sys_step pf um (k, u) (k', u')"

end
