(* ===== verification/UserState.thy ===== *)
theory UserState
  imports UserProgram KernelRefine
begin

text \<open>
  The build with \<open>USER_PROGRAM\<close> runs the same thread system: each of its steps is a step of the
  kernel. While a thread waits to be resumed nothing touches its frames, its saved registers or its
  address space.
\<close>

section \<open>The frames of the other threads\<close>

lemma set_level_frames [simp]:
  "frames (snd (set_level pf l k)) = frames k" "currentThread (snd (set_level pf l k)) = currentThread k"
  "threads (snd (set_level pf l k)) = threads k" "heap (snd (set_level pf l k)) = heap k"
  by (simp_all add: set_level_def case_prod_unfold Let_def)

lemma setStatus_frames:
  "setStatus t st k = Inr k' \<Longrightarrow> frames k' = frames k \<and> currentThread k' = currentThread k"
  by (auto simp: setStatus_def bindE_eq_Inr)

lemma ReadyToRun_frames:
  "Scheduler_ReadyToRun t k = Inr k' \<Longrightarrow> frames k' = frames k \<and> currentThread k' = currentThread k"
  by (auto simp: Scheduler_ReadyToRun_def bindE_eq_Inr dest!: setStatus_frames)

lemma FindNextToRun_frames:
  "Scheduler_FindNextToRun k = Inr (t, k') \<Longrightarrow> frames k' = frames k \<and> currentThread k' = currentThread k"
  by (auto simp: Scheduler_FindNextToRun_def bindE_eq_Inr)

lemma V_frames:
  "Semaphore_V pf s k = Inr k' \<Longrightarrow> frames k' = frames k \<and> currentThread k' = currentThread k"
  by (auto simp: Semaphore_V_def case_prod_unfold Let_def bindE_eq_Inr log_event_def
      dest!: ReadyToRun_frames split: if_splits)

lemma Release_frames:
  "Lock_Release pf l k = Inr k' \<Longrightarrow> frames k' = frames k \<and> currentThread k' = currentThread k"
  by (auto simp: Lock_Release_def case_prod_unfold Let_def bindE_eq_Inr log_event_def
      dest!: ReadyToRun_frames split: if_splits)

lemma handlers_frames:
  "run_handlers pf ss k = Inr k' \<Longrightarrow> frames k' = frames k \<and> currentThread k' = currentThread k"
  by (induction ss arbitrary: k) (auto simp: bindE_eq_Inr dest: V_frames)

lemma Run_frames:
  "Scheduler_Run pf n k = Inr k' \<Longrightarrow> currentThread k' = n \<and>
    frames k' = (frames k)(currentThread k := RunF # frames k (currentThread k))"
  by (auto simp: Scheduler_Run_def Let_def bindE_eq_Inr SWITCH_def push_def dest!: setStatus_frames)

lemma Sleep_frames:
  "Thread_Sleep pf t k = Inr k' \<Longrightarrow> frames k' = (frames k)(t := SleepF # frames k t)"
  by (auto simp: Thread_Sleep_def bindE_eq_Inr assertE_def push_def dest!: setStatus_frames split: if_splits)

lemma Finish_frames:
  "Thread_Finish pf t k = Inr k' \<Longrightarrow> frames k' = (frames k)(t := SleepF # frames k t)"
  by (auto simp: Thread_Finish_def Let_def bindE_eq_Inr dest!: Sleep_frames)

lemma blocking_frames:
  "Semaphore_P_loop pf s lev k = Inr k' \<Longrightarrow> c \<noteq> currentThread k \<Longrightarrow> frames k' c = frames k c"
  "Lock_Acquire_loop pf l lev k = Inr k' \<Longrightarrow> c \<noteq> currentThread k \<Longrightarrow> frames k' c = frames k c"
  by (auto simp: Semaphore_P_loop_def Lock_Acquire_loop_def bindE_eq_Inr Let_def log_event_def push_def
      dest!: Sleep_frames split: if_splits)

lemma Yield_frames:
  "Thread_Yield pf t k = Inr k' \<Longrightarrow> c \<noteq> currentThread k \<Longrightarrow> frames k' c = frames k c"
  by (auto simp: Thread_Yield_def case_prod_unfold Let_def bindE_eq_Inr assertE_def push_def
      dest!: ReadyToRun_frames FindNextToRun_frames Run_frames split: if_splits)

lemma Sleep_loop_frames:
  "Sleep_loop pf k = Inr k' \<Longrightarrow> c \<noteq> currentThread k \<Longrightarrow> frames k' c = frames k c"
  by (auto simp: Sleep_loop_def bindE_eq_Inr push_def
      dest!: FindNextToRun_frames Run_frames handlers_frames split: if_splits option.splits)

lemma resume_frames:
  "Scheduler_Run_resume k = Inr k' \<Longrightarrow> frames k' c = frames k c \<or> threads k' c = None \<and> frames k' c = []"
  by (auto simp: Scheduler_Run_resume_def delete_Thread_def bindE_eq_Inr split: if_splits)

lemma resume_current:
  "Scheduler_Run_resume k = Inr k' \<Longrightarrow> threads k' (currentThread k) = threads k (currentThread k)"
  by (auto simp: Scheduler_Run_resume_def delete_Thread_def assertE_def bindE_eq_Inr split: if_splits)

lemma Fork_frames:
  "Thread_Fork pf t func arg k = Inr k' \<Longrightarrow> frames k' = (frames k)(t := [RootF])"
  by (auto simp: Thread_Fork_def Thread_StackAllocate_def case_prod_unfold Let_def bindE_eq_Inr
      dest!: ReadyToRun_frames)

lemma stmt_frames:
  assumes "exec_stmt pf s k = Inr k'" and "c \<noteq> currentThread k"
  shows "frames k' c = frames k c \<or> c = fresh (heap k) \<and> frames k' c = [RootF]"
proof (cases s)
  case (ForkNew nm func arg)
  with assms(1) show ?thesis
    by (auto simp: new_Thread_def alloc_def dest!: Fork_frames split: if_splits)
next
  case (SemP sm)
  then have "Semaphore_P_loop pf sm (fst (set_level pf IntOff k)) (snd (set_level pf IntOff k)) = Inr k'"
    using assms(1) by (simp add: Semaphore_P_def case_prod_unfold Let_def)
  from blocking_frames(1) [OF this] assms(2) show ?thesis by simp
next
  case (Acquire r)
  then have "Lock_Acquire_loop pf (lock_ptr r k) (fst (set_level pf IntOff k)) (snd (set_level pf IntOff k)) = Inr k'"
    using assms(1) by (simp add: Lock_Acquire_def case_prod_unfold Let_def)
  from blocking_frames(2) [OF this] assms(2) show ?thesis by simp
next
  case (NewLocktest1 nm)
  with assms(1) show ?thesis by (auto simp: new_Lock_def alloc_def case_prod_unfold Let_def)
next
  case CurrentYield
  with assms Yield_frames show ?thesis by fastforce
next
  case CurrentFinish
  with assms Finish_frames show ?thesis by fastforce
next
  case (SemV sm)
  with assms V_frames show ?thesis by fastforce
next
  case (Release r)
  with assms Release_frames show ?thesis by fastforce
qed (use assms(1,2) in \<open>auto simp: bindE_eq_Inr printf_def push_def log_event_def Condition_Wait_def
    Condition_Signal_def Condition_Broadcast_def SynchList_wait_def SynchList_take_def assertE_def
    split: if_splits\<close>)

lemma step_frames:
  assumes step: "step pf k = Inr k'" and c: "c \<noteq> currentThread k"
  shows "frames k' c = frames k c \<or> c = fresh (heap k) \<and> frames k' c = [RootF] \<or>
    threads k' c = None \<and> frames k' c = []"
proof -
  obtain f fs where f: "frames k (currentThread k) = f # fs" "exec_frame pf f (pop k) = Inr k'"
    using step by (auto simp: step_def split: list.splits)
  have p: "currentThread (pop k) = currentThread k" "frames (pop k) c = frames k c" "heap (pop k) = heap k"
    using c by (simp_all add: pop_def)
  show ?thesis
  proof (cases f)
    case (CodeF ss)
    show ?thesis
    proof (cases ss)
      case Nil
      then show ?thesis using f(2) CodeF p by simp
    next
      case (Cons s ss')
      then have "exec_stmt pf s (push (currentThread k) (CodeF ss') (pop k)) = Inr k'"
        using f(2) CodeF p by simp
      from stmt_frames [OF this, of c] c p show ?thesis by (auto simp: push_def)
    qed
  next
    case (CallF a arg)
    with f(2) c p show ?thesis
      by (auto simp: call_addr_def push_def dest!: Finish_frames split: if_splits)
  next
    case RunF
    with f(2) resume_frames [of "pop k" k' c] p show ?thesis by auto
  next
    case SleepF
    with f(2) Sleep_loop_frames [of pf "pop k" k' c] c p show ?thesis by simp
  next
    case (SemPF s l)
    with f(2) blocking_frames(1) [of pf s l "pop k" k' c] c p show ?thesis by simp
  next
    case (AcquireF s l)
    with f(2) blocking_frames(2) [of pf s l "pop k" k' c] c p show ?thesis by simp
  next
    case (YieldF l)
    with f(2) p show ?thesis by auto
  qed (use f(2) c p in \<open>auto simp: ThreadRoot_def bindE_eq_Inr push_def split: if_splits\<close>)
qed

text \<open>Only \<open>Run\<close> leaves the frame \<open>RunF\<close> on the thread that makes the step.\<close>

definition settled :: "frame list \<Rightarrow> bool" where
  "settled fs \<longleftrightarrow> user_frames fs \<or> asleep fs"

lemma settled_simps [simp]:
  "settled (SleepF # fs)" "user_frames fs \<Longrightarrow> settled fs" "\<not> settled (RunF # fs)"
  by (simp_all add: settled_def)

lemma blocking_settled:
  assumes "user_frames (frames k (currentThread k))"
  shows "Semaphore_P_loop pf s lev k = Inr k' \<Longrightarrow> settled (frames k' (currentThread k))"
    and "Lock_Acquire_loop pf l lev k = Inr k' \<Longrightarrow> settled (frames k' (currentThread k))"
  using assms
  by (auto simp: Semaphore_P_loop_def Lock_Acquire_loop_def bindE_eq_Inr Let_def log_event_def push_def
      dest!: Sleep_frames split: if_splits)

lemma stmt_settled:
  assumes "exec_stmt pf s k = Inr k'" and user: "user_frames (frames k (currentThread k))" and s: "s \<noteq> CurrentYield"
    and "wf k" and "threads k (currentThread k) \<noteq> None"
  shows "settled (frames k' (currentThread k))"
proof (cases s)
  case (ForkNew nm func arg)
  have "currentThread k \<noteq> fresh (heap k)" using wfD(5) [OF assms(4,5)] by simp
  with ForkNew assms(1) user show ?thesis
    by (auto simp: new_Thread_def alloc_def dest!: Fork_frames)
next
  case (SemP sm)
  then have "Semaphore_P_loop pf sm (fst (set_level pf IntOff k)) (snd (set_level pf IntOff k)) = Inr k'"
    using assms(1) by (simp add: Semaphore_P_def case_prod_unfold Let_def)
  from blocking_settled(1) [OF _ this] user show ?thesis by simp
next
  case (Acquire r)
  then have "Lock_Acquire_loop pf (lock_ptr r k) (fst (set_level pf IntOff k)) (snd (set_level pf IntOff k)) = Inr k'"
    using assms(1) by (simp add: Lock_Acquire_def case_prod_unfold Let_def)
  from blocking_settled(2) [OF _ this] user show ?thesis by simp
next
  case (NewLocktest1 nm)
  with assms(1) user show ?thesis by (auto simp: new_Lock_def alloc_def case_prod_unfold Let_def)
next
  case CurrentFinish
  with assms(1) Finish_frames [of pf "currentThread k" k k'] show ?thesis by simp
next
  case (SemV sm)
  with assms(1) user V_frames [of pf sm k k'] show ?thesis by simp
next
  case (Release r)
  with assms(1) user Release_frames [of pf "lock_ptr r k" k k'] show ?thesis by simp
qed (use assms(1) user s in \<open>auto simp: bindE_eq_Inr printf_def push_def log_event_def Condition_Wait_def
    Condition_Signal_def Condition_Broadcast_def SynchList_wait_def SynchList_take_def assertE_def
    split: if_splits\<close>)

lemma step_settled:
  assumes step: "step pf k = Inr k'" and k: "kinv pf k"
    and f: "frames k (currentThread k) = f # fs" "f \<noteq> RunF" "f \<noteq> SleepF" "\<And>ss. f \<noteq> CodeF (CurrentYield # ss)"
  shows "settled (frames k' (currentThread k))"
proof -
  have wf: "wf k" and inv: "inv pf (queue k) (threads k) (frames k) (currentThread k)
      (threadToBeDestroyed k) (getLevel pf (interrupt k))" using k by (simp_all add: kinv_def)
  have c: "threads k (currentThread k) \<noteq> None" using invD(6) [OF inv] by auto
  have user: "user_frames fs" using inv_pop(4) [OF inv f(1,3,2)] .
  have ex: "exec_frame pf f (pop k) = Inr k'" using step f(1) by (simp add: step_def)
  have p: "currentThread (pop k) = currentThread k" "frames (pop k) (currentThread k) = fs" "wf (pop k)"
    using f(1) wf by (simp_all add: pop_def)
  show ?thesis
  proof (cases f)
    case (CodeF ss)
    show ?thesis
    proof (cases ss)
      case Nil
      then show ?thesis using ex CodeF p user by simp
    next
      case (Cons s ss')
      then have "exec_stmt pf s (push (currentThread k) (CodeF ss') (pop k)) = Inr k'"
        using ex CodeF p by simp
      moreover have "s \<noteq> CurrentYield" using f(4) [of ss'] CodeF Cons by auto
      ultimately show ?thesis
        using stmt_settled [of pf s "push (currentThread k) (CodeF ss') (pop k)" k'] c p user
        by (simp add: push_def pop_def)
    qed
  next
    case (CallF a arg)
    have "Thread_Finish pf (currentThread k) (pop k) = Inr k' \<Longrightarrow> settled (frames k' (currentThread k))"
      using Finish_frames [of pf "currentThread k" "pop k" k'] by simp
    with ex CallF p user show ?thesis
      by (auto simp: call_addr_def push_def split: if_splits)
  next
    case (SemPF s l)
    with ex blocking_settled(1) [of "pop k" pf s l k'] p user show ?thesis by simp
  next
    case (AcquireF s l)
    with ex blocking_settled(2) [of "pop k" pf s l k'] p user show ?thesis by simp
  next
    case (YieldF l)
    with ex p user show ?thesis by auto
  qed (use ex p user f in \<open>auto simp: ThreadRoot_def bindE_eq_Inr push_def split: if_splits\<close>)
qed

section \<open>Saving and restoring\<close>

lemma SaveUserState_spec:
  "Thread_SaveUserState um t u = u\<lparr>userRegisters := (userRegisters u)(t :=
     (\<lambda>i. if i < NumTotalRegs um then Some (ReadRegister um i (mach u)) else userRegisters u t i))\<rparr>"
proof -
  have "fold (\<lambda>i u. u\<lparr>userRegisters := (userRegisters u)
          (t := (userRegisters u t)(i \<mapsto> ReadRegister um i (mach u)))\<rparr>) [0..<n] u =
      u\<lparr>userRegisters := (userRegisters u)(t :=
        (\<lambda>i. if i < n then Some (ReadRegister um i (mach u)) else userRegisters u t i))\<rparr>" for n
    by (induction n) (auto simp: fun_eq_iff intro!: user.fold_congs)
  then show ?thesis by (simp add: Thread_SaveUserState_def)
qed

text \<open>
  What the kernel relies on from the simulated machine, as documented in \<open>machine.h\<close>: a register
  holds what was last written to it, and restoring an address space sets no register.
\<close>

definition machine_ok :: "'u umachine \<Rightarrow> bool" where
  "machine_ok um \<longleftrightarrow>
     (\<forall>i < NumTotalRegs um. \<forall>j < NumTotalRegs um. \<forall>v m.
        ReadRegister um i (WriteRegister um j v m) = (if i = j then v else ReadRegister um i m)) \<and>
     (\<forall>i < NumTotalRegs um. \<forall>p m. ReadRegister um i (RestoreState um p m) = ReadRegister um i m)"

lemma RestoreUserState_spec:
  assumes um: "machine_ok um" and r: "\<And>i. i < NumTotalRegs um \<Longrightarrow> userRegisters u t i = Some (r i)"
  shows "\<exists>m. Thread_RestoreUserState um t u = Inr (u\<lparr>mach := m\<rparr>) \<and>
    (\<forall>i < NumTotalRegs um. ReadRegister um i m = r i)"
proof -
  have "\<exists>m. fold (\<lambda>i r. bindE r (\<lambda>u. bindE (deref (userRegisters u t) i) (\<lambda>v.
            Inr (u\<lparr>mach := WriteRegister um i v (mach u)\<rparr>)))) [0..<n] (Inr u) = Inr (u\<lparr>mach := m\<rparr>) \<and>
      (\<forall>i < n. ReadRegister um i m = r i)" if "n \<le> NumTotalRegs um" for n
    using that
  proof (induction n)
    case 0
    show ?case by (intro exI [of _ "mach u"]) simp
  next
    case (Suc n)
    then obtain m where m: "fold (\<lambda>i r. bindE r (\<lambda>u. bindE (deref (userRegisters u t) i) (\<lambda>v.
            Inr (u\<lparr>mach := WriteRegister um i v (mach u)\<rparr>)))) [0..<n] (Inr u) = Inr (u\<lparr>mach := m\<rparr>)"
      "\<forall>i < n. ReadRegister um i m = r i" by auto
    have "ReadRegister um i (WriteRegister um n (r n) m) = r i" if "i < Suc n" for i
      using um m(2) Suc.prems that by (auto simp: machine_ok_def less_Suc_eq)
    with m(1) r [of n] Suc.prems show ?case
      by (intro exI [of _ "WriteRegister um n (r n) m"]) simp
  qed
  from this [of "NumTotalRegs um"] show ?thesis by (simp add: Thread_RestoreUserState_def)
qed

definition saved :: "'u umachine \<Rightarrow> 'u user \<Rightarrow> ptr \<Rightarrow> (nat \<Rightarrow> word32) \<Rightarrow> bool" where
  "saved um u t r \<longleftrightarrow> (\<forall>i < NumTotalRegs um. userRegisters u t i = Some (r i))"

lemma Run_user_effect:
  assumes "Scheduler_Run_user pf um n (k, u) = Inr (k', u')"
  shows "Scheduler_Run pf n k = Inr k'" and "space u' = space u"
    and "t \<noteq> currentThread k \<Longrightarrow> userRegisters u' t = userRegisters u t"
    and "space u (currentThread k) \<noteq> NULL \<Longrightarrow>
      saved um u' (currentThread k) (\<lambda>i. ReadRegister um i (mach u))"
  using assms
  by (auto simp: Scheduler_Run_user_def bindE_eq_Inr Let_def SaveUserState_spec saved_def split: if_splits)

section \<open>The effect of a step\<close>

text \<open>
  What a step from \<open>(k, u)\<close> to \<open>(k', u')\<close> leaves alone, and what is saved when the thread that makes
  it is left in \<open>Run\<close>.
\<close>

definition effect :: "'u umachine \<Rightarrow> 'm kernel \<Rightarrow> 'u user \<Rightarrow> 'm kernel \<Rightarrow> 'u user \<Rightarrow> bool" where
  "effect um k u k' u' \<longleftrightarrow>
     (\<forall>t. t \<noteq> currentThread k \<longrightarrow> threads k t \<noteq> None \<longrightarrow> threads k' t \<noteq> None \<longrightarrow>
        frames k' t = frames k t \<and> userRegisters u' t = userRegisters u t \<and> space u' t = space u t) \<and>
     (\<forall>t fs. t \<noteq> currentThread k \<longrightarrow> frames k' t = RunF # fs \<longrightarrow> frames k t = RunF # fs \<and>
        (space u' t \<noteq> NULL \<longrightarrow> userRegisters u' t = userRegisters u t \<and> space u' t = space u t)) \<and>
     (\<forall>fs. frames k' (currentThread k) = RunF # fs \<longrightarrow> space u' (currentThread k) = space u (currentThread k) \<and>
        (space u (currentThread k) \<noteq> NULL \<longrightarrow>
           saved um u' (currentThread k) (\<lambda>i. ReadRegister um i (mach u))))"

text \<open>A step without \<open>Run\<close>.\<close>

lemma effect_kernel:
  assumes "kinv pf k" and "step pf k = Inr k'" and "frames k (currentThread k) = f # fs"
    and "f \<noteq> RunF" "f \<noteq> SleepF" "\<And>ss. f \<noteq> CodeF (CurrentYield # ss)"
    and u': "\<And>t. userRegisters u' t = userRegisters u t \<and> space u' t = space u t \<or> t = fresh (heap k) \<and> space u' t = NULL"
  shows "effect um k u k' u'"
proof -
  have wf: "wf k" using assms(1) by (simp add: kinv_def)
  have old: "t \<noteq> fresh (heap k)" if "threads k t \<noteq> None" for t using wfD(5) [OF wf that] by simp
  have "frames k' t = frames k t \<and> userRegisters u' t = userRegisters u t \<and> space u' t = space u t"
    if "t \<noteq> currentThread k" "threads k t \<noteq> None" "threads k' t \<noteq> None" for t
    using step_frames [OF assms(2) that(1)] u' [of t] old [of t] that by auto
  moreover have "frames k t = RunF # fs \<and>
      (space u' t \<noteq> NULL \<longrightarrow> userRegisters u' t = userRegisters u t \<and> space u' t = space u t)"
    if "t \<noteq> currentThread k" "frames k' t = RunF # fs" for t fs
    using step_frames [OF assms(2) that(1)] u' [of t] that by auto
  moreover have "frames k' (currentThread k) \<noteq> RunF # fs" for fs
    using step_settled [OF assms(2,1,3-6)] by auto
  ultimately show ?thesis unfolding effect_def by blast
qed

lemma Yield_user_effect:
  assumes "Thread_Yield_user pf um (currentThread k) (k, u) = Inr (k', u')"
    and user: "user_frames (frames k (currentThread k))"
  shows "Thread_Yield pf (currentThread k) k = Inr k' \<and> effect um k u k' u'"
proof -
  let ?c = "currentThread k"
  obtain lev k0 where off: "set_level pf IntOff k = (lev, k0)" by fastforce
  have k0: "frames k0 = frames k" "currentThread k0 = ?c" "threads k0 = threads k"
    using set_level_frames [of pf IntOff k] off by simp_all
  from assms(1) off obtain n k1 where n: "Scheduler_FindNextToRun k0 = Inr (n, k1)"
    and r: "(if n \<noteq> NULL then bindE (Scheduler_ReadyToRun ?c k1) (\<lambda>k.
        Scheduler_Run_user pf um n (push ?c (YieldF lev) k, u))
      else Inr (snd (set_level pf lev k1), u)) = Inr (k', u')"
    using k0 by (auto simp: Thread_Yield_user_def bindE_eq_Inr)
  note n' = FindNextToRun_frames [OF n]
  show ?thesis
  proof (cases "n = NULL")
    case True
    with r n n' user off k0 show ?thesis
      by (auto simp: Thread_Yield_def effect_def)
  next
    case False
    with r obtain k2 where k2: "Scheduler_ReadyToRun ?c k1 = Inr k2"
      "Scheduler_Run_user pf um n (push ?c (YieldF lev) k2, u) = Inr (k', u')"
      by (auto simp: bindE_eq_Inr)
    note e = Run_user_effect [OF k2(2)] and c2 = ReadyToRun_frames [OF k2(1)]
    note fr = Run_frames [OF e(1)]
    have "Thread_Yield pf ?c k = Inr k'"
      using False n k2(1) e(1) off k0 by (simp add: Thread_Yield_def)
    moreover have "effect um k u k' u'"
      using e(2-4) fr c2 n' k0 by (simp add: effect_def push_def)
    ultimately show ?thesis ..
  qed
qed

lemma Sleep_user_effect:
  assumes "Sleep_loop_user pf um (k, u) = Inr (k', u')"
  shows "Sleep_loop pf k = Inr k' \<and> effect um k u k' u'"
proof -
  from assms obtain n k1 where n: "Scheduler_FindNextToRun k = Inr (n, k1)"
    and r: "(if n = NULL then
        (case Idle pf (interrupt k1) of None \<Rightarrow> Inl Halted
         | Some (ss, m) \<Rightarrow> bindE (run_handlers pf ss (k1\<lparr>interrupt := m\<rparr>)) (\<lambda>k.
             Inr (push (currentThread k) SleepF k, u)))
      else Scheduler_Run_user pf um n (k1, u)) = Inr (k', u')"
    by (auto simp: Sleep_loop_user_def bindE_eq_Inr)
  note n' = FindNextToRun_frames [OF n]
  show ?thesis
  proof (cases "n = NULL")
    case True
    with r obtain ss m k2 where k2: "Idle pf (interrupt k1) = Some (ss, m)"
      "run_handlers pf ss (k1\<lparr>interrupt := m\<rparr>) = Inr k2" "k' = push (currentThread k2) SleepF k2" "u' = u"
      by (auto simp: bindE_eq_Inr split: option.splits)
    from handlers_frames [OF k2(2)] k2 True n n' show ?thesis
      by (auto simp: Sleep_loop_def effect_def push_def)
  next
    case False
    with r have run: "Scheduler_Run_user pf um n (k1, u) = Inr (k', u')" by simp
    note e = Run_user_effect [OF run]
    from Run_frames [OF e(1)] e n' n False show ?thesis
      by (simp add: Sleep_loop_def effect_def)
  qed
qed

lemma effect_current [simp]:
  "effect um (k\<lparr>frames := (frames k)(currentThread k := fs)\<rparr>) u k' u' = effect um k u k' u'"
  by (auto simp: effect_def)

lemma resumable_not_run: "\<not> resumable (RunF # fs)"
  by simp

lemma RestoreUserState_frame:
  "Thread_RestoreUserState um t u = Inr u1 \<Longrightarrow> \<exists>m. u1 = u\<lparr>mach := m\<rparr>"
proof -
  have "fold (\<lambda>i r. bindE r (\<lambda>u. bindE (deref (userRegisters u t) i) (\<lambda>v.
          Inr (u\<lparr>mach := WriteRegister um i v (mach u)\<rparr>)))) is (Inr u) = Inr u1 \<Longrightarrow>
      \<exists>m. u1 = u\<lparr>mach := m\<rparr>" for "is"
  proof (induction "is" arbitrary: u1 rule: rev_induct)
    case Nil
    then show ?case by (intro exI [of _ "mach u"]) simp
  next
    case (snoc i "is")
    then show ?case by (fastforce simp: bindE_eq_Inr)
  qed
  then show "Thread_RestoreUserState um t u = Inr u1 \<Longrightarrow> \<exists>m. u1 = u\<lparr>mach := m\<rparr>"
    by (simp add: Thread_RestoreUserState_def)
qed

lemma resume_user_effect:
  assumes "Scheduler_Run_resume_user um (k, u) = Inr (k', u')" and "resumable (frames k (currentThread k))"
    and c: "threads k (currentThread k) \<noteq> None"
  shows "Scheduler_Run_resume k = Inr k' \<and> effect um k u k' u'"
proof -
  obtain k1 where k1: "Scheduler_Run_resume k = Inr k1" and u1: "k' = k1" "space u' = space u"
    "userRegisters u' = userRegisters u"
    using assms(1)
    by (auto simp: Scheduler_Run_resume_user_def Let_def bindE_eq_Inr
        dest!: RestoreUserState_frame split: if_splits)
  have "effect um k u k' u'"
    unfolding effect_def
    using resume_frames [OF k1] resume_current [OF k1] u1 assms(2) c
    by (metis list.distinct(1) resumable_not_run)
  with k1 u1 show ?thesis by simp
qed

lemma step_user_other:
  assumes "frames k (currentThread k) = f # fs" and "f \<noteq> SleepF" and "f \<noteq> RunF"
    and "\<And>ss. f \<noteq> CodeF (CurrentYield # ss)" and "\<And>nm func arg ss. f \<noteq> CodeF (ForkNew nm func arg # ss)"
  shows "step_user pf um (k, u) = bindE (step pf k) (\<lambda>k. Inr (k, u))"
proof (cases f)
  case (CodeF ss)
  show ?thesis
  proof (cases ss)
    case (Cons s ss')
    show ?thesis
    proof (cases s)
      case (ForkNew nm func arg)
      then show ?thesis using assms(5) [of nm func arg ss'] CodeF Cons by simp
    qed (use assms(1) assms(4) [of ss'] CodeF Cons in \<open>simp_all add: step_user_def\<close>)
  qed (use assms CodeF in \<open>simp add: step_user_def\<close>)
qed (use assms in \<open>simp_all add: step_user_def\<close>)

lemma step_user_effect:
  assumes k: "kinv pf k" and step: "step_user pf um (k, u) = Inr (k', u')"
  shows "step pf k = Inr k' \<and> effect um k u k' u'"
proof -
  let ?c = "currentThread k"
  have wf: "wf k" and inv: "inv pf (queue k) (threads k) (frames k) ?c (threadToBeDestroyed k)
      (getLevel pf (interrupt k))" using k by (simp_all add: kinv_def)
  show ?thesis
  proof (cases "frames k ?c")
    case Nil
    then show ?thesis using step by (simp add: step_user_def step_def)
  next
    case (Cons f fs)
    have pop: "pop k = k\<lparr>frames := (frames k)(?c := fs)\<rparr>" using Cons by (simp add: pop_def)
    have ex: "step pf k = exec_frame pf f (pop k)" using Cons by (simp add: step_def)
    consider "f = SleepF" | "f = RunF" | ss where "f = CodeF (CurrentYield # ss)"
      | nm func arg ss where "f = CodeF (ForkNew nm func arg # ss)"
      | "f \<noteq> SleepF" "f \<noteq> RunF" "\<And>ss. f \<noteq> CodeF (CurrentYield # ss)"
        "step_user pf um (k, u) = bindE (step pf k) (\<lambda>k. Inr (k, u))"
      using step_user_other [OF Cons, of pf um u] by blast
    then show ?thesis
    proof cases
      case 1
      with step Cons have "Sleep_loop_user pf um (pop k, u) = Inr (k', u')" by (simp add: step_user_def)
      from Sleep_user_effect [OF this] show ?thesis by (simp add: ex 1 pop)
    next
      case 2
      with step Cons have "Scheduler_Run_resume_user um (pop k, u) = Inr (k', u')" by (simp add: step_user_def)
      moreover have "threads k ?c \<noteq> None" using invD(6) [OF inv] by auto
      ultimately show ?thesis
        using resume_user_effect [of um "pop k" u k' u'] inv_pop(3) [OF inv Cons] 2 by (simp add: ex pop)
    next
      case 3
      let ?k = "push ?c (CodeF ss) (pop k)"
      have "Thread_Yield_user pf um (currentThread ?k) (?k, u) = Inr (k', u')"
        using step Cons 3 by (simp add: step_user_def push_def pop_def Let_def)
      moreover have "user_frames (frames ?k (currentThread ?k))"
        using inv_pop(4) [OF inv Cons] 3 by (simp add: push_def pop)
      ultimately show ?thesis
        using Yield_user_effect [of pf um ?k u k' u'] by (simp add: ex 3 pop push_def)
    next
      case 4
      let ?k = "push ?c (CodeF ss) (pop k)"
      from step Cons 4 have st: "step pf k = Inr k'"
        and u': "u' = u\<lparr>userRegisters := (userRegisters u)(fresh (heap k) := Map.empty),
          space := (space u)(fresh (heap k) := NULL)\<rparr>"
        by (auto simp: step_user_def ForkNew_user_def new_Thread_user_def new_Thread_def alloc_def ex
            bindE_eq_Inr push_def pop_def)
      have "userRegisters u' t = userRegisters u t \<and> space u' t = space u t \<or> t = fresh (heap k) \<and> space u' t = NULL" for t
        by (auto simp: u')
      moreover have "f \<noteq> RunF" "f \<noteq> SleepF" "\<And>ss. f \<noteq> CodeF (CurrentYield # ss)" using 4 by simp_all
      ultimately have "effect um k u k' u'" using effect_kernel [OF k st Cons, of u' u um] by blast
      with st show ?thesis by simp
    next
      case 5
      with step have st: "step pf k = Inr k'" "u' = u" by (auto simp: bindE_eq_Inr)
      moreover have "effect um k u k' u" by (rule effect_kernel [OF k st(1) Cons 5(2,1,3)]) simp
      ultimately show ?thesis by simp
    qed
  qed
qed


text \<open>Every step of the system with user programs is a step of the kernel, or runs user code.\<close>

lemma user_sys_step_effect:
  assumes k: "kinv pf k" and step: "user_sys_step pf um (k, u) (k', u')"
  shows "(k' = k \<or> sys_step pf k k') \<and> effect um k u k' u'"
  using step
proof (cases rule: user_sys_stepE)
  case user_thread
  with step_user_effect [OF k] show ?thesis by (auto intro: thread_step)
next
  case (user_code m p)
  then have "\<nexists>fs. frames k (currentThread k) = RunF # fs" by (auto simp: in_kernel_def)
  with user_code show ?thesis by (auto simp: effect_def)
next
  case user_time_slice
  from user_if_on [OF k user_time_slice(1)] Yield_user_effect [OF user_time_slice(2)] user_time_slice(1)
  show ?thesis by (auto intro: time_slice)
next
  case (user_device s)
  from user_if_on [OF k user_device(2)] have "\<nexists>fs. frames k (currentThread k) = RunF # fs" by auto
  with user_device V_frames [OF user_device(3)] show ?thesis by (auto simp: effect_def intro: device)
qed

end
