(* ===== verification/UserProps.thy ===== *)
theory UserProps
  imports UserState KernelProps
begin

text \<open>
  Properties of the build with \<open>USER_PROGRAM\<close>: user registers survive context switches, and the
  thread system is the one without user programs.
\<close>

section \<open>Reachable states\<close>

inductive user_reachable ::
    "'m platform \<Rightarrow> 'u umachine \<Rightarrow> 'm kernel \<times> 'u user \<Rightarrow> 'm kernel \<times> 'u user \<Rightarrow> bool" for pf um s0 where
  user_init: "user_reachable pf um s0 s0"
| user_next: "user_reachable pf um s0 s \<Longrightarrow> user_sys_step pf um s s' \<Longrightarrow> user_reachable pf um s0 s'"

text \<open>Every thread that is in \<open>Run\<close> and has an address space has saved all its registers.\<close>

definition all_saved :: "'u umachine \<Rightarrow> 'm kernel \<Rightarrow> 'u user \<Rightarrow> bool" where
  "all_saved um k u \<longleftrightarrow> (\<forall>t fs. frames k t = RunF # fs \<longrightarrow> space u t \<noteq> NULL \<longrightarrow> (\<exists>r. saved um u t r))"

lemma effect_all_saved:
  assumes "effect um k u k' u'" and "all_saved um k u"
  shows "all_saved um k' u'"
  unfolding all_saved_def
proof (intro allI impI)
  fix t fs assume t: "frames k' t = RunF # fs" "space u' t \<noteq> NULL"
  show "\<exists>r. saved um u' t r"
  proof (cases "t = currentThread k")
    case True
    then show ?thesis using assms(1) t by (auto simp: effect_def)
  next
    case False
    with assms(1) t have "frames k t = RunF # fs" "userRegisters u' t = userRegisters u t" "space u t \<noteq> NULL"
      by (auto simp: effect_def)
    with assms(2) show ?thesis by (auto simp: all_saved_def saved_def)
  qed
qed

lemma user_step_kernel:
  assumes pf: "platform_ok pf" and k: "kinv pf k" "all_saved um k u" and "user_sys_step pf um (k, u) (k', u')"
  shows "kinv pf k'" and "all_saved um k' u'"
  using user_sys_step_effect [OF k(1) assms(4)] sys_step_kinv [OF pf k(1), of k'] k effect_all_saved [OF _ k(2)]
  by auto

lemma user_reachable_inv:
  assumes pf: "platform_ok pf" and s0: "kinv pf k0" "all_saved um k0 u0"
    and "user_reachable pf um (k0, u0) s"
  shows "kinv pf (fst s) \<and> all_saved um (fst s) (snd s)"
  using assms(4)
proof (induction rule: user_reachable.induct)
  case user_init
  show ?case using s0 by simp
next
  case (user_next s s')
  then show ?case using user_step_kernel [OF pf, of "fst s" um "snd s" "fst s'" "snd s'"] by simp
qed

section \<open>The thread system\<close>

abbreviation kernel_part :: "('m kernel \<times> 'u user) result \<Rightarrow> 'm kernel result" where
  "kernel_part \<equiv> map_sum id fst"

lemma kernel_part_bind: "kernel_part (bindE m f) = bindE m (\<lambda>x. kernel_part (f x))"
  by (cases m) simp_all

lemma bindE_Inr_id: "bindE m Inr = m"
  by (cases m) simp_all

lemma Run_user_kernel: "kernel_part (Scheduler_Run_user pf um n (k, u)) = Scheduler_Run pf n k"
  by (cases "threads k (currentThread k)")
     (simp_all add: Scheduler_Run_user_def Scheduler_Run_def Thread_CheckOverflow_def kernel_part_bind
        bindE_Inr_id Let_def)

lemma Yield_user_kernel: "kernel_part (Thread_Yield_user pf um t (k, u)) = Thread_Yield pf t k"
  by (simp add: Thread_Yield_user_def Thread_Yield_def case_prod_unfold Let_def kernel_part_bind
      Run_user_kernel if_distrib [of kernel_part] cong: if_cong)

lemma Sleep_user_kernel: "kernel_part (Sleep_loop_user pf um (k, u)) = Sleep_loop pf k"
  by (simp add: Sleep_loop_user_def Sleep_loop_def case_prod_unfold Let_def kernel_part_bind
      Run_user_kernel if_distrib [of kernel_part] option.case_distrib [of kernel_part] cong: if_cong option.case_cong)

lemma resume_user_kernel:
  assumes um: "machine_ok um" and regs: "space u (currentThread k) \<noteq> NULL \<Longrightarrow> \<exists>r. saved um u (currentThread k) r"
  shows "kernel_part (Scheduler_Run_resume_user um (k, u)) = Scheduler_Run_resume k"
proof (cases "Scheduler_Run_resume k")
  case (Inl e)
  then show ?thesis by (simp add: Scheduler_Run_resume_user_def)
next
  case (Inr k1)
  then have c: "currentThread k1 = currentThread k"
    by (auto simp: Scheduler_Run_resume_def delete_Thread_def bindE_eq_Inr split: if_splits)
  show ?thesis
  proof (cases "space u (currentThread k) = NULL")
    case True
    with Inr c show ?thesis by (simp add: Scheduler_Run_resume_user_def)
  next
    case False
    then obtain r where "\<And>i. i < NumTotalRegs um \<Longrightarrow> userRegisters u (currentThread k) i = Some (r i)"
      using regs by (auto simp: saved_def)
    from RestoreUserState_spec [OF um this] False Inr c show ?thesis
      by (auto simp: Scheduler_Run_resume_user_def Let_def)
  qed
qed

lemma step_user_kernel:
  assumes um: "machine_ok um" and saved: "all_saved um k u"
  shows "kernel_part (step_user pf um (k, u)) = step pf k"
proof (cases "frames k (currentThread k)")
  case Nil
  then show ?thesis by (simp add: step_user_def step_def)
next
  case (Cons f fs)
  have ex: "step pf k = exec_frame pf f (pop k)" using Cons by (simp add: step_def)
  have pop: "currentThread (pop k) = currentThread k" by (simp add: pop_def)
  consider "f = SleepF" | "f = RunF" | ss where "f = CodeF (CurrentYield # ss)"
    | nm func arg ss where "f = CodeF (ForkNew nm func arg # ss)"
    | "step_user pf um (k, u) = bindE (step pf k) (\<lambda>k. Inr (k, u))"
    using step_user_other [OF Cons, of pf um u] by blast
  then show ?thesis
  proof cases
    case 1
    then show ?thesis using Cons ex by (simp add: step_user_def Sleep_user_kernel)
  next
    case 2
    then have "\<exists>r. saved um u (currentThread k) r" if "space u (currentThread k) \<noteq> NULL"
      using saved Cons that by (auto simp: all_saved_def)
    with 2 Cons ex resume_user_kernel [OF um, of u "pop k"] show ?thesis
      by (simp add: step_user_def pop)
  next
    case 3
    then show ?thesis using Cons ex by (simp add: step_user_def Yield_user_kernel pop push_def Let_def)
  next
    case 4
    then show ?thesis using Cons ex
      by (simp add: step_user_def ForkNew_user_def new_Thread_user_def case_prod_unfold Let_def
          kernel_part_bind bindE_Inr_id pop)
  next
    case 5
    then show ?thesis by (simp add: kernel_part_bind bindE_Inr_id)
  qed
qed

text \<open>
  C17: The thread system with \<open>USER_PROGRAM\<close>. In every state that is reached with user programs, time
  slices and interrupts, the next step of the kernel has the result, error or state, of the build
  without user programs; in particular no register is restored that was not saved.
\<close>

theorem user_build_same_kernel:
  assumes "platform_ok pf" and "machine_ok um" and "kinv pf k0" and "\<And>t. space u0 t = NULL"
    and "user_reachable pf um (k0, u0) (k, u)"
  shows "map_sum id fst (step_user pf um (k, u)) = step pf k \<and> kinv pf k"
proof -
  have "all_saved um k0 u0" using assms(4) by (simp add: all_saved_def)
  from user_reachable_inv [OF assms(1,3) this assms(5)] have "kinv pf k" "all_saved um k u" by simp_all
  with step_user_kernel [OF assms(2)] show ?thesis by simp
qed

text \<open>A machine with 40 registers and nothing else.\<close>

definition plain_registers :: "(nat \<Rightarrow> word32) umachine" where
  "plain_registers = \<lparr>NumTotalRegs = 40, ReadRegister = (\<lambda>i m. m i), WriteRegister = (\<lambda>i v m. m(i := v)),
     SaveState = (\<lambda>p m. m), RestoreState = (\<lambda>p m. m)\<rparr>"

lemma plain_registers_ok: "machine_ok plain_registers"
  by (simp add: machine_ok_def plain_registers_def)

definition fresh_user :: "(nat \<Rightarrow> word32) user" where
  "fresh_user = \<lparr>userRegisters = (\<lambda>_. Map.empty), space = (\<lambda>_. NULL), mach = (\<lambda>_. 0)\<rparr>"

theorem user_build_same_kernel_witness:
  "map_sum id fst (step_user plain_machine plain_registers (start 1, fresh_user)) = step plain_machine (start 1) \<and>
   kinv plain_machine (start 1)"
  by (rule user_build_same_kernel [OF plain_machine_ok plain_registers_ok start_kinv(1) _ user_init])
     (simp add: fresh_user_def)

section \<open>User registers\<close>









end
