(* ===== verification/SpecOrder.thy ===== *)
theory SpecOrder
  imports SpecSync
begin

text \<open>
  What happens to a queue between two states. The interface is \<open>spec_relation\<close>: a reflexive and
  transitive relation that contains the moves of the abstract kernel relates every kernel state to
  those reachable from it. It is interpreted for the queues of semaphores and of locks, whose
  waiters are served first come, first served, and for the items of a synchronized list.
\<close>

section \<open>Relations between a state and its successors\<close>

locale spec_relation =
  fixes R :: "astate \<Rightarrow> astate \<Rightarrow> bool"
  assumes R_refl: "R a a"
    and R_trans: "R a b \<Longrightarrow> R b c \<Longrightarrow> R a c"
    and quiet_R: "quiet a b \<Longrightarrow> R a b"
    and switch_R: "switch a b \<Longrightarrow> R a b"
begin

lemma quiets_R: "quiet\<^sup>*\<^sup>* a b \<Longrightarrow> R a b"
  by (induction rule: rtranclp_induct) (auto intro: R_refl R_trans quiet_R)

lemma moves_R: "moves a b \<Longrightarrow> R a b"
  unfolding moves_def using quiets_R switch_R R_trans by blast

lemma reach_R:
  assumes pf: "platform_ok pf" and k0: "kinv pf k0" and "reachable pf k0 k"
  shows "R (abs_of k0) (abs_of k)"
  using assms(3)
proof (induction rule: reachable.induct)
  case reach_init
  show ?case by (rule R_refl)
next
  case (reach_step k k')
  have "kinv pf k" by (rule reachable_kinv [OF pf reach_step.hyps(1) k0])
  from moves_R [OF sys_step_refines [OF pf this reach_step.hyps(2)]] reach_step.IH
  show ?case by (blast intro: R_trans)
qed

end

section \<open>Waiters\<close>

text \<open>
  Of the queue \<open>q\<close>, extended by newcomers, a prefix was served: at most one waiter for each of the
  \<open>n\<close> wakeups, and one for each while any was left.
\<close>

definition served :: "ptr list \<Rightarrow> nat \<Rightarrow> ptr list \<Rightarrow> bool" where
  "served q n q' \<longleftrightarrow> (\<exists>out new. q @ new = out @ q' \<and> length out \<le> n \<and> min (length q) n \<le> length out)"

lemma served_refl [simp]: "served q 0 q"
  by (simp add: served_def)

lemma served_join [simp]: "served q 0 (q @ [t])"
  unfolding served_def by (intro exI [of _ "[]"] exI [of _ "[t]"]) simp

lemma served_wake [simp]: "served (t # q) (Suc 0) q"
  unfolding served_def by (intro exI [of _ "[t]"] exI [of _ "[]"]) simp

lemma served_none [simp]: "served [] n []"
  unfolding served_def by (intro exI [of _ "[]"]) simp

lemma served_trans:
  assumes "served p m q" and "served q n r"
  shows "served p (m + n) r"
proof -
  obtain out new where pq: "p @ new = out @ q" "length out \<le> m" "min (length p) m \<le> length out"
    using assms(1) by (auto simp: served_def)
  obtain out' new' where qr: "q @ new' = out' @ r" "length out' \<le> n" "min (length q) n \<le> length out'"
    using assms(2) by (auto simp: served_def)
  have "p @ new @ new' = (out @ out') @ r" using pq(1) qr(1) by (metis append.assoc)
  moreover have "length p + length new = length out + length q"
    using arg_cong [OF pq(1), of length] by simp
  ultimately show ?thesis unfolding served_def using pq(2,3) qr(2,3)
    by (intro exI [of _ "out @ out'"] exI [of _ "new @ new'"]) auto
qed

definition Releases :: "ptr \<Rightarrow> event list \<Rightarrow> nat" where
  "Releases l es = length (filter (\<lambda>ev. \<exists>t. ev = EvRelease l t) es)"

lemma Vs_append [simp]: "Vs s (es @ fs) = Vs s es + Vs s fs"
  by (simp add: Vs_def)

lemma Vs_one [simp]: "Vs s [ev] = (if ev = EvV s then 1 else 0)"
  by (simp add: Vs_def)

lemma Releases_simps [simp]:
  "Releases l [] = 0" "Releases l (es @ fs) = Releases l es + Releases l fs"
  "Releases l [ev] = (if \<exists>t. ev = EvRelease l t then 1 else 0)"
  by (simp_all add: Releases_def)

text \<open>A queue between two states, with the number of wakeups logged meanwhile.\<close>

definition serves :: "(event list \<Rightarrow> nat) \<Rightarrow> owner \<Rightarrow> astate \<Rightarrow> astate \<Rightarrow> bool" where
  "serves wakeups ow a b \<longleftrightarrow>
     (\<exists>es. ahist b = ahist a @ es \<and> served (aq a ow) (wakeups es) (aq b ow))"

lemma serves_trans:
  assumes "\<And>es fs. wakeups (es @ fs) = wakeups es + wakeups fs"
    and "serves wakeups ow a b" and "serves wakeups ow b c"
  shows "serves wakeups ow a c"
  using assms served_trans unfolding serves_def by fastforce

lemma serves_sem_quiet: "quiet a b \<Longrightarrow> serves (Vs s) (SemQ s) a b"
  by (induction rule: quiet.induct) (auto simp: serves_def)

lemma serves_lock_quiet: "quiet a b \<Longrightarrow> serves (Releases l) (LockQ l) a b"
  by (induction rule: quiet.induct) (auto simp: serves_def)

lemma serves_switch: "switch a b \<Longrightarrow> wakeups [] = 0 \<Longrightarrow> ow \<noteq> ReadyQ \<Longrightarrow> serves wakeups ow a b"
  by (induction rule: switch.induct) (auto simp: serves_def)

lemma serves_refl: "wakeups [] = 0 \<Longrightarrow> serves wakeups ow a a"
  by (simp add: serves_def)

interpretation sem_waiters: spec_relation "serves (Vs s) (SemQ s)" for s
  by unfold_locales (auto intro: serves_refl serves_trans serves_sem_quiet serves_switch)

interpretation lock_waiters: spec_relation "serves (Releases l) (LockQ l)" for l
  by unfold_locales (auto intro: serves_refl serves_trans serves_lock_quiet serves_switch)

section \<open>Items of a synchronized list\<close>

fun taken :: "ptr \<Rightarrow> event \<Rightarrow> ptr list" where
  "taken sl (EvTake m x) = (if m = sl then [x] else [])"
| "taken sl ev = []"

definition takes :: "ptr \<Rightarrow> event list \<Rightarrow> ptr list" where
  "takes sl es = concat (map (taken sl) es)"

lemma takes_simps [simp]:
  "takes sl [] = []" "takes sl (es @ fs) = takes sl es @ takes sl fs" "takes sl [ev] = taken sl ev"
  by (simp_all add: takes_def)

definition passes_items :: "ptr \<Rightarrow> astate \<Rightarrow> astate \<Rightarrow> bool" where
  "passes_items sl a b \<longleftrightarrow>
     (\<exists>es put. ahist b = ahist a @ es \<and> aq a (SynchQ sl) @ put = takes sl es @ aq b (SynchQ sl))"

lemma passes_items_trans: "passes_items sl a b \<Longrightarrow> passes_items sl b c \<Longrightarrow> passes_items sl a c"
proof -
  assume "passes_items sl a b" "passes_items sl b c"
  then obtain es put fs put' where h: "ahist b = ahist a @ es" "ahist c = ahist b @ fs"
    and q: "aq a (SynchQ sl) @ put = takes sl es @ aq b (SynchQ sl)"
      "aq b (SynchQ sl) @ put' = takes sl fs @ aq c (SynchQ sl)"
    unfolding passes_items_def by blast
  have "ahist c = ahist a @ es @ fs" using h by simp
  moreover have "aq a (SynchQ sl) @ put @ put' = takes sl (es @ fs) @ aq c (SynchQ sl)"
    using q by (metis append.assoc takes_simps(2))
  ultimately show ?thesis unfolding passes_items_def by blast
qed

lemma passes_items_quiet: "quiet a b \<Longrightarrow> passes_items sl a b"
  by (induction rule: quiet.induct) (auto simp: passes_items_def)

lemma passes_items_switch: "switch a b \<Longrightarrow> passes_items sl a b"
  by (induction rule: switch.induct) (auto simp: passes_items_def)

lemma passes_items_refl: "passes_items sl a a"
  by (simp add: passes_items_def)

interpretation list_items: spec_relation "passes_items sl" for sl
  by unfold_locales (fact passes_items_refl passes_items_trans passes_items_quiet passes_items_switch)+

end
