(* ===== verification/CriticalSections.thy ===== *)
theory CriticalSections
  imports KernelProps LockTestRun
begin

text \<open>
  Programs whose threads bracket their critical sections with \<open>Acquire\<close> and \<open>Release\<close> of one lock.
  Whatever the interleaving, a thread is between the two exactly while it is the last one to have
  acquired the lock, so two threads are never in their sections together.
\<close>

section \<open>Bracketed code\<close>

definition is_lock :: "ptr \<Rightarrow> lock_ref \<Rightarrow> bool" where
  "is_lock l r \<longleftrightarrow> r = Locktest1 \<or> r = LockAt l"

text \<open>
  Running \<open>ss\<close> from inside (\<open>True\<close>) or outside of the section ends inside or outside; \<open>None\<close> when the
  code is not bracketed.
\<close>

fun after :: "ptr \<Rightarrow> bool \<Rightarrow> stmt list \<Rightarrow> bool option" where
  "after l b [] = Some b"
| "after l b (Acquire r # ss) =
     (if is_lock l r then if b then None else after l True ss else after l b ss)"
| "after l b (Release r # ss) =
     (if is_lock l r then if b then after l False ss else None else after l b ss)"
| "after l b (CurrentFinish # ss) = (if b then None else after l b ss)"
| "after l b (Printf s # ss) = after l b ss"
| "after l b (CurrentYield # ss) = after l b ss"
| "after l b (ForkNew nm func arg # ss) = after l b ss"
| "after l b (SemP s # ss) = after l b ss"
| "after l b (SemV s # ss) = after l b ss"
| "after l b (s # ss) = None"

fun sect :: "ptr \<Rightarrow> bool \<Rightarrow> frame list \<Rightarrow> bool" where
  "sect l b [] \<longleftrightarrow> \<not> b"
| "sect l b (CodeF ss # fs) \<longleftrightarrow> (case after l b ss of None \<Rightarrow> False | Some b' \<Rightarrow> sect l b' fs)"
| "sect l b (CallF a arg # fs) \<longleftrightarrow> \<not> b \<and> sect l b fs"
| "sect l b (RootF # fs) \<longleftrightarrow> \<not> b \<and> sect l b fs"
| "sect l b (AcquireF m lev # fs) \<longleftrightarrow> (if m = l then \<not> b \<and> sect l True fs else sect l b fs)"
| "sect l b (SemPF s lev # fs) \<longleftrightarrow> sect l b fs"
| "sect l b (RunF # fs) \<longleftrightarrow> sect l b fs"
| "sect l b (YieldF lev # fs) \<longleftrightarrow> sect l b fs"
| "sect l b (SleepF # fs) \<longleftrightarrow> sect l b fs"
| "sect l b (f # fs) \<longleftrightarrow> False"

text \<open>The procedures that can be called leave the section as often as they enter it.\<close>

definition procedures_bracketed :: "'m platform \<Rightarrow> ptr \<Rightarrow> bool" where
  "procedures_bracketed pf l \<longleftrightarrow> (\<forall>a arg. after l False (program pf a arg) = Some False)"

text \<open>
  \<open>h\<close> is the thread that holds the lock. \<open>elsewhere\<close> speaks of all threads but \<open>c\<close>.
\<close>

definition elsewhere :: "ptr \<Rightarrow> ptr option \<Rightarrow> ptr \<Rightarrow> (ptr \<Rightarrow> frame list) \<Rightarrow> (ptr \<Rightarrow> Thread option) \<Rightarrow>
    ptr \<Rightarrow> bool" where
  "elsewhere l h c fr th dst \<longleftrightarrow> (\<forall>t. t \<noteq> c \<longrightarrow> sect l (h = Some t) (fr t)) \<and>
     (\<forall>t. th t = None \<longrightarrow> h \<noteq> Some t) \<and> (dst \<noteq> NULL \<longrightarrow> h \<noteq> Some dst)"

definition bracketed :: "ptr \<Rightarrow> 'm kernel \<Rightarrow> bool" where
  "bracketed l k \<longleftrightarrow> locktest1 k = l \<and> (\<forall>t. sect l (holder l (history k) = Some t) (frames k t)) \<and>
     (\<forall>t. threads k t = None \<longrightarrow> holder l (history k) \<noteq> Some t) \<and>
     (threadToBeDestroyed k \<noteq> NULL \<longrightarrow> holder l (history k) \<noteq> Some (threadToBeDestroyed k))"

lemma bracketed_at:
  "bracketed l k \<longleftrightarrow> locktest1 k = l \<and> sect l (holder l (history k) = Some c) (frames k c) \<and>
     elsewhere l (holder l (history k)) c (frames k) (threads k) (threadToBeDestroyed k)"
proof -
  have all: "(\<forall>t. P t) \<longleftrightarrow> P c \<and> (\<forall>t. t \<noteq> c \<longrightarrow> P t)" for P by metis
  show ?thesis
    unfolding bracketed_def elsewhere_def
    by (subst all [of "\<lambda>t. sect l (holder l (history k) = Some t) (frames k t)"]) blast
qed

lemma elsewhere_fun_upd [simp]:
  "elsewhere l h c (fr(c := us)) th dst = elsewhere l h c fr th dst"
  by (simp add: elsewhere_def)

text \<open>Waking, blocking or making a thread run does not remove it.\<close>

lemma elsewhere_threads:
  "elsewhere l h c fr th dst \<Longrightarrow> elsewhere l h c fr (th(t \<mapsto> T)) dst"
  by (simp add: elsewhere_def)

lemma elsewhere_wakes:
  "wakes ow k k' \<Longrightarrow> elsewhere l h c fr (threads k) dst \<Longrightarrow> elsewhere l h c fr (threads k') dst"
  by (cases "queue k ow") (auto simp: wakes_def elsewhere_threads)

lemma elsewhere_fork:
  "elsewhere l h c fr th dst \<Longrightarrow> th t = None \<Longrightarrow> elsewhere l h c (fr(t := [RootF])) (th(t \<mapsto> T)) dst"
  by (auto simp: elsewhere_def)

lemma elsewhere_take:
  "elsewhere l None c fr th dst \<Longrightarrow> th c \<noteq> None \<Longrightarrow> dst \<noteq> c \<Longrightarrow> elsewhere l (Some c) c fr th dst"
  by (auto simp: elsewhere_def)

lemma elsewhere_free:
  "elsewhere l (Some c) c fr th dst \<Longrightarrow> elsewhere l None c fr th dst"
  by (auto simp: elsewhere_def)

section \<open>Operations\<close>

lemma acquire_loop_bracketed:
  assumes pf: "platform_ok pf" and k: "kinv pf k" "user_frames (frames k c)" "currentThread k = c"
    and off: "getLevel pf (interrupt k) = IntOff"
    and agree: "locks_agree (abs_of k)" and lt: "locktest1 k = l"
    and h: "holder l (history k) = h" and else_: "elsewhere l h c (frames k) (threads k) (threadToBeDestroyed k)"
    and own: "if m = l then h \<noteq> Some c \<and> sect l True (frames k c) else sect l (h = Some c) (frames k c)"
    and step: "Lock_Acquire_loop pf m lev k = Inr k'"
  shows "bracketed l k'"
proof (cases "locks k m")
  case None
  then show ?thesis using step by (simp add: Lock_Acquire_loop_def)
next
  case (Some L)
  have inv: "inv pf (queue k) (threads k) (frames k) c (threadToBeDestroyed k) (getLevel pf (interrupt k))"
    using k by (simp add: kinv_def)
  from inv_user_current [OF inv k(2)] obtain C where C: "threads k c = Some C" "status C = RUNNING" by blast
  show ?thesis
  proof (cases "held L = 0")
    case True
    from Acquire_loop_passes [OF pf k(1) _ Some True, of lev] k step obtain i where
      k': "k' = k\<lparr>locks := (locks k)(m \<mapsto> L\<lparr>held := 1\<rparr>), history := history k @ [EvAcquire m c], interrupt := i\<rparr>"
      by (auto simp: Let_def)
    show ?thesis
    proof (cases "m = l")
      case m: True
      have free: "h = None"
        using agree h Some True m by (auto simp: locks_agree_def abs_of_def abs_fun_apply)
      have "threadToBeDestroyed k \<noteq> c"
        using invD(7) [OF inv] C wf_not_NULL [of k c C] k(1) by (auto simp: kinv_def)
      with else_ free C have "elsewhere l (Some c) c (frames k) (threads k) (threadToBeDestroyed k)"
        by (auto intro: elsewhere_take)
      then show ?thesis using own m lt by (simp add: bracketed_at [of _ _ c] k')
    next
      case False
      then show ?thesis using own else_ lt h by (simp add: bracketed_at [of _ _ c] k')
    qed
  next
    case False
    from Acquire_loop_blocks [OF k(1) _ off Some False, of lev] k step obtain hp C' where
      k': "k' = k\<lparr>heap := hp, frames := (frames k)(c := SleepF # AcquireF m lev # frames k c),
        threads := (threads k)(c \<mapsto> C'\<lparr>status := BLOCKED\<rparr>)\<rparr>"
      by (auto simp: Let_def)
    show ?thesis using own else_ lt h
      by (auto simp: bracketed_at [of _ _ c] k' elsewhere_threads)
  qed
qed

lemma P_loop_bracketed:
  assumes pf: "platform_ok pf" and k: "kinv pf k" "user_frames (frames k c)" "currentThread k = c"
    and off: "getLevel pf (interrupt k) = IntOff" and b: "bracketed l k"
    and step: "Semaphore_P_loop pf s lev k = Inr k'"
  shows "bracketed l k'"
proof (cases "semaphores k s")
  case None
  then show ?thesis using step by (simp add: Semaphore_P_loop_def)
next
  case (Some S)
  show ?thesis
  proof (cases "sem_value S = 0")
    case True
    from P_loop_blocks [OF k(1) _ off Some True, of lev] k step obtain hp C where
      "k' = k\<lparr>heap := hp, frames := (frames k)(c := SleepF # SemPF s lev # frames k c),
        threads := (threads k)(c \<mapsto> C\<lparr>status := BLOCKED\<rparr>)\<rparr>" by (auto simp: Let_def)
    with b show ?thesis by (auto simp: bracketed_at [of _ _ c] elsewhere_threads)
  next
    case False
    from P_loop_passes [OF pf k(1) _ Some False, of lev] k step obtain i where
      "k' = k\<lparr>semaphores := (semaphores k)(s \<mapsto> S\<lparr>sem_value := sem_value S - 1\<rparr>),
        history := history k @ [EvP s c], interrupt := i\<rparr>" by (auto simp: Let_def)
    with b show ?thesis by (simp add: bracketed_at [of _ _ c])
  qed
qed

text \<open>\<open>V\<close> may also run in an interrupt handler, when the frames are arbitrary.\<close>

lemma V_bracketed:
  assumes pf: "platform_ok pf" and k: "kinvF pf F k" and b: "bracketed l k" 
    and step: "Semaphore_V pf s k = Inr k'"
  shows "bracketed l k' \<and> kinvF pf F k' \<and> currentThread k' = currentThread k \<and> frames k' = frames k"
proof (cases "semaphores k s")
  case None
  then show ?thesis using step by (simp add: Semaphore_V_def set_level_def case_prod_unfold Let_def)
next
  case (Some S)
  from Semaphore_V_ok [OF pf k Some] step obtain th hp i where
    k': "k' = k\<lparr>threads := th, heap := hp,
      semaphores := (semaphores k)(s \<mapsto> S\<lparr>sem_value := sem_value S + 1\<rparr>),
      history := history k @ [EvV s], interrupt := i\<rparr>" and "kinvF pf F k'" "wakes (SemQ s) k k'"
    by (auto simp: Let_def)
  moreover from b elsewhere_wakes [OF this(3)] have "bracketed l k'"
    by (simp add: bracketed_at [of _ _ "currentThread k"] k')
  ultimately show ?thesis by (simp add: k')
qed

lemma handlers_bracketed:
  assumes pf: "platform_ok pf"
  shows "kinvF pf F k \<Longrightarrow> bracketed l k \<Longrightarrow> run_handlers pf ss k = Inr k' \<Longrightarrow>
    bracketed l k' \<and> currentThread k' = currentThread k \<and> frames k' = frames k"
proof (induction ss arbitrary: k)
  case Nil
  then show ?case by simp
next
  case (Cons s ss)
  then obtain k1 where k1: "Semaphore_V pf s k = Inr k1" "run_handlers pf ss k1 = Inr k'"
    by (auto simp: bindE_eq_Inr)
  from V_bracketed [OF pf Cons.prems(1,2) k1(1)] Cons.IH [OF _ _ k1(2)] show ?case by simp
qed

lemma release_bracketed:
  assumes pf: "platform_ok pf" and k: "kinv pf k" "currentThread k = c"
    and lt: "locktest1 k = l" and h: "holder l (history k) = h"
    and else_: "elsewhere l h c (frames k) (threads k) (threadToBeDestroyed k)"
    and own: "if m = l then h = Some c \<and> sect l False (frames k c) else sect l (h = Some c) (frames k c)"
    and step: "Lock_Release pf m k = Inr k'"
  shows "bracketed l k'"
proof (cases "locks k m")
  case None
  then show ?thesis using step by (simp add: Lock_Release_def set_level_def case_prod_unfold Let_def)
next
  case (Some L)
  from Lock_Release_ok [OF pf k(1) [unfolded kinv_kinvF] Some] step k(2) obtain th hp i where
    k': "k' = k\<lparr>threads := th, heap := hp, locks := (locks k)(m \<mapsto> L\<lparr>held := 0\<rparr>),
      history := history k @ [EvRelease m c], interrupt := i\<rparr>" and w: "wakes (LockQ m) k k'"
    by (auto simp: Let_def)
  have e: "elsewhere l h c (frames k) th (threadToBeDestroyed k)"
    using elsewhere_wakes [OF w else_] by (simp add: k')
  show ?thesis
  proof (cases "m = l")
    case True
    then have "elsewhere l None c (frames k) th (threadToBeDestroyed k)"
      using e own by (auto intro: elsewhere_free)
    then show ?thesis using True own lt h by (simp add: bracketed_at [of _ _ c] k')
  next
    case False
    then show ?thesis using e own lt h by (simp add: bracketed_at [of _ _ c] k')
  qed
qed

lemma yield_bracketed:
  assumes pf: "platform_ok pf" and k: "kinv pf k" "user_frames (frames k (currentThread k))"
    and b: "bracketed l k" and step: "Thread_Yield pf (currentThread k) k = Inr k'"
  shows "bracketed l k'"
proof (cases "queue k ReadyQ")
  case Nil
  from Yield_alone [OF pf k Nil] step b show ?thesis by (auto simp: bracketed_def)
next
  case (Cons n q)
  let ?c = "currentThread k"
  from Yield_switch [OF pf k Cons] step obtain C T hp i where
    "k' = k\<lparr>interrupt := i, heap := hp, currentThread := n,
        threads := (threads k)(?c \<mapsto> C\<lparr>status := READY\<rparr>, n \<mapsto> T\<lparr>status := RUNNING\<rparr>),
        frames := (frames k)(?c := RunF # YieldF (getLevel pf (interrupt k)) # frames k ?c)\<rparr>"
    by (auto simp: Let_def)
  with b show ?thesis by (simp add: bracketed_at [of _ _ ?c] elsewhere_threads)
qed

lemma finish_bracketed:
  assumes pf: "platform_ok pf" and k: "kinv pf k" "user_frames (frames k (currentThread k))"
    and b: "bracketed l k" "holder l (history k) \<noteq> Some (currentThread k)"
    and step: "Thread_Finish pf (currentThread k) k = Inr k'"
  shows "bracketed l k'"
proof -
  let ?c = "currentThread k"
  from Finish_ok [OF pf k] step obtain C i where
    "k' = k\<lparr>interrupt := i, threadToBeDestroyed := ?c, threads := (threads k)(?c \<mapsto> C\<lparr>status := BLOCKED\<rparr>),
       frames := (frames k)(?c := SleepF # frames k ?c)\<rparr>" by (auto simp: Let_def)
  with b show ?thesis by (auto simp: bracketed_at [of _ _ ?c] elsewhere_def)
qed

section \<open>Steps\<close>

lemma locks_agree_level: "locks_agree (abs_of k) \<Longrightarrow> locks_agree (abs_of (k\<lparr>interrupt := i\<rparr>))"
  by (simp add: locks_agree_def abs_of_def absF_def)

lemma lock_ptr_is_lock:
  "locktest1 k = l \<Longrightarrow> is_lock l r \<longleftrightarrow> lock_ptr r k = l"
  by (cases r) (auto simp: is_lock_def)

lemma stmt_bracketed:
  assumes pf: "platform_ok pf" and k: "kinv pf k" "user_frames (frames k c)" "currentThread k = c"
    and fr: "frames k c = CodeF ss # us" and agree: "locks_agree (abs_of k)" and lt: "locktest1 k = l"
    and h: "holder l (history k) = h" and else_: "elsewhere l h c (frames k) (threads k) (threadToBeDestroyed k)"
    and own: "sect l (h = Some c) (CodeF (s # ss) # us)" and step: "exec_stmt pf s k = Inr k'"
  shows "bracketed l k'"
proof -
  have user: "user_frames (frames k (currentThread k))" using k by simp
  from interrupts_off [OF pf k(1) user] obtain i where
    off: "set_level pf IntOff k = (getLevel pf (interrupt k), k\<lparr>interrupt := i\<rparr>)"
      "kinv pf (k\<lparr>interrupt := i\<rparr>)" "getLevel pf i = IntOff" .
  have same: "bracketed l k" if "sect l (h = Some c) (frames k c)"
    using that else_ lt h by (simp add: bracketed_at [of _ _ c])
  show ?thesis
  proof (cases s)
    case (Printf str)
    with own fr same step show ?thesis by (auto simp: printf_def bracketed_def)
  next
    case CurrentYield
    with own fr step yield_bracketed [OF pf k(1) user] same show ?thesis by simp
  next
    case CurrentFinish
    with own fr step finish_bracketed [OF pf k(1) user] same h k(3) show ?thesis by (simp split: if_splits)
  next
    case (ForkNew nm func arg)
    from ForkNew_ok [OF pf k(1) user, of nm func arg] step ForkNew obtain T hp j where
      "threads k (fresh (heap k)) = None"
      "k' = k\<lparr>frames := (frames k)(fresh (heap k) := [RootF]), threads := (threads k)(fresh (heap k) \<mapsto> T),
             heap := hp, interrupt := j\<rparr>" by (auto simp: Let_def simp del: exec_stmt.simps)
    moreover have "threads k c \<noteq> None" using kinv_placement(4) [OF k(1)] k(3) by auto
    ultimately show ?thesis using own fr ForkNew else_ lt h
      by (auto simp: bracketed_at [of _ _ c] elsewhere_fork)
  next
    case (SemP sm)
    with own fr same have "bracketed l (k\<lparr>interrupt := i\<rparr>)" by (simp add: bracketed_def)
    with P_loop_bracketed [OF pf off(2), of c l sm "getLevel pf (interrupt k)" k'] SemP step off k
    show ?thesis by (simp add: Semaphore_P_def)
  next
    case (SemV sm)
    with own fr same have "bracketed l k" by simp
    with V_bracketed [OF pf k(1) [unfolded kinv_kinvF]] SemV step show ?thesis by simp
  next
    case (Acquire r)
    then have "Lock_Acquire_loop pf (lock_ptr r k) (getLevel pf (interrupt k)) (k\<lparr>interrupt := i\<rparr>) = Inr k'"
      using step off by (simp add: Lock_Acquire_def)
    moreover have "if lock_ptr r k = l then h \<noteq> Some c \<and> sect l True (frames k c)
        else sect l (h = Some c) (frames k c)"
      using own fr Acquire lock_ptr_is_lock [OF lt, of r] by (simp split: if_splits)
    ultimately show ?thesis
      using acquire_loop_bracketed [OF pf off(2), of c l h "lock_ptr r k" "getLevel pf (interrupt k)" k']
        locks_agree_level [OF agree] off(3) k(2,3) lt h else_ by simp
  next
    case (Release r)
    with step have "Lock_Release pf (lock_ptr r k) k = Inr k'" by simp
    moreover have "if lock_ptr r k = l then h = Some c \<and> sect l False (frames k c)
        else sect l (h = Some c) (frames k c)"
      using own fr Release lock_ptr_is_lock [OF lt, of r] by (simp split: if_splits)
    ultimately show ?thesis using release_bracketed [OF pf k(1,3) lt h else_] by blast
  qed (use own in simp_all)
qed

lemma resume_bracketed:
  assumes k: "kinv pf k" and b: "bracketed l k" and step: "Scheduler_Run_resume k = Inr k'"
    and fs: "resumable (frames k (currentThread k))"
  shows "bracketed l k'"
proof -
  let ?d = "threadToBeDestroyed k" and ?c = "currentThread k"
  from Run_resume_ok [OF k fs] step obtain th fr where
    k': "k' = k\<lparr>threads := th, frames := fr, threadToBeDestroyed := NULL\<rparr>"
      "\<And>t. t \<noteq> ?d \<Longrightarrow> th t = threads k t \<and> fr t = frames k t" by auto
  show ?thesis
  proof (cases "?d = NULL")
    case True
    then have "k' = k" using step True by (simp add: Scheduler_Run_resume_def)
    then show ?thesis using b by simp
  next
    case False
    then have d: "holder l (history k) \<noteq> Some ?d" using b by (simp add: bracketed_def)
    have "frames k' ?d = []"
      using False step by (auto simp: Scheduler_Run_resume_def delete_Thread_def bindE_eq_Inr)
    then have fr: "fr ?d = []" by (simp add: k'(1))
    have "sect l (holder l (history k) = Some t) (fr t)" for t
      using b k'(2) [of t] fr d by (cases "t = ?d") (auto simp: bracketed_def)
    moreover have "holder l (history k) \<noteq> Some t" if "th t = None" for t
      using b k'(2) [of t] that d by (cases "t = ?d") (auto simp: bracketed_def)
    ultimately show ?thesis using b by (simp add: bracketed_def k'(1))
  qed
qed

lemma sleep_bracketed:
  assumes pf: "platform_ok pf" and k: "kinvF pf ((frames k)(currentThread k := SleepF # fs)) k"
    and fs: "frames k (currentThread k) = fs" "resumable fs" and b: "bracketed l k"
    and step: "Sleep_loop pf k = Inr k'"
  shows "bracketed l k'"
proof (cases "queue k ReadyQ")
  case (Cons n q)
  let ?c = "currentThread k"
  from Sleep_dispatch [OF k fs Cons] step obtain T hp where
    "k' = k\<lparr>heap := hp, currentThread := n, threads := (threads k)(n \<mapsto> T\<lparr>status := RUNNING\<rparr>),
      frames := (frames k)(?c := RunF # fs)\<rparr>" by (auto simp: Let_def)
  with b fs(1) show ?thesis by (auto simp: bracketed_at [of _ _ ?c] elsewhere_threads)
next
  case Nil
  have "wf k" using k by (simp add: kinvF_def)
  from FindNextToRun_none [OF this Nil] step obtain ss m k1 where
    r: "run_handlers pf ss (k\<lparr>interrupt := m\<rparr>) = Inr k1" "k' = push (currentThread k1) SleepF k1"
      "Idle pf (interrupt k) = Some (ss, m)"
    by (auto simp: Sleep_loop_def bindE_eq_Inr split: option.splits)
  have "kinvF pf ((frames k)(currentThread k := SleepF # fs)) (k\<lparr>interrupt := m\<rparr>)"
    using kinvF_level [OF k, of m] platform_okD(5) [OF pf r(3)] kinvF_in_kernel [OF k] by simp
  moreover have "bracketed l (k\<lparr>interrupt := m\<rparr>)" using b by (simp add: bracketed_def)
  ultimately have h: "bracketed l k1 \<and> currentThread k1 = currentThread k \<and> frames k1 = frames k"
    using handlers_bracketed [OF pf _ _ r(1)] by simp
  then show ?thesis
    by (auto simp: r(2) push_def bracketed_at [of _ _ "currentThread k"])
qed

lemma frame_bracketed:
  assumes pf: "platform_ok pf" and k: "kinv pf k" "user_frames (frames k (currentThread k))"
    and p: "currentThread k = c" "frames k c = fs" "locktest1 k = l" "holder l (history k) = h"
    and e: "elsewhere l h c (frames k) (threads k) (threadToBeDestroyed k)" and ag: "locks_agree (abs_of k)"
    and procs: "procedures_bracketed pf l" and own: "sect l (h = Some c) (f # fs)"
    and f: "f \<noteq> RunF" "f \<noteq> SleepF" and off: "\<not> user_frame f \<Longrightarrow> getLevel pf (interrupt k) = IntOff"
    and ex: "exec_frame pf f k = Inr k'"
  shows "bracketed l k'"
proof -
  have b: "bracketed l k" if "sect l (h = Some c) fs"
    using that p e by (simp add: bracketed_at [of _ _ c])
  have new: "bracketed l (k\<lparr>frames := (frames k)(c := us)\<rparr>)" if "sect l (h = Some c) us" for us
    using that p e by (simp add: bracketed_at [of _ _ c])
  show ?thesis
  proof (cases f)
    case RootF
    then obtain x y z w where "k' = k\<lparr>frames := (frames k)(c := [CallF x 0, CallF y z, CallF w 0] @ fs)\<rparr>"
      using ex p by (auto simp: ThreadRoot_def bindE_eq_Inr)
    moreover have "sect l (h = Some c) ([CallF x 0, CallF y z, CallF w 0] @ fs)"
      using own RootF by (cases "h = Some c") simp_all
    ultimately show ?thesis using new by blast
  next
    case (CallF a arg)
    have "sect l (h = Some c) (CodeF (program pf a arg) # fs)"
      using own CallF procs by (cases "h = Some c") (simp_all add: procedures_bracketed_def)
    then show ?thesis
      using ex CallF own b new finish_bracketed [OF pf k] p
      by (auto simp: call_addr_def push_def bracketed_def split: if_splits)
  next
    case (CodeF ss)
    show ?thesis
    proof (cases ss)
      case Nil
      then show ?thesis using ex CodeF own b by simp
    next
      case (Cons s ss')
      let ?k1 = "push c (CodeF ss') k"
      have k1: "kinv pf ?k1" "user_frames (frames ?k1 (currentThread ?k1))"
        using kinv_push [OF k, of "CodeF ss'"] p by simp_all
      have "locks_agree (abs_of ?k1)" using ag by (simp add: locks_agree_def abs_of_def absF_def push_def)
      moreover have "exec_stmt pf s ?k1 = Inr k'" using ex CodeF Cons p by simp
      ultimately show ?thesis
        using stmt_bracketed [OF pf k1(1), of c ss' fs l h s k'] k1(2) p e own CodeF Cons
        by (simp add: push_def)
    qed
  next
    case (YieldF lev)
    then show ?thesis using ex own b pf by (auto simp: set_level_ok bracketed_def)
  next
    case (SemPF s lev)
    then show ?thesis using ex own b P_loop_bracketed [OF pf k(1), of c l s lev k'] k(2) p off by simp
  next
    case (AcquireF m lev)
    then show ?thesis
      using ex own acquire_loop_bracketed [OF pf k(1), of c l h m lev k'] k(2) p off ag e by (simp split: if_splits)
  qed (use own f in simp_all)
qed

lemma step_bracketed:
  assumes pf: "platform_ok pf" and k: "kinv pf k" and b: "bracketed l k" and agree: "locks_agree (abs_of k)"
    and procs: "procedures_bracketed pf l" and step: "step pf k = Inr k'"
  shows "bracketed l k'"
proof (cases "frames k (currentThread k)")
  case Nil
  then show ?thesis using step by (simp add: step_def)
next
  case (Cons f fs)
  let ?c = "currentThread k" and ?h = "holder l (history k)"
  define p where "p = k\<lparr>frames := (frames k)(?c := fs)\<rparr>"
  have p: "currentThread p = ?c" "frames p ?c = fs" "locktest1 p = l" "holder l (history p) = ?h"
    and e: "elsewhere l ?h ?c (frames p) (threads p) (threadToBeDestroyed p)"
    and own: "sect l (?h = Some ?c) (f # fs)"
    using b Cons by (simp_all add: p_def bracketed_at [of _ _ ?c])
  have ex: "exec_frame pf f p = Inr k'" using step Cons by (simp add: step_def pop_def p_def)
  have ag: "locks_agree (abs_of p)" using agree by (simp add: locks_agree_def abs_of_def absF_def p_def)
  have inv: "inv pf (queue k) (threads k) (frames k) ?c (threadToBeDestroyed k) (getLevel pf (interrupt k))"
    and wf: "wf k" using k by (simp_all add: kinv_def)
  have bp: "bracketed l p" if "sect l (?h = Some ?c) fs"
    using that p e by (simp add: bracketed_at [of _ _ ?c])
  show ?thesis
  proof (cases "f = SleepF")
    case True
    from invD(6) [OF inv] Cons True have "resumable fs" by (auto simp: running_def)
    moreover have "kinvF pf ((frames p)(currentThread p := SleepF # fs)) p"
      using k Cons True by (simp add: p_def kinv_kinvF fun_upd_idem)
    ultimately show ?thesis
      using sleep_bracketed [OF pf, of p fs l k'] ex True own bp p by (simp only: sect.simps exec_frame.simps)
  next
    case False
    note i = inv_pop [OF inv Cons False]
    have kp: "kinv pf p" using i(1) wf by (simp add: p_def kinv_def)
    show ?thesis
    proof (cases "f = RunF")
      case True
      then show ?thesis using resume_bracketed [OF kp] bp own ex i(3) p by simp
    next
      case notRun: False
      have user: "user_frames (frames p (currentThread p))" using i(4) notRun p by simp
      have off: "\<not> user_frame f \<Longrightarrow> getLevel pf (interrupt p) = IntOff" using i(2) by (simp add: p_def)
      show ?thesis
        using frame_bracketed [OF pf kp user p e ag procs own notRun False off ex] .
    qed
  qed
qed

lemma reachable_bracketed:
  assumes pf: "platform_ok pf" and k0: "kinv pf k0" "locks_agree (abs_of k0)" "bracketed l k0"
    and procs: "procedures_bracketed pf l" and "reachable pf k0 k"
  shows "bracketed l k"
  using assms(6)
proof (induction rule: reachable.induct)
  case reach_init
  show ?case by (rule k0(3))
next
  case (reach_step k k')
  have k: "kinv pf k" by (rule reachable_kinv [OF pf reach_step.hyps(1) k0(1)])
  have agree: "locks_agree (abs_of k)" by (rule locking.reach [OF pf k0(1,2) reach_step.hyps(1)])
  from reach_step.hyps(2) show ?case
  proof (cases rule: sys_stepE)
    case thread_step
    with step_bracketed [OF pf k reach_step.IH agree procs] show ?thesis by blast
  next
    case time_slice
    have inv: "inv pf (queue k) (threads k) (frames k) (currentThread k)
        (threadToBeDestroyed k) (getLevel pf (interrupt k))" using k by (simp add: kinv_def)
    have "\<not> in_kernel (frames k (currentThread k))" using invD(8) [OF inv] time_slice(1) by auto
    then have "user_frames (frames k (currentThread k))" using invD(6) [OF inv] running_user by blast
    from yield_bracketed [OF pf k this reach_step.IH time_slice(2)] show ?thesis .
  next
    case (device s)
    with V_bracketed [OF pf k [unfolded kinv_kinvF] reach_step.IH] show ?thesis by blast
  qed
qed

section \<open>Being in the section\<close>

text \<open>
  The code a thread has still to run; a thread woken in \<open>Acquire\<close> will try again. It is in its
  section when the next operation on the lock in that code is \<open>Release\<close>.
\<close>

fun remaining :: "frame \<Rightarrow> stmt list" where
  "remaining (CodeF ss) = ss"
| "remaining (AcquireF m lev) = [Acquire (LockAt m)]"
| "remaining _ = []"

fun releases :: "ptr \<Rightarrow> stmt list \<Rightarrow> bool" where
  "releases l [] \<longleftrightarrow> False"
| "releases l (Release r # ss) \<longleftrightarrow> is_lock l r \<or> releases l ss"
| "releases l (Acquire r # ss) \<longleftrightarrow> \<not> is_lock l r \<and> releases l ss"
| "releases l (s # ss) \<longleftrightarrow> releases l ss"

definition in_section :: "ptr \<Rightarrow> frame list \<Rightarrow> bool" where
  "in_section l fs \<longleftrightarrow> releases l (concat (map remaining fs))"

lemma after_releases:
  "after l False ss = Some b \<Longrightarrow> releases l (ss @ rest) \<Longrightarrow> \<not> b \<and> releases l rest"
  by (induction l "False" ss rule: after.induct) (auto split: if_splits)

lemma outside_section: "sect l False fs \<Longrightarrow> \<not> in_section l fs"
proof (induction l "False" fs rule: sect.induct)
  case (2 l ss fs)
  show ?case
  proof
    assume "in_section l (CodeF ss # fs)"
    then have "releases l (ss @ concat (map remaining fs))" by (simp add: in_section_def)
    with 2 after_releases show False by (fastforce simp: in_section_def split: option.splits)
  qed
qed (auto simp: in_section_def is_lock_def split: if_splits)

lemma bracketed_in_section:
  "bracketed l k \<Longrightarrow> in_section l (frames k t) \<Longrightarrow> holder l (history k) = Some t"
  using outside_section unfolding bracketed_def by (metis (full_types))

lemma agree_held:
  assumes "locks_agree (abs_of k)" and "holder l (history k) = Some t"
  shows "\<exists>L. locks k l = Some L \<and> held L \<noteq> 0"
proof -
  have "holder l (ahist (abs_of k)) = None \<longleftrightarrow> (\<forall>v. aheld (abs_of k) l = Some v \<longrightarrow> v = 0)"
    using assms(1) unfolding locks_agree_def by (elim conjE) (erule spec)
  then have "\<not> (\<forall>v. aheld (abs_of k) l = Some v \<longrightarrow> v = 0)" using assms(2) by (simp add: abs_of_def)
  then show ?thesis by (cases "locks k l") (simp_all add: abs_of_def abs_fun_apply)
qed

lemma runs_reachable: "runs pf k k' \<Longrightarrow> reachable pf k k'"
  unfolding runs_def by (blast intro: run_reachable)

section \<open>Mutual exclusion of bracketed programs\<close>

text \<open>
  C7: Critical sections. When every thread's code and every procedure brackets its sections with
  \<open>Acquire\<close> and \<open>Release\<close> of one lock, then in every reachable state, time slices and interrupts
  included, at most one thread is in its section, and the lock is held while one is.
\<close>

theorem critical_sections_exclusive:
  assumes "platform_ok pf" and "kinv pf k0" and "no_locks_held k0" and "history k0 = []"
    and "\<And>t. sect l False (frames k0 t)" and "locktest1 k0 = l" and "procedures_bracketed pf l"
    and "reachable pf k0 k" and "in_section l (frames k t)"
  shows "(\<forall>u. in_section l (frames k u) \<longrightarrow> u = t) \<and> (\<exists>L. locks k l = Some L \<and> held L \<noteq> 0)"
proof -
  have agree: "locks_agree (abs_of k0)"
    using assms(3,4) by (auto simp: locks_agree_def abs_of_def exclusive_def no_locks_held_def abs_fun_apply)
  have "bracketed l k0" using assms(4-6) by (simp add: bracketed_def)
  from reachable_bracketed [OF assms(1,2) agree this assms(7,8)] have b: "bracketed l k" .
  have ag: "locks_agree (abs_of k)" by (rule locking.reach [OF assms(1,2) agree assms(8)])
  have h: "holder l (history k) = Some t" by (rule bracketed_in_section [OF b assms(9)])
  have "\<exists>L. locks k l = Some L \<and> held L \<noteq> 0" by (rule agree_held [OF ag h])
  then show ?thesis using bracketed_in_section [OF b] h by fastforce
qed

lemma test_program_bracketed: "after l False (test_program aS a1 a2 a arg) = Some False"
proof -
  have "after l False (concat (map (\<lambda>num. [Printf (looped w num), CurrentYield]) xs)) = Some False" for w xs
    by (induction xs) simp_all
  then show ?thesis
    by (simp add: test_program_def SimpleThread_def SimpleThread_loop_def LockThread1_def LockThread2_def
        is_lock_def)
qed

theorem critical_sections_exclusive_witness:
  "\<exists>k :: IntStatus kernel. in_section 4 (frames k 3) \<and> (\<forall>u. in_section 4 (frames k u) \<longrightarrow> u = 3) \<and>
     map_option held (locks k 4) = Some 1"
proof -
  let ?k0 = "(solo 0 [Acquire Locktest1, Release Locktest1])\<lparr>locktest1 := 4\<rparr>"
  let ?ss = "[Acquire Locktest1, Release Locktest1]"
  have k0: "kinv plain_machine ?k0" "no_locks_held ?k0" "history ?k0 = []" "locktest1 ?k0 = 4"
    using solo_kinv(1) [of 0 ?ss] by (simp_all add: no_locks_held_def) (simp_all add: solo_def)
  have sect: "sect 4 False (frames ?k0 t)" for t by (simp add: solo_def is_lock_def)
  have procs: "procedures_bracketed plain_machine 4"
    by (simp add: procedures_bracketed_def plain_machine_def test_program_bracketed)
  have at: "at_code plain_machine ?k0 3 ?ss []" using k0(1) by (simp add: at_code_def) (simp add: solo_def)
  have L: "lock_ptr Locktest1 ?k0 = 4" "locks ?k0 4 = Some \<lparr>lock_name = CLiteral ''l'', held = 0, lock_queue = 5\<rparr>"
      "held \<lparr>lock_name = CLiteral ''l'', held = 0, lock_queue = 5\<rparr> = 0"
    by (simp_all add: solo_def)
  from acquire_free_step [OF plain_machine_ok at L] obtain k where
    k: "step plain_machine ?k0 = Inr k" "frames k 3 = [CodeF [Release Locktest1]]"
      "map_option held (locks k 4) = Some 1"
    unfolding Let_def by (elim exE conjE) simp
  have "in_section 4 (frames k 3)" by (simp add: k(2) in_section_def is_lock_def)
  with critical_sections_exclusive [OF plain_machine_ok k0(1-3) sect k0(4) procs step_reachable [OF k(1)] this] k(3)
  show ?thesis by blast
qed

text \<open>
  C6: The lock test (\<open>nachos -q 2\<close>), once \<open>LockTest1\<close> has made its lock, under every interleaving with
  time slices and interrupts: the threads running \<open>LockThread1\<close> and \<open>LockThread2\<close> are never both
  between their \<open>Acquire\<close> and \<open>Release\<close>.
\<close>

theorem lock_test_exclusive:
  assumes "platform_ok pf" and "\<And>a arg. program pf a arg = test_program aS a1 a2 a arg"
    and "main pf hardware aS a1 a2 argv = Inr k0" and "main_args (tl argv) 1 = Inr 2"
    and "step pf k0 = Inr k1" and "reachable pf k1 k"
    and "in_section (locktest1 k1) (frames k t)" and "in_section (locktest1 k1) (frames k u)"
  shows "t = u"
proof -
  let ?ss = "[ForkNew ''one'' a1 0, ForkNew ''two'' a2 0, CurrentFinish]"
  have k0: "kinv pf k0" "locks k0 = Map.empty" "history k0 = []"
    using main_kinv [OF assms(1,3)] by simp_all
  from main_state [OF assms(3)] assms(4) have f0: "currentThread k0 = 3"
    "frames k0 = (\<lambda>_. [])(3 := [CodeF (NewLocktest1 ''LockTest1'' # ?ss)])"
    by (auto simp: kernel0_def main_code_def ThreadTest_def LockTest1_def)
  obtain l k0' where new: "new_Lock (CLiteral ''LockTest1'') (k0\<lparr>frames := (frames k0)(3 := [CodeF ?ss])\<rparr>) = (l, k0')"
    by fastforce
  then have k1: "k1 = k0'\<lparr>locktest1 := l\<rparr>" "frames k0' = (frames k0)(3 := [CodeF ?ss])"
      "history k0' = []" "locks k0' = [l \<mapsto> the (locks k0' l)]" "held (the (locks k0' l)) = 0"
    using assms(5) f0 k0(2,3) by (auto simp: step_def pop_def push_def new_Lock_def case_prod_unfold Let_def)
  have "kinv pf k1" using step_kinv [OF assms(1) k0(1) assms(5)] .
  moreover have "no_locks_held k1"
    unfolding no_locks_held_def
  proof (intro allI impI)
    fix l' L assume "locks k1 l' = Some L"
    then have "[l \<mapsto> the (locks k0' l)] l' = Some L" using k1(4) by (simp add: k1(1))
    then show "held L = 0" using k1(5) by (simp split: if_splits)
  qed
  moreover have "sect l False (frames k1 v)" for v by (simp add: k1(1,2) f0(2))
  moreover have "procedures_bracketed pf l"
    using assms(2) by (simp add: procedures_bracketed_def test_program_bracketed)
  ultimately have "bracketed l k1 \<and> locks_agree (abs_of k1)"
    using k1(1,3) by (auto simp: bracketed_def locks_agree_def abs_of_def exclusive_def no_locks_held_def abs_fun_apply)
  with reachable_bracketed [OF assms(1) \<open>kinv pf k1\<close> _ _ \<open>procedures_bracketed pf l\<close> assms(6)]
  have "bracketed l k" by blast
  note holds = bracketed_in_section [OF this]
  have lt: "locktest1 k1 = l" by (simp add: k1(1))
  from holds [OF assms(7) [unfolded lt]] holds [OF assms(8) [unfolded lt]] show ?thesis by simp
qed

theorem lock_test_exclusive_witness:
  "\<exists>k1 (k :: IntStatus kernel) t. step plain_machine (start 2) = Inr k1 \<and> in_section (locktest1 k1) (frames k t) \<and>
     (\<forall>u. in_section (locktest1 k1) (frames k u) \<longrightarrow> u = t)"
proof -
  have p: "11 \<noteq> addr_InterruptEnable plain_machine" "11 \<noteq> addr_ThreadFinish plain_machine"
    "program plain_machine 11 0 = LockThread1 0"
    "\<And>a arg. program plain_machine a arg = test_program 10 11 12 a arg"
    by (simp_all add: plain_machine_def test_program_def)
  have arg: "main_args (tl [''nachos'', ''-q'', ''2'']) 1 = Inr 2"
    by (simp add: second_char_def atoi_def is_space_def is_digit_def)
  from lock_test_first [OF plain_machine_ok p(1-3) start_main(2) arg] obtain k1 l k t1 q d out us where
    k1: "step plain_machine (start 2) = Inr k1" "locktest1 k1 = l" and k: "runs plain_machine k1 k"
      "view plain_machine k t1 (CodeF (drop 2 (LockThread1 0)) # us) q d out" by blast
  have "in_section l (frames k t1)"
    using k(2) by (simp add: view_def in_section_def LockThread1_def is_lock_def)
  with lock_test_exclusive [OF plain_machine_ok p(4) start_main(2) arg k1(1) runs_reachable [OF k(1)]] k1
  show ?thesis by blast
qed

end
