(* ===== verification/WellTyped.thy ===== *)
theory WellTyped
  imports KernelProps CodeSteps
begin

text \<open>
  A type system for the programs that run on the kernel. A program is typed when its statements
  name only objects that exist, its threads run only typed procedures, and every thread ends by
  calling \<open>Finish\<close>. Progress and preservation together say that a typed program never accesses a
  bad pointer and never returns from the bottom of its stack.
\<close>

section \<open>Types\<close>

text \<open>
  What a program may rely on: semaphores, locks and synchronized lists that exist, whether
  \<open>locktest1\<close> is a lock, and the procedures that may be forked.
\<close>

record env =
  e_sems :: "ptr set"
  e_locks :: "ptr set"
  e_lists :: "ptr set"
  e_global :: bool
  e_procs :: "word32 set"

fun typed_lock :: "env \<Rightarrow> lock_ref \<Rightarrow> bool" where
  "typed_lock G (LockAt l) \<longleftrightarrow> l \<in> e_locks G"
| "typed_lock G Locktest1 \<longleftrightarrow> e_global G"

fun typed_stmt :: "env \<Rightarrow> stmt \<Rightarrow> bool" where
  "typed_stmt G (ForkNew nm func arg) \<longleftrightarrow> func \<in> e_procs G"
| "typed_stmt G (SemP s) \<longleftrightarrow> s \<in> e_sems G"
| "typed_stmt G (SemV s) \<longleftrightarrow> s \<in> e_sems G"
| "typed_stmt G (Acquire r) \<longleftrightarrow> typed_lock G r"
| "typed_stmt G (Release r) \<longleftrightarrow> typed_lock G r"
| "typed_stmt G (SynchAppend sl x) \<longleftrightarrow> sl \<in> e_lists G"
| "typed_stmt G (SynchRemove sl) \<longleftrightarrow> sl \<in> e_lists G"
| "typed_stmt G (ListAppend sl x) \<longleftrightarrow> sl \<in> e_lists G"
| "typed_stmt G (WaitNonEmpty sl) \<longleftrightarrow> sl \<in> e_lists G"
| "typed_stmt G (TakeFirst sl) \<longleftrightarrow> sl \<in> e_lists G"
| "typed_stmt G (CondWait c r) \<longleftrightarrow> False"
| "typed_stmt G (SynchMapcar sl func) \<longleftrightarrow> False"
| "typed_stmt G (ListMapcar sl func) \<longleftrightarrow> False"
| "typed_stmt G s \<longleftrightarrow> True"

text \<open>\<open>D\<close> are the locks that exist: a thread may be waiting for a lock made after the program started.\<close>

fun typed_frame :: "'m platform \<Rightarrow> env \<Rightarrow> ptr set \<Rightarrow> frame \<Rightarrow> bool" where
  "typed_frame pf G D (CodeF ss) \<longleftrightarrow> list_all (typed_stmt G) ss"
| "typed_frame pf G D (CallF a arg) \<longleftrightarrow>
     a \<in> e_procs G \<or> a = addr_InterruptEnable pf \<or> a = addr_ThreadFinish pf"
| "typed_frame pf G D (SemPF s l) \<longleftrightarrow> s \<in> e_sems G"
| "typed_frame pf G D (AcquireF m l) \<longleftrightarrow> m \<in> D"
| "typed_frame pf G D (MapcarF func pt) \<longleftrightarrow> False"
| "typed_frame pf G D (MapcarNextF func pt) \<longleftrightarrow> False"
| "typed_frame pf G D f \<longleftrightarrow> True"

text \<open>A stack that will reach a call of \<open>Finish\<close>.\<close>

fun ends :: "'m platform \<Rightarrow> frame list \<Rightarrow> bool" where
  "ends pf [] \<longleftrightarrow> False"
| "ends pf (RootF # fs) \<longleftrightarrow> True"
| "ends pf (CallF a arg # fs) \<longleftrightarrow> a = addr_ThreadFinish pf \<or> ends pf fs"
| "ends pf (CodeF ss # fs) \<longleftrightarrow> CurrentFinish \<in> set ss \<or> ends pf fs"
| "ends pf (f # fs) \<longleftrightarrow> ends pf fs"

text \<open>A thread that has called \<open>Finish\<close> is \<open>BLOCKED\<close> and waits for nothing.\<close>

definition typed_thread :: "'m platform \<Rightarrow> env \<Rightarrow> ptr set \<Rightarrow> Thread \<Rightarrow> frame list \<Rightarrow> bool" where
  "typed_thread pf G D T fs \<longleftrightarrow> list_all (typed_frame pf G D) fs \<and>
     (ends pf fs \<or> (status T = BLOCKED \<and> waits_for fs = None)) \<and>
     (fs = [RootF] \<longrightarrow> (\<forall>a. machineState T (InitialPCState (host pf)) = Some a \<longrightarrow> a \<in> e_procs G))"

definition objects :: "env \<Rightarrow> 'm kernel \<Rightarrow> bool" where
  "objects G k \<longleftrightarrow> e_sems G \<subseteq> dom (semaphores k) \<and> e_locks G \<subseteq> dom (locks k) \<and>
     (\<forall>sl \<in> e_lists G. \<exists>SL. synchlists k sl = Some SL \<and> sl_lock SL \<in> e_locks G) \<and>
     (e_global G \<longrightarrow> locktest1 k \<in> dom (locks k))"

definition well_typed :: "'m platform \<Rightarrow> env \<Rightarrow> 'm kernel \<Rightarrow> bool" where
  "well_typed pf G k \<longleftrightarrow> objects G k \<and>
     (\<forall>t T. threads k t = Some T \<longrightarrow> typed_thread pf G (dom (locks k)) T (frames k t))"

text \<open>The program and the device handlers.\<close>

definition typed_program :: "'m platform \<Rightarrow> env \<Rightarrow> bool" where
  "typed_program pf G \<longleftrightarrow> (\<forall>a \<in> e_procs G. \<forall>arg. list_all (typed_stmt G) (program pf a arg)) \<and>
     (\<forall>m ss m'. Idle pf m = Some (ss, m') \<longrightarrow> set ss \<subseteq> e_sems G) \<and>
     addr_ThreadFinish pf \<noteq> addr_InterruptEnable pf"

section \<open>Sound results\<close>

text \<open>
  The errors a typed program may run into: an empty list or a \<open>NULL\<close> item in \<open>SynchList::Remove\<close>.
\<close>

definition allowed :: "env \<Rightarrow> error \<Rightarrow> bool" where
  "allowed G e \<longleftrightarrow> e_lists G \<noteq> {} \<and>
     (e = AssertionFailed ''synch.cc'' 144 \<or> e = AssertionFailed ''synchlist.cc'' 79)"

definition sound :: "'m platform \<Rightarrow> env \<Rightarrow> 'm kernel result \<Rightarrow> bool" where
  "sound pf G r \<longleftrightarrow> (case r of Inr k \<Rightarrow> well_typed pf G k | Inl e \<Rightarrow> allowed G e)"

lemma sound_simps [simp]:
  "sound pf G (Inr k) \<longleftrightarrow> well_typed pf G k"
  "sound pf G (Inl e) \<longleftrightarrow> allowed G e"
  by (simp_all add: sound_def)

lemma objectsD:
  assumes "objects G k"
  shows "s \<in> e_sems G \<Longrightarrow> \<exists>S. semaphores k s = Some S"
    and "typed_lock G r \<Longrightarrow> \<exists>L. locks k (lock_ptr r k) = Some L"
    and "sl \<in> e_lists G \<Longrightarrow> \<exists>SL. synchlists k sl = Some SL \<and> sl_lock SL \<in> e_locks G"
proof -
  show "s \<in> e_sems G \<Longrightarrow> \<exists>S. semaphores k s = Some S"
    and "sl \<in> e_lists G \<Longrightarrow> \<exists>SL. synchlists k sl = Some SL \<and> sl_lock SL \<in> e_locks G"
    using assms by (auto simp: objects_def)
  show "typed_lock G r \<Longrightarrow> \<exists>L. locks k (lock_ptr r k) = Some L"
    using assms by (cases r) (auto simp: objects_def)
qed

lemma typed_frame_mono: "D \<subseteq> D' \<Longrightarrow> typed_frame pf G D f \<Longrightarrow> typed_frame pf G D' f"
  by (cases f) auto

lemma typed_thread_mono: "D \<subseteq> D' \<Longrightarrow> typed_thread pf G D T fs \<Longrightarrow> typed_thread pf G D' T fs"
  using typed_frame_mono unfolding typed_thread_def by (metis (mono_tags, lifting) list.pred_mono_strong)

lemma typed_thread_status:
  assumes "typed_thread pf G D T fs" and "status T \<noteq> BLOCKED \<or> waits_for fs \<noteq> None"
  shows "typed_thread pf G D (T\<lparr>status := st\<rparr>) fs" and "ends pf fs"
  using assms by (auto simp: typed_thread_def)

section \<open>The running thread and the others\<close>

definition others_typed :: "'m platform \<Rightarrow> env \<Rightarrow> ptr set \<Rightarrow> ptr \<Rightarrow> (ptr \<Rightarrow> Thread option) \<Rightarrow>
    (ptr \<Rightarrow> frame list) \<Rightarrow> bool" where
  "others_typed pf G D c th fr \<longleftrightarrow> (\<forall>t T. t \<noteq> c \<longrightarrow> th t = Some T \<longrightarrow> typed_thread pf G D T (fr t))"

lemma well_typed_at:
  "well_typed pf G k \<longleftrightarrow> objects G k \<and> others_typed pf G (dom (locks k)) c (threads k) (frames k) \<and>
     (\<forall>T. threads k c = Some T \<longrightarrow> typed_thread pf G (dom (locks k)) T (frames k c))"
  unfolding well_typed_def others_typed_def by metis

lemma others_typed_upd [simp]:
  "others_typed pf G D c th (fr(c := us)) = others_typed pf G D c th fr"
  "others_typed pf G D c (th(c := x)) fr = others_typed pf G D c th fr"
  by (auto simp: others_typed_def)

lemma objects_upd [simp]:
  "objects G (k\<lparr>threads := th\<rparr>) = objects G k"
  "objects G (k\<lparr>frames := fr\<rparr>) = objects G k"
  "objects G (k\<lparr>heap := h\<rparr>) = objects G k"
  "objects G (k\<lparr>currentThread := c\<rparr>) = objects G k"
  "objects G (k\<lparr>threadToBeDestroyed := d\<rparr>) = objects G k"
  "objects G (k\<lparr>interrupt := m\<rparr>) = objects G k"
  "objects G (k\<lparr>printed := out\<rparr>) = objects G k"
  "objects G (k\<lparr>history := hist\<rparr>) = objects G k"
  by (simp_all add: objects_def)

lemma objects_value [simp]:
  "semaphores k = sems \<Longrightarrow> sems s \<noteq> None \<Longrightarrow>
     objects G (k\<lparr>semaphores := sems(s \<mapsto> S)\<rparr>) = objects G k"
  "locks k = lks \<Longrightarrow> lks l \<noteq> None \<Longrightarrow> objects G (k\<lparr>locks := lks(l \<mapsto> L)\<rparr>) = objects G k"
  by (auto simp: objects_def dom_def)

text \<open>Waking a thread: it was waiting, so it has not finished.\<close>

lemma others_wakes:
  assumes k: "kinvF pf F k" and F: "\<And>t. waits_for (F t) = waits_for (frames k t)"
    and ow: "thread_queue ow" "ow \<noteq> ReadyQ" and w: "wakes ow k k'"
    and ty: "\<And>t T. threads k t = Some T \<Longrightarrow> typed_thread pf G D T (frames k t)"
    and T: "threads k' t = Some T'"
  shows "typed_thread pf G D T' (frames k t)"
proof (cases "queue k ow")
  case Nil
  then show ?thesis using w ty T by (simp add: wakes_def)
next
  case (Cons u us)
  have inv: "inv pf (queue k) (threads k) F (currentThread k) (threadToBeDestroyed k) (getLevel pf (interrupt k))"
    using k by (simp add: kinvF_def)
  have "place (threads k u) (F u) = Some ow" using invD(2) [OF inv ow(1), of u] Cons by simp
  then have "waits_for (frames k u) \<noteq> None"
    using ow(2) F by (auto simp: place_def split: option.splits ThreadStatus.splits)
  then show ?thesis
    using w Cons ty [of t] T typed_thread_status(1) [OF ty [of u]] by (auto simp: wakes_def split: if_splits)
qed


section \<open>Operations\<close>

lemma well_typedI:
  assumes "objects G k" and "others_typed pf G (dom (locks k)) c (threads k) (frames k)"
    and "list_all (typed_frame pf G (dom (locks k))) (frames k c)" and "frames k c \<noteq> [RootF]"
    and "ends pf (frames k c) \<or>
      (\<forall>T. threads k c = Some T \<longrightarrow> status T = BLOCKED \<and> waits_for (frames k c) = None)"
  shows "well_typed pf G k"
  using assms by (auto simp: well_typed_at [of pf G k c] typed_thread_def)

lemma well_typedD:
  assumes "well_typed pf G k" and "kinv pf k" and "user_frames (frames k (currentThread k))"
  shows "objects G k"
    and "others_typed pf G (dom (locks k)) (currentThread k) (threads k) (frames k)"
    and "list_all (typed_frame pf G (dom (locks k))) (frames k (currentThread k))"
    and "ends pf (frames k (currentThread k))"
    and "frames k (currentThread k) \<noteq> [RootF]"
proof -
  from user_current [OF assms(2,3)] obtain C where
    C: "threads k (currentThread k) = Some C" "status C = RUNNING" .
  note at = assms(1) [unfolded well_typed_at [of pf G k "currentThread k"]]
  show "objects G k" "others_typed pf G (dom (locks k)) (currentThread k) (threads k) (frames k)"
    using at by simp_all
  have "typed_thread pf G (dom (locks k)) C (frames k (currentThread k))" using at C by simp
  then show "list_all (typed_frame pf G (dom (locks k))) (frames k (currentThread k))"
    and "ends pf (frames k (currentThread k))"
    using C(2) by (simp_all add: typed_thread_def)
  show "frames k (currentThread k) \<noteq> [RootF]" by (rule user_not_root [OF assms(3)])
qed

lemma P_loop_sound:
  assumes pf: "platform_ok pf" and k: "kinv pf k" "user_frames (frames k (currentThread k))"
    and off: "getLevel pf (interrupt k) = IntOff" and wt: "well_typed pf G k" and s: "s \<in> e_sems G"
  shows "sound pf G (Semaphore_P_loop pf s lev k)"
proof -
  note d = well_typedD [OF wt k]
  from objectsD(1) [OF d(1) s] obtain S where S: "semaphores k s = Some S" ..
  show ?thesis
  proof (cases "sem_value S = 0")
    case True
    from P_loop_blocks [OF k off S True, of lev] obtain h C where
      "Semaphore_P_loop pf s lev k = Inr (k\<lparr>heap := h,
        frames := (frames k)(currentThread k := SleepF # SemPF s lev # frames k (currentThread k)),
        threads := (threads k)(currentThread k \<mapsto> C\<lparr>status := BLOCKED\<rparr>)\<rparr>)"
      unfolding Let_def by blast
    with d s show ?thesis by (simp add: well_typedI [of _ _ _ "currentThread k"])
  next
    case False
    from P_loop_passes [OF pf k S False, of lev] obtain i where
      "Semaphore_P_loop pf s lev k = Inr (k\<lparr>semaphores := (semaphores k)(s \<mapsto> S\<lparr>sem_value := sem_value S - 1\<rparr>),
        history := history k @ [EvP s (currentThread k)], interrupt := i\<rparr>)"
      unfolding Let_def by blast
    with d S show ?thesis by (simp add: well_typedI [of _ _ _ "currentThread k"])
  qed
qed

lemma Acquire_loop_sound:
  assumes pf: "platform_ok pf" and k: "kinv pf k" "user_frames (frames k (currentThread k))"
    and off: "getLevel pf (interrupt k) = IntOff" and wt: "well_typed pf G k" and L: "locks k m = Some L"
  shows "sound pf G (Lock_Acquire_loop pf m lev k)"
proof -
  note d = well_typedD [OF wt k]
  have m: "m \<in> dom (locks k)" using L by blast
  show ?thesis
  proof (cases "held L = 0")
    case False
    from Acquire_loop_blocks [OF k off L False, of lev] obtain h C where
      "Lock_Acquire_loop pf m lev k = Inr (k\<lparr>heap := h,
        frames := (frames k)(currentThread k := SleepF # AcquireF m lev # frames k (currentThread k)),
        threads := (threads k)(currentThread k \<mapsto> C\<lparr>status := BLOCKED\<rparr>)\<rparr>)"
      unfolding Let_def by blast
    with d m show ?thesis by (simp add: well_typedI [of _ _ _ "currentThread k"])
  next
    case True
    from Acquire_loop_passes [OF pf k L True, of lev] obtain i where
      "Lock_Acquire_loop pf m lev k = Inr (k\<lparr>locks := (locks k)(m \<mapsto> L\<lparr>held := 1\<rparr>),
        history := history k @ [EvAcquire m (currentThread k)], interrupt := i\<rparr>)"
      unfolding Let_def by blast
    with d L show ?thesis by (simp add: well_typedI [of _ _ _ "currentThread k"] insert_absorb [OF m])
  qed
qed

text \<open>\<open>V\<close> may also run in an interrupt handler, when the frames are arbitrary.\<close>

lemma V_sound:
  assumes pf: "platform_ok pf" and k: "kinvF pf F k" and F: "\<And>t. waits_for (F t) = waits_for (frames k t)"
    and wt: "well_typed pf G k" and S: "semaphores k s = Some S"
  shows "\<exists>k'. Semaphore_V pf s k = Inr k' \<and> well_typed pf G k' \<and> kinvF pf F k' \<and>
    currentThread k' = currentThread k \<and> frames k' = frames k"
proof -
  from Semaphore_V_ok [OF pf k S] obtain th hp i k' where
    k'_eq: "k' = k\<lparr>threads := th, heap := hp,
      semaphores := (semaphores k)(s \<mapsto> S\<lparr>sem_value := sem_value S + 1\<rparr>),
      history := history k @ [EvV s], interrupt := i\<rparr>"
    and k': "kinvF pf F k'" "Semaphore_V pf s k = Inr k'" "wakes (SemQ s) k k'"
    unfolding Let_def by blast
  have "typed_thread pf G (dom (locks k)) T' (frames k t)" if "threads k' t = Some T'" for t T'
    by (rule others_wakes [OF k F _ _ k'(3) _ that]) (use wt in \<open>simp_all add: well_typed_def\<close>)
  then have "well_typed pf G k'"
    using wt S by (simp add: well_typed_def k'_eq)
  with k' show ?thesis by (auto simp: k'_eq)
qed

lemma handlers_sound:
  assumes pf: "platform_ok pf" and F: "\<And>t. waits_for (F t) = waits_for (fr t)" and ss: "set ss \<subseteq> e_sems G"
  shows "kinvF pf F k \<Longrightarrow> frames k = fr \<Longrightarrow> well_typed pf G k \<Longrightarrow>
    \<exists>k'. run_handlers pf ss k = Inr k' \<and> well_typed pf G k' \<and>
      currentThread k' = currentThread k \<and> frames k' = frames k"
  using ss
proof (induction ss arbitrary: k)
  case Nil
  then show ?case by simp
next
  case (Cons s ss)
  then have "objects G k" "s \<in> e_sems G" by (simp_all add: well_typed_def)
  from objectsD(1) [OF this] obtain S where S: "semaphores k s = Some S" ..
  from V_sound [OF pf Cons.prems(1) _ Cons.prems(3) S] Cons.prems(2) F obtain k1 where
    k1: "Semaphore_V pf s k = Inr k1" "well_typed pf G k1" "kinvF pf F k1"
      "currentThread k1 = currentThread k" "frames k1 = frames k" by auto
  from Cons.IH [OF k1(3) _ k1(2)] k1 Cons.prems show ?case by auto
qed

lemma Release_sound:
  assumes pf: "platform_ok pf" and k: "kinv pf k" and wt: "well_typed pf G k" and L: "locks k m = Some L"
  shows "sound pf G (Lock_Release pf m k)"
proof -
  from Lock_Release_ok [OF pf k [unfolded kinv_kinvF] L] obtain th hp i k' where
    k'_eq: "k' = k\<lparr>threads := th, heap := hp, locks := (locks k)(m \<mapsto> L\<lparr>held := 0\<rparr>),
      history := history k @ [EvRelease m (currentThread k)], interrupt := i\<rparr>"
    and k': "Lock_Release pf m k = Inr k'" "wakes (LockQ m) k k'"
    unfolding Let_def by blast
  have "typed_thread pf G (dom (locks k)) T' (frames k t)" if "threads k' t = Some T'" for t T'
    by (rule others_wakes [OF k [unfolded kinv_kinvF] _ _ _ k'(2) _ that])
       (use wt in \<open>simp_all add: well_typed_def\<close>)
  moreover have "m \<in> dom (locks k)" using L by blast
  ultimately have "well_typed pf G k'"
    using wt L by (simp add: well_typed_def insert_absorb k'_eq)
  with k'(1) show ?thesis by simp
qed


lemma Yield_sound:
  assumes pf: "platform_ok pf" and k: "kinv pf k" "user_frames (frames k (currentThread k))"
    and wt: "well_typed pf G k"
  shows "sound pf G (Thread_Yield pf (currentThread k) k)"
proof (cases "queue k ReadyQ")
  case Nil
  from Yield_alone [OF pf k Nil] wt show ?thesis by (auto simp: well_typed_def)
next
  case (Cons n q)
  let ?c = "currentThread k"
  note d = well_typedD [OF wt k]
  from Yield_switch [OF pf k Cons] obtain C T h m where n: "threads k n = Some T" "n \<noteq> ?c" and
    r: "Thread_Yield pf ?c k = Inr (k\<lparr>interrupt := m, heap := h, currentThread := n,
        threads := (threads k)(?c \<mapsto> C\<lparr>status := READY\<rparr>, n \<mapsto> T\<lparr>status := RUNNING\<rparr>),
        frames := (frames k)(?c := RunF # YieldF (getLevel pf (interrupt k)) # frames k ?c)\<rparr>)"
    unfolding Let_def by blast
  have "status T = READY" using kinv_placement(2) [OF k(1), of n] Cons n(1) by simp
  moreover have "typed_thread pf G (dom (locks k)) T (frames k n)" using wt n(1) by (simp add: well_typed_def)
  ultimately have "typed_thread pf G (dom (locks k)) (T\<lparr>status := RUNNING\<rparr>) (frames k n)"
    by (simp add: typed_thread_status(1))
  then have "others_typed pf G (dom (locks k)) ?c ((threads k)(n \<mapsto> T\<lparr>status := RUNNING\<rparr>)) (frames k)"
    using d(2) by (simp add: others_typed_def)
  moreover have "(threads k)(?c \<mapsto> C\<lparr>status := READY\<rparr>, n \<mapsto> T\<lparr>status := RUNNING\<rparr>) =
      (threads k)(n \<mapsto> T\<lparr>status := RUNNING\<rparr>, ?c \<mapsto> C\<lparr>status := READY\<rparr>)"
    using n(2) by (rule fun_upd_twist [OF not_sym])
  ultimately show ?thesis using d r by (simp add: well_typedI [of _ _ _ ?c])
qed

lemma Finish_sound:
  assumes pf: "platform_ok pf" and k: "kinv pf k" "user_frames (frames k (currentThread k))"
    and "objects G k" and "others_typed pf G (dom (locks k)) (currentThread k) (threads k) (frames k)"
    and "list_all (typed_frame pf G (dom (locks k))) (frames k (currentThread k))"
  shows "sound pf G (Thread_Finish pf (currentThread k) k)"
proof -
  let ?c = "currentThread k"
  from Finish_ok [OF pf k] obtain C i where
    "Thread_Finish pf ?c k = Inr (k\<lparr>interrupt := i, threadToBeDestroyed := ?c,
       threads := (threads k)(?c \<mapsto> C\<lparr>status := BLOCKED\<rparr>), frames := (frames k)(?c := SleepF # frames k ?c)\<rparr>)"
    unfolding Let_def by blast
  with assms(4-6) user_waits_for [OF k(2)] show ?thesis by (simp add: well_typedI [of _ _ _ ?c])
qed

lemma ForkNew_sound:
  assumes pf: "platform_ok pf" and k: "kinv pf k" "user_frames (frames k (currentThread k))"
    and wt: "well_typed pf G k" and func: "func \<in> e_procs G"
  shows "sound pf G (exec_stmt pf (ForkNew nm func arg) k)"
proof -
  let ?t = "fresh (heap k)" and ?c = "currentThread k"
  from ForkNew_ok [OF pf k, of nm func arg] obtain T h m where
    T: "machineState T (InitialPCState (host pf)) = Some func" and
    r: "exec_stmt pf (ForkNew nm func arg) k = Inr (k\<lparr>frames := (frames k)(?t := [RootF]),
      threads := (threads k)(?t \<mapsto> T), heap := h, interrupt := m\<rparr>)"
    unfolding Let_def by blast
  have "typed_thread pf G (dom (locks k)) T [RootF]" using T func by (simp add: typed_thread_def)
  then show ?thesis using r wt by (simp add: well_typed_def)
qed

lemma NewLocktest1_sound:
  assumes k: "kinv pf k" and wt: "well_typed pf G k"
  shows "sound pf G (exec_stmt pf (NewLocktest1 nm) k)"
proof -
  obtain l k1 where new: "new_Lock (CLiteral nm) k = (l, k1)" by fastforce
  have "wf k" using k by (simp add: kinv_def)
  from wf_new_lock(5) [OF this new] obtain h q where
    k1: "k1 = k\<lparr>heap := h, locks := (locks k)(l \<mapsto> \<lparr>lock_name = CLiteral nm, held = 0, lock_queue = q\<rparr>)\<rparr>"
    by blast
  have "objects G (k1\<lparr>locktest1 := l\<rparr>)" using wt by (auto simp: k1 well_typed_def objects_def)
  moreover have "typed_thread pf G (insert l (dom (locks k))) T (frames k t)" if "threads k t = Some T" for t T
    using wt that typed_thread_mono [of "dom (locks k)" "insert l (dom (locks k))" pf G T "frames k t"]
    by (auto simp: well_typed_def)
  ultimately show ?thesis using new by (simp add: well_typed_def k1)
qed

section \<open>Statements\<close>

lemma call_sound:
  assumes wt: "well_typed pf G k" and k: "kinv pf k" "user_frames (frames k (currentThread k))"
    and ss: "list_all (typed_stmt G) ss"
  shows "well_typed pf G (push (currentThread k) (CodeF ss) k)"
  using well_typedD [OF wt k] ss by (simp add: push_def well_typedI [of _ _ _ "currentThread k"])

lemma list_stmt_sound:
  assumes wt: "well_typed pf G k" and k: "kinv pf k" "user_frames (frames k (currentThread k))"
    and sl: "sl \<in> e_lists G"
  shows "sound pf G (exec_stmt pf (ListAppend sl x) k)" and "sound pf G (exec_stmt pf (WaitNonEmpty sl) k)"
    and "sound pf G (exec_stmt pf (TakeFirst sl) k)" and "sound pf G (exec_stmt pf (SynchAppend sl x) k)"
    and "sound pf G (exec_stmt pf (SynchRemove sl) k)"
proof -
  note d = well_typedD [OF wt k]
  from objectsD(3) [OF d(1) sl] obtain SL where SL: "synchlists k sl = Some SL" "sl_lock SL \<in> e_locks G"
    by blast
  have wf: "wf k" using k(1) by (simp add: kinv_def)
  have heap: "well_typed pf G (k\<lparr>heap := h\<rparr>)" for h using wt by (simp add: well_typed_def)
  have allowed: "allowed G (AssertionFailed ''synch.cc'' 144)" "allowed G (AssertionFailed ''synchlist.cc'' 79)"
    using sl by (auto simp: allowed_def)
  from queue_append [OF wf, of "SynchQ sl" "sl_list SL" x] SL heap
  show "sound pf G (exec_stmt pf (ListAppend sl x) k)" by auto
  from wf_queueE [OF wf, of "SynchQ sl" "sl_list SL"] SL obtain es where
    "heap_ok (heap k)" "lists_of (heap k) (sl_list SL) = Some es" by auto
  from IsEmpty_spec [OF this] SL wt allowed(1) show "sound pf G (exec_stmt pf (WaitNonEmpty sl) k)"
    by (simp add: SynchList_wait_def Condition_Wait_def)
  from synch_remove [OF k(1) SL(1)] obtain y h where "List_Remove (sl_list SL) (heap k) = Inr (y, h)" by blast
  with SL heap allowed(2) show "sound pf G (exec_stmt pf (TakeFirst sl) k)"
    by (simp add: SynchList_take_def assertE_def log_event_def well_typed_def)
  have "list_all (typed_stmt G) (SynchList_Append SL sl x)" "list_all (typed_stmt G) (SynchList_Remove SL sl)"
    using sl SL(2) by (simp_all add: SynchList_Append_def SynchList_Remove_def)
  with call_sound [OF wt k] SL show "sound pf G (exec_stmt pf (SynchAppend sl x) k)"
    "sound pf G (exec_stmt pf (SynchRemove sl) k)" by simp_all
qed

lemma stmt_sound:
  assumes pf: "platform_ok pf" and k: "kinv pf k" "user_frames (frames k (currentThread k))"
    and wt: "well_typed pf G k" and s: "typed_stmt G s" "s \<noteq> CurrentFinish"
  shows "sound pf G (exec_stmt pf s k)"
proof -
  note d = well_typedD [OF wt k]
  from interrupts_off [OF pf k] obtain i where
    off: "set_level pf IntOff k = (getLevel pf (interrupt k), k\<lparr>interrupt := i\<rparr>)"
      "kinv pf (k\<lparr>interrupt := i\<rparr>)" "getLevel pf i = IntOff" .
  have wti: "well_typed pf G (k\<lparr>interrupt := i\<rparr>)" using wt by (simp add: well_typed_def)
  show ?thesis
  proof (cases s)
    case (Printf str)
    then show ?thesis using wt by (simp add: printf_def well_typed_def)
  next
    case CurrentYield
    then show ?thesis using Yield_sound [OF pf k wt] by simp
  next
    case (ForkNew nm func arg)
    then show ?thesis using ForkNew_sound [OF pf k wt] s(1) by (simp only: typed_stmt.simps)
  next
    case (NewLocktest1 nm)
    then show ?thesis using NewLocktest1_sound [OF k(1) wt] by (simp only:)
  next
    case (SemP sm)
    then show ?thesis using P_loop_sound [OF pf off(2) _ _ wti, of sm] off k(2) s(1)
      by (simp add: Semaphore_P_def)
  next
    case (SemV sm)
    with s(1) objectsD(1) [OF d(1), of sm] obtain S where "semaphores k sm = Some S" by auto
    from V_sound [OF pf k(1) [unfolded kinv_kinvF] refl wt this] SemV show ?thesis by auto
  next
    case (Acquire r)
    with s(1) objectsD(2) [OF d(1), of r] obtain L where "locks k (lock_ptr r k) = Some L" by auto
    with Acquire_loop_sound [OF pf off(2) _ _ wti, of "lock_ptr r k" L] Acquire off k(2) show ?thesis
      by (simp add: Lock_Acquire_def)
  next
    case (Release r)
    with s(1) objectsD(2) [OF d(1), of r] obtain L where "locks k (lock_ptr r k) = Some L" by auto
    from Release_sound [OF pf k(1) wt this] Release show ?thesis by simp
  qed (use s wt list_stmt_sound [OF wt k] in
       \<open>simp_all add: Condition_Signal_def Condition_Broadcast_def del: exec_stmt.simps(13-19)\<close>)
qed


section \<open>Steps\<close>

lemma resume_sound:
  assumes k: "kinv pf k" and wt: "well_typed pf G k" and fs: "resumable (frames k (currentThread k))"
  shows "sound pf G (Scheduler_Run_resume k)"
proof -
  from Run_resume_ok [OF k fs] obtain th fr where
    r: "Scheduler_Run_resume k = Inr (k\<lparr>threads := th, frames := fr, threadToBeDestroyed := NULL\<rparr>)"
    "\<And>t. t \<noteq> threadToBeDestroyed k \<Longrightarrow> th t = threads k t \<and> fr t = frames k t"
    "threadToBeDestroyed k \<noteq> NULL \<Longrightarrow> th (threadToBeDestroyed k) = None" by blast
  show ?thesis
  proof (cases "threadToBeDestroyed k = NULL")
    case True
    then show ?thesis using wt by (simp add: Scheduler_Run_resume_def)
  next
    case False
    have "typed_thread pf G (dom (locks k)) T (fr t)" if "th t = Some T" for t T
      using wt that r(2) [of t] r(3) [OF False] unfolding well_typed_def by (metis option.distinct(1))
    then show ?thesis using wt r(1) by (simp add: well_typed_def)
  qed
qed

lemma sleep_sound:
  assumes pf: "platform_ok pf" and prog: "typed_program pf G"
    and k: "kinvF pf ((frames k)(currentThread k := SleepF # fs)) k"
    and fs: "frames k (currentThread k) = fs" "resumable fs" and wt: "well_typed pf G k"
  shows "if queue k ReadyQ = [] \<and> Idle pf (interrupt k) = None then Sleep_loop pf k = Inl Halted
    else sound pf G (Sleep_loop pf k)"
proof (cases "queue k ReadyQ")
  case (Cons n q)
  let ?c = "currentThread k"
  from Sleep_dispatch [OF k fs Cons] obtain T hp where T: "threads k n = Some T" and
    r: "Sleep_loop pf k = Inr (k\<lparr>heap := hp, currentThread := n, threads := (threads k)(n \<mapsto> T\<lparr>status := RUNNING\<rparr>),
      frames := (frames k)(?c := RunF # fs)\<rparr>)"
    unfolding Let_def by blast
  have inv: "inv pf (queue k) (threads k) ((frames k)(?c := SleepF # fs)) ?c
      (threadToBeDestroyed k) (getLevel pf (interrupt k))" using k by (simp add: kinvF_def)
  have "place (threads k n) (((frames k)(?c := SleepF # fs)) n) = Some ReadyQ"
    using invD(2) [OF inv, of ReadyQ n] Cons by simp
  then have "status T = READY"
    using T by (auto simp: place_def dest: waits_for_queue split: ThreadStatus.splits)
  moreover have ty: "typed_thread pf G (dom (locks k)) T (frames k n)" using wt T by (simp add: well_typed_def)
  ultimately have n: "typed_thread pf G (dom (locks k)) (T\<lparr>status := RUNNING\<rparr>) (frames k n)"
    by (simp add: typed_thread_status(1))
  have root: "fs \<noteq> [RootF]" by (rule resumable_not_root [OF fs(2)])
  have run: "typed_thread pf G D X (RunF # fs) = typed_thread pf G D X fs" for D X
    using root by (simp add: typed_thread_def)
  have "typed_thread pf G (dom (locks k)) X (((frames k)(?c := RunF # fs)) t)"
    if "((threads k)(n \<mapsto> T\<lparr>status := RUNNING\<rparr>)) t = Some X" for t X
    using that wt n fs(1) run by (auto simp: well_typed_def split: if_splits)
  then have "sound pf G (Sleep_loop pf k)" using r wt by (simp add: well_typed_def)
  then show ?thesis using Cons by simp
next
  case Nil
  have "wf k" using k by (simp add: kinvF_def)
  note none = FindNextToRun_none [OF this Nil]
  show ?thesis
  proof (cases "Idle pf (interrupt k)")
    case None
    then show ?thesis using none Nil by (simp add: Sleep_loop_def)
  next
    case (Some r)
    let ?F = "(frames k)(currentThread k := SleepF # fs)"
    obtain ss m where r: "r = (ss, m)" by fastforce
    have ss: "set ss \<subseteq> e_sems G" using prog Some r unfolding typed_program_def by blast
    have F: "waits_for (?F t) = waits_for (frames k t)" for t using fs(1) by simp
    have "kinvF pf ?F (k\<lparr>interrupt := m\<rparr>)"
      using kinvF_level [OF k, of m] platform_okD(5) [OF pf Some [unfolded r]] kinvF_in_kernel [OF k] by simp
    from handlers_sound [OF pf F ss this] wt obtain k1 where
      k1: "run_handlers pf ss (k\<lparr>interrupt := m\<rparr>) = Inr k1" "well_typed pf G k1"
        "currentThread k1 = currentThread k" "frames k1 = frames k"
      by (auto simp: well_typed_def)
    have root: "fs \<noteq> [RootF]" by (rule resumable_not_root [OF fs(2)])
    then have "well_typed pf G (push (currentThread k1) SleepF k1)"
      using k1(2-4) fs(1) by (auto simp: well_typed_def push_def typed_thread_def)
    then show ?thesis using none Some r k1(1) by (simp add: Sleep_loop_def)
  qed
qed

text \<open>
  All other frames. \<open>k\<close> is the state after the frame has been popped; its thread need not end by
  \<open>Finish\<close> when the frame does.
\<close>

lemma frame_sound:
  assumes pf: "platform_ok pf" and prog: "typed_program pf G"
    and k: "kinv pf k" "user_frames (frames k (currentThread k))"
    and obj: "objects G k" and others: "others_typed pf G (dom (locks k)) (currentThread k) (threads k) (frames k)"
    and f: "list_all (typed_frame pf G (dom (locks k))) (f # frames k (currentThread k))"
      "ends pf (f # frames k (currentThread k))" "f \<noteq> RunF" "f \<noteq> SleepF" "f \<noteq> RootF"
    and off: "\<not> user_frame f \<Longrightarrow> getLevel pf (interrupt k) = IntOff"
  shows "sound pf G (exec_frame pf f k)"
proof -
  let ?c = "currentThread k"
  note root = user_not_root [OF k(2)]
  have wt: "well_typed pf G k" if "ends pf (frames k ?c)"
    using that obj others f(1) root by (simp add: well_typedI [of _ _ _ ?c])
  note fin = Finish_sound [OF pf k obj others]
  show ?thesis
  proof (cases f)
    case (CallF a arg)
    show ?thesis
    proof (cases "a = addr_ThreadFinish pf")
      case True
      then show ?thesis using CallF fin f(1) prog by (simp add: call_addr_def typed_program_def)
    next
      case False
      then have w: "well_typed pf G k" using f(2) CallF by (simp add: wt)
      show ?thesis
        using call_sound [OF w k, of "program pf a arg"] w f(1) CallF False prog
        by (auto simp: call_addr_def well_typed_def typed_program_def)
    qed
  next
    case (CodeF ss)
    show ?thesis
    proof (cases ss)
      case Nil
      then show ?thesis using CodeF f(2) wt by simp
    next
      case (Cons s ss')
      let ?k = "push ?c (CodeF ss') k"
      have k': "kinv pf ?k" "user_frames (frames ?k (currentThread ?k))"
        using kinv_push [OF k, of "CodeF ss'"] by simp_all
      have ty: "typed_stmt G s" "list_all (typed_frame pf G (dom (locks k))) (frames ?k ?c)"
        using f(1) CodeF Cons by (simp_all add: push_def)
      have "sound pf G (exec_stmt pf s ?k)"
      proof (cases "s = CurrentFinish")
        case True
        with Finish_sound [OF pf k'] obj others ty(2) show ?thesis by (simp add: push_def)
      next
        case False
        then have "ends pf (frames ?k ?c)" using f(2) CodeF Cons by (simp add: push_def)
        then have "well_typed pf G ?k"
          using obj others ty(2) by (simp add: push_def well_typedI [of _ _ _ ?c])
        from stmt_sound [OF pf k' this ty(1) False] show ?thesis .
      qed
      then show ?thesis using CodeF Cons by simp
    qed
  next
    case (YieldF lev)
    then show ?thesis using f(2) wt pf by (simp add: set_level_ok well_typed_def)
  next
    case (SemPF s lev)
    then show ?thesis using f(1,2) wt P_loop_sound [OF pf k off] by simp
  next
    case (AcquireF m lev)
    then obtain L where "locks k m = Some L" using f(1) by auto
    then show ?thesis using f(2) AcquireF wt Acquire_loop_sound [OF pf k off] by simp
  qed (use f in simp_all)
qed

lemma root_sound:
  assumes k: "kinv pf k" and T: "threads k (currentThread k) = Some T" "thread_ok pf T [RootF]"
    and nil: "frames k (currentThread k) = []"
    and obj: "objects G k" and others: "others_typed pf G (dom (locks k)) (currentThread k) (threads k) (frames k)"
    and ty: "typed_thread pf G (dom (locks k)) T [RootF]"
  shows "sound pf G (ThreadRoot pf k)"
proof -
  from ThreadRoot_ok [OF k T nil] obtain pc arg where pc: "machineState T (InitialPCState (host pf)) = Some pc"
    and r: "ThreadRoot pf k = Inr (k\<lparr>frames := (frames k)(currentThread k :=
        [CallF (addr_InterruptEnable pf) 0, CallF pc arg, CallF (addr_ThreadFinish pf) 0])\<rparr>)"
    unfolding Let_def by blast
  have "pc \<in> e_procs G" using ty pc by (simp add: typed_thread_def)
  with r obj others show ?thesis by (simp add: well_typedI [of _ _ _ "currentThread k"])
qed

lemma step_sound:
  assumes pf: "platform_ok pf" and prog: "typed_program pf G" and k: "kinv pf k" and wt: "well_typed pf G k"
  shows "if halting pf k then step pf k = Inl Halted else sound pf G (step pf k)"
proof -
  let ?c = "currentThread k"
  have inv: "inv pf (queue k) (threads k) (frames k) ?c (threadToBeDestroyed k) (getLevel pf (interrupt k))"
    and wf: "wf k" using k by (simp_all add: kinv_def)
  from invD(6) [OF inv] obtain C where C: "threads k ?c = Some C" "running (frames k ?c)"
    "asleep (frames k ?c) \<longleftrightarrow> status C \<noteq> RUNNING" by blast
  have ty: "typed_thread pf G (dom (locks k)) C (frames k ?c)" using wt C(1) by (simp add: well_typed_def)
  then have "frames k ?c \<noteq> []" using C(3) by (auto simp: typed_thread_def)
  then obtain f fs where fs: "frames k ?c = f # fs" by (cases "frames k ?c") auto
  define p where "p = k\<lparr>frames := (frames k)(?c := fs)\<rparr>"
  have step: "step pf k = exec_frame pf f p" using fs by (simp add: step_def pop_def p_def)
  have p: "currentThread p = ?c" "frames p ?c = fs" "threads p = threads k" "locks p = locks k"
    "queue p = queue k" "interrupt p = interrupt k" by (simp_all add: p_def)
  have obj: "objects G p" and others: "others_typed pf G (dom (locks p)) ?c (threads p) (frames p)"
    using wt by (simp_all add: p_def well_typed_at [of pf G k ?c])
  have all: "list_all (typed_frame pf G (dom (locks k))) (f # fs)" using ty fs by (simp add: typed_thread_def)
  show ?thesis
  proof (cases "f = SleepF")
    case True
    from C(2) fs True have res: "resumable fs" by (auto simp: running_def)
    have "kinvF pf ((frames p)(currentThread p := SleepF # fs)) p"
      using k fs True by (simp add: p_def kinv_kinvF fun_upd_idem)
    moreover have "well_typed pf G p"
      using obj others all ty fs True C(1) resumable_not_root [OF res]
      by (intro well_typedI [of _ _ _ ?c]) (auto simp: p typed_thread_def)
    ultimately show ?thesis
      using sleep_sound [OF pf prog, of p fs] res True step fs by (simp add: p halting_def)
  next
    case False
    then have run: "status C = RUNNING" and nh: "\<not> halting pf k"
      using C(3) fs by (cases f; simp add: halting_def)+
    have ends: "ends pf (f # fs)" using ty run fs by (simp add: typed_thread_def)
    note i = inv_pop [OF inv fs False]
    have kp: "kinv pf p" using i(1) wf by (simp add: p_def kinv_def)
    have "sound pf G (exec_frame pf f p)"
    proof (cases "f = RunF \<or> f = RootF")
      case True
      then show ?thesis
      proof
        assume f: "f = RunF"
        have "well_typed pf G p"
          using obj others all ends f resumable_not_root [OF i(3)]
          by (intro well_typedI [of _ _ _ ?c]) (simp_all add: p)
        from resume_sound [OF kp this] i(3) f show ?thesis by (simp add: p)
      next
        assume f: "f = RootF"
        then have "fs = []" using C(2) fs by (auto simp: running_def)
        with root_sound [OF kp, of C] C(1) invD(3) [OF inv C(1)] ty fs f obj others show ?thesis
          by (simp add: p)
      qed
    next
      case notRun: False
      have user: "user_frames (frames p (currentThread p))" using i(4) notRun p by simp
      have off: "\<not> user_frame f \<Longrightarrow> getLevel pf (interrupt p) = IntOff" using i(2) by (simp add: p_def)
      show ?thesis
        by (rule frame_sound [OF pf prog kp user obj]) (use others all ends notRun False off in \<open>simp_all add: p\<close>)
    qed
    then show ?thesis using nh step by simp
  qed
qed

lemma reachable_typed:
  assumes pf: "platform_ok pf" and prog: "typed_program pf G" and k0: "kinv pf k0" "well_typed pf G k0"
    and "reachable pf k0 k"
  shows "well_typed pf G k"
  using assms(5)
proof (induction rule: reachable.induct)
  case reach_init
  show ?case by (rule k0(2))
next
  case (reach_step k k')
  have k: "kinv pf k" by (rule reachable_kinv [OF pf reach_step.hyps(1) k0(1)])
  from reach_step.hyps(2) show ?case
  proof (cases rule: sys_stepE)
    case thread_step
    with step_sound [OF pf prog k reach_step.IH] show ?thesis by (simp split: if_splits)
  next
    case time_slice
    have inv: "inv pf (queue k) (threads k) (frames k) (currentThread k)
        (threadToBeDestroyed k) (getLevel pf (interrupt k))" using k by (simp add: kinv_def)
    have "\<not> in_kernel (frames k (currentThread k))" using invD(8) [OF inv] time_slice(1) by auto
    then have "user_frames (frames k (currentThread k))" using invD(6) [OF inv] running_user by blast
    from Yield_sound [OF pf k this reach_step.IH] time_slice(2) show ?thesis by simp
  next
    case (device s)
    show ?thesis
    proof (cases "semaphores k s")
      case None
      then show ?thesis using device by (simp add: Semaphore_V_def set_level_def case_prod_unfold Let_def)
    next
      case (Some S)
      from V_sound [OF pf k [unfolded kinv_kinvF] refl reach_step.IH Some] device show ?thesis by auto
    qed
  qed
qed

end
