(* ===== verification/TypeProps.thy ===== *)
theory TypeProps
  imports WellTyped
begin

text \<open>
  Typed programs do not go wrong, and the test programs of \<open>threadtest.cc\<close> are typed.
\<close>

section \<open>Progress\<close>

text \<open>
  C14: Typed programs. In every state that a typed program reaches, time slices and device interrupts
  included, the machine halts for want of a thread, or the next step succeeds and its state is typed
  again, or it fails one of the two assertions about empty lists and \<open>NULL\<close> items: no bad pointer is
  followed and no thread runs off the bottom of its stack.
\<close>

theorem well_typed_progress:
  assumes "platform_ok pf" and "typed_program pf G" and "kinv pf k0" and "well_typed pf G k0"
    and "reachable pf k0 k"
  shows "if halting pf k then step pf k = Inl Halted
    else (\<exists>k'. step pf k = Inr k' \<and> well_typed pf G k') \<or>
      (e_lists G \<noteq> {} \<and> (step pf k = Inl (AssertionFailed ''synch.cc'' 144) \<or>
         step pf k = Inl (AssertionFailed ''synchlist.cc'' 79)))"
proof -
  have "kinv pf k" by (rule reachable_kinv [OF assms(1,5,3)])
  from step_sound [OF assms(1,2) this reachable_typed [OF assms]] show ?thesis
    by (cases "step pf k") (auto simp: allowed_def)
qed

theorem well_typed_progress_witness:
  "\<exists>k'. step plain_machine (solo 0 [SemV 6, Release (LockAt 4), CurrentFinish]) = Inr k'"
proof -
  let ?k0 = "solo 0 [SemV 6, Release (LockAt 4), CurrentFinish]"
  let ?G = "\<lparr>e_sems = {6}, e_locks = {4}, e_lists = {}, e_global = False, e_procs = {10}\<rparr>"
  have "typed_stmt ?G s" if "s \<in> set (SimpleThread_loop w i n)" for s w i n
    using that by (auto simp: SimpleThread_loop_def)
  then have "typed_program plain_machine ?G"
    by (simp add: typed_program_def plain_machine_def test_program_def SimpleThread_def list_all_iff)
  moreover have "well_typed plain_machine ?G ?k0"
    by (auto simp: well_typed_def objects_def solo_def typed_thread_def)
  ultimately have "if halting plain_machine ?k0 then step plain_machine ?k0 = Inl Halted
      else \<exists>k'. step plain_machine ?k0 = Inr k'"
    using well_typed_progress [OF plain_machine_ok _ solo_kinv(1) _ reach_init, of ?G 0 "[SemV 6, Release (LockAt 4), CurrentFinish]"]
    by auto
  then show ?thesis by (simp add: halting_def solo_def)
qed

section \<open>The test programs\<close>

text \<open>The types of the ping-pong test and of the lock test.\<close>

definition ping_types :: "word32 \<Rightarrow> env" where
  "ping_types aS = \<lparr>e_sems = {}, e_locks = {}, e_lists = {}, e_global = False, e_procs = {aS}\<rparr>"

definition lock_types :: "word32 \<Rightarrow> word32 \<Rightarrow> env" where
  "lock_types a1 a2 = \<lparr>e_sems = {}, e_locks = {}, e_lists = {}, e_global = True, e_procs = {a1, a2}\<rparr>"

text \<open>No device is opened by the tests, so that the handlers run by \<open>Idle\<close> signal no semaphore.\<close>

definition no_devices :: "'m platform \<Rightarrow> bool" where
  "no_devices pf \<longleftrightarrow> (\<forall>m ss m'. Idle pf m = Some (ss, m') \<longrightarrow> ss = [])"

lemma SimpleThread_typed: "list_all (typed_stmt G) (SimpleThread w)"
  by (auto simp: SimpleThread_def SimpleThread_loop_def list_all_iff)

lemma tests_typed:
  assumes "no_devices pf" and "addr_ThreadFinish pf \<noteq> addr_InterruptEnable pf"
    and "\<And>a arg. program pf a arg = test_program aS a1 a2 a arg"
  shows "typed_program pf (ping_types aS)" and "typed_program pf (lock_types a1 a2)"
proof -
  have idle: "\<forall>m ss. (\<exists>m'. Idle pf m = Some (ss, m')) \<longrightarrow> ss = []"
    using assms(1) unfolding no_devices_def by blast
  show "typed_program pf (ping_types aS)" "typed_program pf (lock_types a1 a2)"
    using idle assms(2) SimpleThread_typed unfolding typed_program_def assms(3)
    by (simp_all add: test_program_def ping_types_def lock_types_def LockThread1_def LockThread2_def)
qed

text \<open>Before the lock test has made its lock, only the main thread exists.\<close>

definition before_lock :: "'m platform \<Rightarrow> stmt list \<Rightarrow> 'm kernel \<Rightarrow> bool" where
  "before_lock pf ss k \<longleftrightarrow> kinv pf k \<and> (\<forall>ow. queue k ow = []) \<and> semaphores k = Map.empty \<and>
     locks k = Map.empty \<and> history k = [] \<and> threads k = [3 \<mapsto> first_thread] \<and> currentThread k = 3 \<and>
     frames k = (\<lambda>_. [])(3 := [CodeF (NewLocktest1 ''LockTest1'' # ss)])"

lemma before_lock_step:
  assumes b: "before_lock pf ss k" and G: "G = lock_types a1 a2"
    and ss: "list_all (typed_stmt G) ss" "CurrentFinish \<in> set ss"
  shows "\<exists>k'. step pf k = Inr k' \<and> well_typed pf G k'"
proof -
  let ?k = "k\<lparr>frames := (frames k)(3 := [CodeF ss])\<rparr>"
  have k: "kinv pf k" "threads k = [3 \<mapsto> first_thread]" "currentThread k = 3"
    "frames k 3 = [CodeF (NewLocktest1 ''LockTest1'' # ss)]" using b by (simp_all add: before_lock_def)
  obtain l k1 where new: "new_Lock (CLiteral ''LockTest1'') ?k = (l, k1)" by fastforce
  have "wf ?k" using k(1) by (simp add: kinv_def)
  from wf_new_lock(5) [OF this new] obtain h q where
    k1: "k1 = ?k\<lparr>heap := h, locks := (locks k)(l \<mapsto> \<lparr>lock_name = CLiteral ''LockTest1'', held = 0, lock_queue = q\<rparr>)\<rparr>"
    by auto
  have "step pf k = Inr (k1\<lparr>locktest1 := l\<rparr>)"
    using k new by (simp add: step_def pop_def push_def)
  moreover have "well_typed pf G (k1\<lparr>locktest1 := l\<rparr>)"
    using k(2) ss by (simp add: k1 well_typed_def objects_def typed_thread_def G) (simp add: lock_types_def)
  ultimately show ?thesis by blast
qed

lemma reachable_lock_test:
  assumes pf: "platform_ok pf" and prog: "typed_program pf (lock_types a1 a2)"
    and ss: "list_all (typed_stmt (lock_types a1 a2)) ss" "CurrentFinish \<in> set ss"
    and k0: "before_lock pf ss k0" and "reachable pf k0 k"
  shows "before_lock pf ss k \<or> (kinv pf k \<and> well_typed pf (lock_types a1 a2) k)"
  using assms(6)
proof (induction rule: reachable.induct)
  case reach_init
  show ?case using k0 by simp
next
  case (reach_step k k')
  show ?case
  proof (cases "before_lock pf ss k")
    case False
    then have "kinv pf k" "well_typed pf (lock_types a1 a2) k" using reach_step.IH by simp_all
    with reachable_typed [OF pf prog this reachable.reach_step [OF reach_init reach_step.hyps(2)]]
      sys_step_kinv [OF pf _ reach_step.hyps(2)] show ?thesis by blast
  next
    case True
    then have k: "kinv pf k" "queue k ReadyQ = []" "semaphores k = Map.empty" "currentThread k = 3"
      and user: "user_frames (frames k (currentThread k))" by (simp_all add: before_lock_def)
    note inv = sys_step_kinv [OF pf k(1) reach_step.hyps(2)]
    from reach_step.hyps(2) show ?thesis
    proof (cases rule: sys_stepE)
      case thread_step
      with before_lock_step [OF True refl ss] inv show ?thesis by auto
    next
      case time_slice
      with Yield_alone [OF pf k(1) user k(2)] True inv show ?thesis by (auto simp: before_lock_def)
    next
      case (device s)
      with k(3) show ?thesis by (simp add: Semaphore_V_def set_level_def case_prod_unfold Let_def)
    qed
  qed
qed

text \<open>
  C13: The tests do not go wrong. From \<open>main\<close>, whatever the arguments choose, under every interleaving
  with time slices and interrupts, every step succeeds until the machine halts for want of a thread.
\<close>

theorem tests_never_fail:
  assumes pf: "platform_ok pf" and "no_devices pf" and "addr_ThreadFinish pf \<noteq> addr_InterruptEnable pf"
    and prog: "\<And>a arg. program pf a arg = test_program aS a1 a2 a arg"
    and main: "main pf hardware aS a1 a2 argv = Inr k0" and r: "reachable pf k0 k"
  shows "if halting pf k then step pf k = Inl Halted else \<exists>k'. step pf k = Inr k'"
proof -
  from main_state [OF main] obtain opt testnum where
    k0_eq: "k0 = (kernel0 (Enable pf (hardware opt)))\<lparr>heap := first_heap, threads := [3 \<mapsto> first_thread],
      frames := (\<lambda>_. [])(3 := [CodeF (main_code testnum aS a1 a2)]), currentThread := 3, readyList := 2\<rparr>"
    by blast
  note k0 = main_kinv [OF pf main]
  note ty = tests_typed [OF assms(2-4)]
  show ?thesis
  proof (cases "testnum = 2")
    case False
    have "list_all (typed_stmt (ping_types aS)) (main_code testnum aS a1 a2)"
      "CurrentFinish \<in> set (main_code testnum aS a1 a2)"
      using False SimpleThread_typed [of "ping_types aS" 0]
      by (simp_all add: main_code_def ThreadTest_def ThreadTest1_def) (simp add: ping_types_def)
    then have "well_typed pf (ping_types aS) k0"
      by (simp add: well_typed_def objects_def typed_thread_def k0_eq) (simp add: ping_types_def)
    from step_sound [OF pf ty(1) reachable_kinv [OF pf r k0(1)] reachable_typed [OF pf ty(1) k0(1) this r]]
    show ?thesis by (cases "step pf k") (auto simp: allowed_def ping_types_def split: if_splits)
  next
    case True
    let ?ss = "[ForkNew ''one'' a1 0, ForkNew ''two'' a2 0, CurrentFinish]"
    have "before_lock pf ?ss k0"
      using k0 by (simp add: before_lock_def)
        (simp add: k0_eq True kernel0_def main_code_def ThreadTest_def LockTest1_def)
    moreover have ss: "list_all (typed_stmt (lock_types a1 a2)) ?ss" "CurrentFinish \<in> set ?ss"
      by (simp_all add: lock_types_def)
    ultimately have "before_lock pf ?ss k \<or> (kinv pf k \<and> well_typed pf (lock_types a1 a2) k)"
      using reachable_lock_test [OF pf ty(2) _ _ _ r] by blast
    then show ?thesis
    proof
      assume b: "before_lock pf ?ss k"
      then have "\<not> halting pf k" by (simp add: before_lock_def halting_def)
      with before_lock_step [OF b refl ss] show ?thesis by auto
    next
      assume "kinv pf k \<and> well_typed pf (lock_types a1 a2) k"
      then have "if halting pf k then step pf k = Inl Halted else sound pf (lock_types a1 a2) (step pf k)"
        using step_sound [OF pf ty(2), of k] by blast
      then show ?thesis
        by (cases "step pf k") (auto simp: allowed_def lock_types_def split: if_splits)
    qed
  qed
qed

theorem tests_never_fail_witness:
  "\<exists>k'. step plain_machine (start 2) = Inr k'"
proof -
  have p: "no_devices plain_machine" "addr_ThreadFinish plain_machine \<noteq> addr_InterruptEnable plain_machine"
    "\<And>a arg. program plain_machine a arg = test_program 10 11 12 a arg"
    by (simp_all add: no_devices_def plain_machine_def)
  have "\<not> halting plain_machine (start 2)" by (simp add: halting_def start_def)
  with tests_never_fail [OF plain_machine_ok p start_main(2) reach_init] show ?thesis by simp
qed

end
