(* ===== verification/NoDeadlock.thy ===== *)
theory NoDeadlock
  imports CriticalSections TypeProps
begin

text \<open>
  Deadlocks of programs with bracketed critical sections. A thread that waits for nothing (it has
  finished) does not hold the lock, so when the machine halts while threads wait for the lock, its
  holder waits for something else. A program with one lock and no semaphore cannot deadlock.
\<close>

section \<open>Only the creation of a lock adds one\<close>

lemma lock_set_simps [simp]:
  "locks (snd (set_level pf lev k)) = locks k" "locks (push t f k) = locks k"
  "locks (log_event ev k) = locks k" "locks (printf s k) = locks k" "locks (SWITCH t u k) = locks k"
  "locks (pop k) = locks k"
  by (simp_all add: set_level_def push_def log_event_def printf_def SWITCH_def pop_def case_prod_unfold Let_def)

lemma setStatus_locks: "setStatus t st k = Inr k' \<Longrightarrow> locks k' = locks k"
  by (auto simp: setStatus_def bindE_eq_Inr)

lemma scheduler_locks:
  "Scheduler_ReadyToRun t k = Inr k' \<Longrightarrow> locks k' = locks k"
  "Scheduler_FindNextToRun k = Inr (t, k') \<Longrightarrow> locks k' = locks k"
  "Scheduler_Run pf t k = Inr k' \<Longrightarrow> locks k' = locks k"
  "Scheduler_Run_resume k = Inr k' \<Longrightarrow> locks k' = locks k"
  by (auto simp: Scheduler_ReadyToRun_def Scheduler_FindNextToRun_def Scheduler_Run_def Scheduler_Run_resume_def
      delete_Thread_def Let_def bindE_eq_Inr dest!: setStatus_locks split: if_splits)

lemma thread_locks:
  "Thread_Sleep pf t k = Inr k' \<Longrightarrow> locks k' = locks k"
  "Thread_Finish pf t k = Inr k' \<Longrightarrow> locks k' = locks k"
  "Thread_Yield pf t k = Inr k' \<Longrightarrow> locks k' = locks k"
  "Thread_Fork pf t func arg k = Inr k' \<Longrightarrow> locks k' = locks k"
proof -
  show sleep: "Thread_Sleep pf t k = Inr k' \<Longrightarrow> locks k' = locks k" for t k k'
    by (auto simp: Thread_Sleep_def bindE_eq_Inr dest!: setStatus_locks)
  show "Thread_Finish pf t k = Inr k' \<Longrightarrow> locks k' = locks k"
    by (auto simp: Thread_Finish_def Let_def bindE_eq_Inr dest!: sleep)
  show "Thread_Yield pf t k = Inr k' \<Longrightarrow> locks k' = locks k"
    by (auto simp: Thread_Yield_def case_prod_unfold Let_def bindE_eq_Inr dest!: scheduler_locks split: if_splits)
  show "Thread_Fork pf t func arg k = Inr k' \<Longrightarrow> locks k' = locks k"
    by (auto simp: Thread_Fork_def Thread_StackAllocate_def case_prod_unfold Let_def bindE_eq_Inr
        dest!: scheduler_locks)
qed

lemma V_locks: "Semaphore_V pf s k = Inr k' \<Longrightarrow> locks k' = locks k"
  by (auto simp: Semaphore_V_def case_prod_unfold Let_def bindE_eq_Inr dest!: scheduler_locks split: if_splits)

lemma P_loop_locks: "Semaphore_P_loop pf s lev k = Inr k' \<Longrightarrow> locks k' = locks k"
  by (auto simp: Semaphore_P_loop_def Let_def bindE_eq_Inr dest!: thread_locks split: if_splits)

lemma handlers_locks: "run_handlers pf ss k = Inr k' \<Longrightarrow> locks k' = locks k"
  by (induction ss arbitrary: k) (auto simp: bindE_eq_Inr dest: V_locks)

lemma sleep_loop_locks: "Sleep_loop pf k = Inr k' \<Longrightarrow> locks k' = locks k"
  by (auto simp: Sleep_loop_def bindE_eq_Inr dest!: scheduler_locks handlers_locks
      split: if_splits option.splits)

lemma lock_operations_dom:
  "Lock_Acquire_loop pf m lev k = Inr k' \<Longrightarrow> dom (locks k') = dom (locks k)"
  "Lock_Acquire pf m k = Inr k' \<Longrightarrow> dom (locks k') = dom (locks k)"
  "Lock_Release pf m k = Inr k' \<Longrightarrow> dom (locks k') = dom (locks k)"
proof -
  show loop: "Lock_Acquire_loop pf m lev k = Inr k' \<Longrightarrow> dom (locks k') = dom (locks k)" for lev k k'
    by (auto simp: Lock_Acquire_loop_def Let_def bindE_eq_Inr dest!: thread_locks split: if_splits)
  show "Lock_Acquire pf m k = Inr k' \<Longrightarrow> dom (locks k') = dom (locks k)"
    using loop by (fastforce simp: Lock_Acquire_def case_prod_unfold Let_def)
  show "Lock_Release pf m k = Inr k' \<Longrightarrow> dom (locks k') = dom (locks k)"
    by (auto simp: Lock_Release_def case_prod_unfold Let_def bindE_eq_Inr dest!: scheduler_locks
        split: if_splits)
qed

lemma stmt_locks:
  assumes "exec_stmt pf s k = Inr k'" and "\<And>nm. s \<noteq> NewLocktest1 nm"
  shows "dom (locks k') = dom (locks k)"
proof (cases s)
  case (SemP sm)
  with assms(1) show ?thesis
    using P_loop_locks [of pf sm _ "snd (set_level pf IntOff k)" k'] by (auto simp: Semaphore_P_def case_prod_unfold Let_def)
next
  case (ForkNew nm func arg)
  with assms(1) show ?thesis
    by (auto simp: new_Thread_def case_prod_unfold Let_def dest!: thread_locks(4))
next
  case (WaitNonEmpty sl)
  with assms(1) show ?thesis
    by (auto simp: SynchList_wait_def Condition_Wait_def bindE_eq_Inr split: if_splits)
next
  case (TakeFirst sl)
  with assms(1) show ?thesis by (auto simp: SynchList_take_def bindE_eq_Inr)
next
  case (NewLocktest1 nm)
  with assms(2) [of nm] show ?thesis by simp
next
  case (Acquire r)
  with assms(1) show ?thesis by (simp add: lock_operations_dom)
next
  case (Release r)
  with assms(1) show ?thesis by (simp add: lock_operations_dom)
qed (use assms(1) in \<open>auto simp: bindE_eq_Inr Condition_Wait_def Condition_Signal_def Condition_Broadcast_def
      dest: thread_locks V_locks\<close>)

lemma frame_locks:
  assumes "exec_frame pf f k = Inr k'" and "\<And>nm ss. f \<noteq> CodeF (NewLocktest1 nm # ss)"
  shows "dom (locks k') = dom (locks k)"
proof (cases f)
  case (CodeF ss)
  show ?thesis
  proof (cases ss)
    case (Cons s ss')
    then show ?thesis
      using assms CodeF stmt_locks [of pf s "push (currentThread k) (CodeF ss') k" k'] by auto
  qed (use assms CodeF in simp)
next
  case (CallF a arg)
  then show ?thesis using assms(1) by (auto simp: call_addr_def dest: thread_locks split: if_splits)
next
  case RootF
  then show ?thesis using assms(1) by (auto simp: ThreadRoot_def bindE_eq_Inr)
next
  case (AcquireF m lev)
  then show ?thesis using assms(1) by (simp add: lock_operations_dom)
qed (use assms(1) in \<open>auto simp: bindE_eq_Inr dest: scheduler_locks sleep_loop_locks P_loop_locks
      split: if_splits\<close>)

lemma bracketed_step_locks:
  assumes "bracketed l k" and "sys_step pf k k'"
  shows "dom (locks k') = dom (locks k)"
  using assms(2)
proof (cases rule: sys_stepE)
  case thread_step
  have own: "\<exists>b. sect l b (frames k (currentThread k))" using assms(1) unfolding bracketed_def by blast
  from thread_step show ?thesis
  proof (cases "frames k (currentThread k)")
    case (Cons f fs)
    then have "exec_frame pf f (pop k) = Inr k'" using thread_step by (simp add: step_def)
    moreover have "f \<noteq> CodeF (NewLocktest1 nm # ss)" for nm ss using own Cons by auto
    ultimately have "dom (locks k') = dom (locks (pop k))" by (rule frame_locks)
    then show ?thesis by simp
  qed (simp add: step_def)
qed (auto dest: thread_locks V_locks)

section \<open>A thread that has finished does not hold the lock\<close>

definition finished :: "ptr \<Rightarrow> astate \<Rightarrow> bool" where
  "finished t a \<longleftrightarrow> ast a t = Some BLOCKED \<and> waits_for (afr a t) = None"

definition leftover :: "ptr \<Rightarrow> ptr \<Rightarrow> astate \<Rightarrow> bool" where
  "leftover l t a \<longleftrightarrow> finished t a \<and> holder l (ahist a) = Some t"

text \<open>Within a step, the only such thread can be the one that is just finishing.\<close>

definition finishing :: "ptr \<Rightarrow> astate \<Rightarrow> bool" where
  "finishing t a \<longleftrightarrow> acur a = t \<and> adst a = t \<and> asleep (afr a t)"

lemma leftover_quiet:
  "quiet a b \<Longrightarrow> ainv a \<Longrightarrow> leftover l t b \<Longrightarrow> leftover l t a \<or> finishing t b"
proof (induction rule: quiet.induct)
  case (acquire a us m lev)
  then show ?case using ainvD(3) [OF acquire.prems(1)] trying_not_asleep(2) [OF acquire.hyps(1,2)]
    by (auto simp: leftover_def finished_def split: if_splits)
next
  case (code a us)
  then show ?case using ainvD(3) [OF code.prems(1)]
    by (auto simp: leftover_def finished_def idle_code_simps split: if_splits)
next
  case (resume a fs)
  then show ?case using ainvD(3) [OF resume.prems(1)]
    by (auto simp: leftover_def finished_def split: if_splits)
next
  case (pass a us s lev v)
  then show ?case using ainvD(3) [OF pass.prems(1)] trying_not_asleep(1) [OF pass.hyps(1,2)]
    by (auto simp: leftover_def finished_def split: if_splits)
next
  case (destroy a fs d)
  then show ?case using ainvD(3) [OF destroy.prems(1)]
    by (auto simp: leftover_def finished_def split: if_splits)
qed (auto simp: leftover_def finished_def finishing_def split: if_splits)

lemma finishing_quiet: "quiet a b \<Longrightarrow> finishing t a \<Longrightarrow> finishing t b"
  by (induction rule: quiet.induct)
     (auto simp: finishing_def idle_code_simps user_not_asleep trying_not_asleep)

lemma leftover_quiets:
  assumes "quiet\<^sup>*\<^sup>* a b" and "ainv a" and none: "\<And>t. \<not> leftover l t a"
  shows "ainv b \<and> (\<forall>t. leftover l t b \<longrightarrow> finishing t b)"
  using assms(1,2)
proof (induction rule: rtranclp_induct)
  case base
  then show ?case using none by simp
next
  case (step b c)
  then show ?case using leftover_quiet [OF step.hyps(2)] finishing_quiet [OF step.hyps(2)] quiet_ainv [OF step.hyps(2)]
    by blast
qed

lemma leftover_switch: "switch a b \<Longrightarrow> leftover l t b \<Longrightarrow> leftover l t a \<and> adst b = adst a"
  by (induction rule: switch.induct) (auto simp: leftover_def finished_def user_waits_for split: if_splits)

lemma leftover_moves:
  assumes "moves a c" and "ainv a" and "\<And>t. \<not> leftover l t a" and "leftover l t c"
  shows "adst c = t"
  using assms(1)
  unfolding moves_def
proof
  assume "quiet\<^sup>*\<^sup>* a c"
  from leftover_quiets [OF this assms(2,3)] assms(4) show ?thesis by (auto simp: finishing_def)
next
  assume "\<exists>b. quiet\<^sup>*\<^sup>* a b \<and> ast b = ast a \<and> switch b c"
  then obtain b where b: "quiet\<^sup>*\<^sup>* a b" "switch b c" by blast
  from leftover_quiets [OF b(1) assms(2,3)] leftover_switch [OF b(2) assms(4)]
  show ?thesis by (auto simp: finishing_def)
qed

lemma reachable_no_leftover:
  assumes pf: "platform_ok pf" and k0: "kinv pf k0" "locks_agree (abs_of k0)" "bracketed l k0"
    and none: "\<And>t. \<not> leftover l t (abs_of k0)"
    and procs: "procedures_bracketed pf l" and "reachable pf k0 k"
  shows "\<not> leftover l t (abs_of k)"
  using assms(7)
proof (induction arbitrary: t rule: reachable.induct)
  case reach_init
  show ?case by (rule none)
next
  case (reach_step k k')
  have k: "kinv pf k" by (rule reachable_kinv [OF pf reach_step.hyps(1) k0(1)])
  have r: "reachable pf k0 k'" using reach_step.hyps by (rule reachable.reach_step)
  have b: "bracketed l k'" by (rule reachable_bracketed [OF pf k0 procs r])
  have wf: "wf k'" using reachable_kinv [OF pf r k0(1)] by (simp add: kinv_def)
  show ?case
  proof
    assume left: "leftover l t (abs_of k')"
    from leftover_moves [OF sys_step_refines [OF pf k reach_step.hyps(2)] kinv_ainv [OF k] reach_step.IH left]
    have "threadToBeDestroyed k' = t" by (simp add: abs_of_def)
    moreover have "threads k' t \<noteq> None" "holder l (history k') = Some t"
      using left by (auto simp: leftover_def finished_def abs_of_def abs_fun_apply)
    moreover have "t \<noteq> NULL" using calculation(2) wfD(4) [OF wf] by blast
    ultimately show False using b by (simp add: bracketed_def)
  qed
qed

section \<open>The holder of the lock at a deadlock\<close>

lemma after_releases_inside:
  "after l b ss = Some b' \<Longrightarrow> b \<Longrightarrow> \<not> b' \<or> releases l rest \<Longrightarrow> releases l (ss @ rest)"
  by (induction l b ss rule: after.induct) (auto split: if_splits)

lemma inside_section: "sect l True fs \<Longrightarrow> in_section l fs"
proof (induction l True fs rule: sect.induct)
  case (2 l ss fs)
  then obtain b' where b': "after l True ss = Some b'" "sect l b' fs" by (auto split: option.splits)
  have "\<not> b' \<or> in_section l fs" using 2(1) b' by (cases b') auto
  with after_releases_inside [OF b'(1)] show ?case by (simp add: in_section_def)
qed (auto simp: in_section_def is_lock_def split: if_splits)

lemma inside_waits: "sect l True fs \<Longrightarrow> waits_for fs \<noteq> Some (LockQ l)"
  by (induction fs rule: waits_for.induct) (auto split: if_splits)

lemma deadlock_holder:
  assumes pf: "platform_ok pf" and k0: "kinv pf k0" "locks_agree (abs_of k0)" "bracketed l k0"
    and start: "nobody_waits k0" "\<And>t. \<not> leftover l t (abs_of k0)" and procs: "procedures_bracketed pf l"
    and r: "reachable pf k0 k" and halt: "step pf k = Inl Halted" and Q: "queue k (LockQ l) \<noteq> []"
  shows "\<exists>t ow. in_section l (frames k t) \<and> t \<in> set (queue k ow) \<and> ow \<noteq> LockQ l \<and>
    ((\<exists>s. ow = SemQ s) \<or> (\<exists>m. ow = LockQ m))"
proof -
  have k: "kinv pf k" by (rule reachable_kinv [OF pf r k0(1)])
  have b: "bracketed l k" by (rule reachable_bracketed [OF pf k0 procs r])
  have agree: "locks_agree (abs_of k)" by (rule locking.reach [OF pf k0(1,2) r])
  have h: "halting pf k" using step_safe [OF pf k] halt by (auto split: if_splits)
  obtain L where L: "locks k l = Some L" using Q by (auto simp: queue_def split: option.splits)
  have "held L \<noteq> 0"
    using reachable_wakeups(2) [OF pf k0(1) start(1) r, of l] halting_not_woken [OF k h, of "LockQ l"] L Q
    by (simp add: lock_wakeup_def lock_awake_def abs_of_def abs_fun_apply)
  then obtain t where t: "holder l (history k) = Some t"
    using agree L by (fastforce simp: locks_agree_def abs_of_def abs_fun_apply)
  then obtain T where T: "threads k t = Some T" using b by (fastforce simp: bracketed_def)
  have blocked: "status T = BLOCKED" by (rule halting_blocked [OF k h T])
  have inside: "sect l True (frames k t)" using b t unfolding bracketed_def by metis
  have "\<not> leftover l t (abs_of k)" by (rule reachable_no_leftover [OF pf k0 start(2) procs r])
  then have "waits_for (frames k t) \<noteq> None"
    using t T blocked by (simp add: leftover_def finished_def abs_of_def abs_fun_apply)
  then obtain ow where w: "waits_for (frames k t) = Some ow" by blast
  note kind = waits_for_queue [OF w]
  then have "t \<in> set (queue k ow)"
    using kinv_waiting(2) [OF k, of ow t] T blocked w by (auto simp: thread_queue_def)
  moreover have "ow \<noteq> LockQ l" using inside_waits [OF inside] w by blast
  ultimately show ?thesis using inside_section [OF inside] kind by blast
qed

lemma bracketed_start:
  assumes "no_locks_held k0" and "history k0 = []" and "\<And>t. sect l False (frames k0 t)" and "locktest1 k0 = l"
  shows "locks_agree (abs_of k0)" "bracketed l k0" "\<not> leftover l t (abs_of k0)"
  using assms
  by (auto simp: locks_agree_def abs_of_def exclusive_def no_locks_held_def abs_fun_apply bracketed_def leftover_def)

section \<open>Deadlocks need nested waiting\<close>

text \<open>
  C10: Deadlocks. When every thread brackets its critical sections with \<open>Acquire\<close> and \<open>Release\<close> of one
  lock, and the machine halts while threads wait for that lock, then a thread is in its section and
  waits for a semaphore or for another lock: waiting for the lock alone never ends in a deadlock.
\<close>

theorem deadlock_needs_nesting:
  assumes "platform_ok pf" and "kinv pf k0" and "nobody_waits k0" and "no_locks_held k0" and "history k0 = []"
    and "\<And>t. sect l False (frames k0 t)" and "locktest1 k0 = l" and "procedures_bracketed pf l"
    and "reachable pf k0 k" and "step pf k = Inl Halted" and "queue k (LockQ l) \<noteq> []"
  shows "\<exists>t ow. in_section l (frames k t) \<and> t \<in> set (queue k ow) \<and> ow \<noteq> LockQ l \<and>
    ((\<exists>s. ow = SemQ s) \<or> (\<exists>m. ow = LockQ m))"
  using deadlock_holder [OF assms(1,2) bracketed_start(1,2) [OF assms(4-7)] assms(3)
      bracketed_start(3) [OF assms(4-7)] assms(8-11)] .

lemma run_numeral:
  "run pf (numeral n) k = (case step pf k of Inl e \<Rightarrow> (k, Some e) | Inr k' \<Rightarrow> run pf (pred_numeral n) k')"
  by (simp add: numeral_eq_Suc)

lemma run_stops: "run pf n k = (k', Some e) \<Longrightarrow> reachable pf k k' \<and> step pf k' = Inl e"
proof -
  have "run pf n k = (k', Some e) \<Longrightarrow> \<exists>m. run pf m k = (k', None) \<and> step pf k' = Inl e" for k
  proof (induction n arbitrary: k)
    case (Suc n)
    show ?case
    proof (cases "step pf k")
      case (Inl e')
      then show ?thesis using Suc.prems by (intro exI [of _ 0]) simp
    next
      case (Inr k1)
      with Suc.IH [of k1] Suc.prems obtain m where "run pf m k1 = (k', None)" "step pf k' = Inl e" by auto
      with Inr show ?thesis by (intro exI [of _ "Suc m"]) simp
    qed
  qed simp
  then show "run pf n k = (k', Some e) \<Longrightarrow> reachable pf k k' \<and> step pf k' = Inl e" by (blast intro: run_reachable)
qed

text \<open>
  A deadlock: thread 3 waits for semaphore 6 in its section, and the thread it forked, which runs
  \<open>LockThread1\<close>, waits for the lock.
\<close>

definition contention :: "stmt list \<Rightarrow> IntStatus kernel" where
  "contention ss = (solo 0 (ForkNew ''t'' 11 0 # Acquire Locktest1 # CurrentYield # ss))\<lparr>locktest1 := 4\<rparr>"

lemma contention_start:
  "kinv plain_machine (contention ss)" "nobody_waits (contention ss)" "no_locks_held (contention ss)"
  "history (contention ss) = []" "locktest1 (contention ss) = 4"
  "frames (contention ss) = (\<lambda>_. [])(3 := [CodeF (ForkNew ''t'' 11 0 # Acquire Locktest1 # CurrentYield # ss)])"
  using solo_kinv [of 0 "ForkNew ''t'' 11 0 # Acquire Locktest1 # CurrentYield # ss"]
  by (simp_all add: contention_def nobody_waits_def no_locks_held_def) (simp_all add: solo_def)

lemmas contention_simps = run_simps run_numeral contention_def List_Append_def set_first_def set_last_def
  set_next_def new_ListElement_def delete_elem_def alloc_def Scheduler_FindNextToRun_def
  Scheduler_ReadyToRun_def Scheduler_Run_def Scheduler_Run_resume_def SWITCH_def setStatus_def new_Thread_def
  Thread_Fork_def Thread_StackAllocate_def init_stack_def StackSize_def STACK_FENCEPOST_def
  Thread_CheckOverflow_def Thread_Sleep_def Thread_Yield_def Sleep_loop_def ThreadRoot_def call_addr_def
  printf_def test_program_def LockThread1_def

abbreviation nested :: "IntStatus kernel" where
  "nested \<equiv> contention [SemP 6, Release Locktest1]"

lemma nested_run:
  "\<exists>k. reachable plain_machine nested k \<and> step plain_machine k = Inl Halted \<and>
    waits_for (frames k 10) = Some (LockQ 4) \<and> threads k 10 \<noteq> None"
proof -
  have "\<exists>k. run plain_machine 12 nested = (k, None) \<and> step plain_machine k = Inl Halted \<and>
      waits_for (frames k 10) = Some (LockQ 4) \<and> threads k 10 \<noteq> None"
    by (simp add: contention_simps)
  then show ?thesis by (blast intro: run_reachable)
qed

theorem deadlock_needs_nesting_witness:
  "\<exists>k t ow. step plain_machine k = Inl Halted \<and> in_section 4 (frames k t) \<and> t \<in> set (queue k ow) \<and> ow \<noteq> LockQ 4"
proof -
  obtain k where k: "reachable plain_machine nested k" "step plain_machine k = Inl Halted"
    "waits_for (frames k 10) = Some (LockQ 4)" "threads k 10 \<noteq> None" using nested_run by blast
  note k0 = contention_start [of "[SemP 6, Release Locktest1]"]
  have sect: "sect 4 False (frames nested t)" for t by (simp add: k0(6) is_lock_def)
  have procs: "procedures_bracketed plain_machine 4"
    by (simp add: procedures_bracketed_def plain_machine_def test_program_bracketed)
  have inv: "kinv plain_machine k" by (rule reachable_kinv [OF plain_machine_ok k(1) k0(1)])
  have h: "halting plain_machine k" using step_safe [OF plain_machine_ok inv] k(2) by (auto split: if_splits)
  obtain T where T: "threads k 10 = Some T" using k(4) by blast
  have "10 \<in> set (queue k (LockQ 4))"
    using kinv_waiting(2) [OF inv, of "LockQ 4" 10] halting_blocked [OF inv h T] T k(3) by simp
  then have "queue k (LockQ 4) \<noteq> []" by auto
  from deadlock_needs_nesting [OF plain_machine_ok k0(1-4) sect k0(5) procs k(1,2) this] k(2)
  show ?thesis by blast
qed

section \<open>The lock test\<close>

lemma no_semaphore_quiet: "quiet a b \<Longrightarrow> asem a = Map.empty \<Longrightarrow> asem b = Map.empty"
  by (induction rule: quiet.induct) auto

lemma no_semaphore_switch: "switch a b \<Longrightarrow> asem a = Map.empty \<Longrightarrow> asem b = Map.empty"
  by (induction rule: switch.induct) auto

interpretation no_semaphores: spec_invariant "\<lambda>a. asem a = Map.empty"
  by unfold_locales (auto dest: no_semaphore_quiet no_semaphore_switch)

text \<open>The state after the first statement of the lock test, and what stays true from there.\<close>

definition lock_made :: "'m platform \<Rightarrow> ptr \<Rightarrow> 'm kernel \<Rightarrow> bool" where
  "lock_made pf l k \<longleftrightarrow> kinv pf k \<and> locks_agree (abs_of k) \<and> bracketed l k \<and> nobody_waits k \<and>
     (\<forall>t. \<not> leftover l t (abs_of k)) \<and> dom (locks k) = {l} \<and> semaphores k = Map.empty"

lemma before_lock_makes:
  assumes pf: "platform_ok pf" and b: "before_lock pf [ForkNew ''one'' a1 0, ForkNew ''two'' a2 0, CurrentFinish] k"
    and step: "step pf k = Inr k'"
  shows "\<exists>l. lock_made pf l k'"
proof -
  let ?ss = "[ForkNew ''one'' a1 0, ForkNew ''two'' a2 0, CurrentFinish]"
  let ?k = "k\<lparr>frames := (\<lambda>_. [])(3 := [CodeF ?ss])\<rparr>"
  obtain l k1 where new: "new_Lock (CLiteral ''LockTest1'') ?k = (l, k1)" by fastforce
  have k: "kinv pf k" "currentThread k = 3" "frames k = (\<lambda>_. [])(3 := [CodeF (NewLocktest1 ''LockTest1'' # ?ss)])"
    "\<And>ow. queue k ow = []" "semaphores k = Map.empty" "locks k = Map.empty" "history k = []"
    using b by (simp_all add: before_lock_def)
  have "wf ?k" using k(1) by (simp add: kinv_def)
  from wf_new_lock(2,5) [OF this new] obtain h q where q1: "queue k1 = queue k" and
    k1: "k1 = ?k\<lparr>heap := h, locks := [l \<mapsto> \<lparr>lock_name = CLiteral ''LockTest1'', held = 0, lock_queue = q\<rparr>]\<rparr>"
    using k(6) by auto
  have k': "k' = k1\<lparr>locktest1 := l\<rparr>" using step k(2,3) new by (simp add: step_def pop_def push_def)
  have "kinv pf k'" by (rule step_kinv [OF pf k(1) step])
  moreover have "nobody_waits k'" using q1 k(4) by (simp add: nobody_waits_def k')
  moreover have "no_locks_held k'" "history k' = []" "locktest1 k' = l" "sect l False (frames k' t)" for t
    using k(7) by (auto simp: no_locks_held_def k' k1 split: if_splits)
  moreover from bracketed_start [OF this(1,2) this(4) this(3)]
  have "locks_agree (abs_of k')" "bracketed l k'" "\<not> leftover l t (abs_of k')" for t by blast+
  moreover have "dom (locks k') = {l}" "semaphores k' = Map.empty" using k(5) by (auto simp: k' k1 split: if_splits)
  ultimately show ?thesis unfolding lock_made_def by blast
qed

lemma lock_test_reachable:
  assumes pf: "platform_ok pf" and procs: "\<And>l. procedures_bracketed pf l"
    and b: "before_lock pf [ForkNew ''one'' a1 0, ForkNew ''two'' a2 0, CurrentFinish] k0"
    and "reachable pf k0 k"
  shows "before_lock pf [ForkNew ''one'' a1 0, ForkNew ''two'' a2 0, CurrentFinish] k \<or>
    (\<exists>l k1. lock_made pf l k1 \<and> reachable pf k1 k \<and> dom (locks k) = {l})"
    (is "?before k \<or> ?after k")
  using assms(4)
proof (induction rule: reachable.induct)
  case reach_init
  show ?case using b by simp
next
  case (reach_step k k')
  from reach_step.IH show ?case
  proof
    assume "?after k"
    then obtain l k1 where k1: "lock_made pf l k1" "reachable pf k1 k" "dom (locks k) = {l}" by blast
    then have "bracketed l k"
      using reachable_bracketed [OF pf _ _ _ procs k1(2)] unfolding lock_made_def by blast
    then have "dom (locks k') = {l}" using bracketed_step_locks [OF _ reach_step.hyps(2)] k1(3) by metis
    moreover have "reachable pf k1 k'" by (rule reachable.reach_step [OF k1(2) reach_step.hyps(2)])
    ultimately show ?thesis using k1(1) by blast
  next
    assume before: "?before k"
    then have k: "kinv pf k" "queue k ReadyQ = []" "semaphores k = Map.empty" "currentThread k = 3"
      and user: "user_frames (frames k (currentThread k))" by (simp_all add: before_lock_def)
    from reach_step.hyps(2) show ?thesis
    proof (cases rule: sys_stepE)
      case thread_step
      from before_lock_makes [OF pf before this] show ?thesis
        by (metis lock_made_def reachable.reach_init)
    next
      case time_slice
      with Yield_alone [OF pf k(1) user k(2)] before sys_step_kinv [OF pf k(1) reach_step.hyps(2)]
      show ?thesis by (auto simp: before_lock_def)
    next
      case (device s)
      with k(3) show ?thesis by (simp add: Semaphore_V_def set_level_def case_prod_unfold Let_def)
    qed
  qed
qed

text \<open>
  C11: The lock test (\<open>nachos -q 2\<close>) never deadlocks. Under every interleaving with time slices and
  interrupts, when the machine halts nobody waits for anything: every thread left has finished.
\<close>

theorem lock_test_never_deadlocks:
  assumes "platform_ok pf" and "\<And>a arg. program pf a arg = test_program aS a1 a2 a arg"
    and "main pf hardware aS a1 a2 argv = Inr k0" and "main_args (tl argv) 1 = Inr 2"
    and "reachable pf k0 k" and "step pf k = Inl Halted"
  shows "nobody_waits k \<and>
    (\<forall>t T. threads k t = Some T \<longrightarrow> status T = BLOCKED \<and> waits_for (frames k t) = None)"
proof -
  let ?ss = "[ForkNew ''one'' a1 0, ForkNew ''two'' a2 0, CurrentFinish]"
  have procs: "procedures_bracketed pf l" for l
    using assms(2) by (simp add: procedures_bracketed_def test_program_bracketed)
  note k0 = main_kinv [OF assms(1,3)]
  have before: "before_lock pf ?ss k0"
    using main_state [OF assms(3)] assms(4) k0
    by (auto simp: before_lock_def kernel0_def main_code_def ThreadTest_def LockTest1_def)
  have k: "kinv pf k" by (rule reachable_kinv [OF assms(1,5) k0(1)])
  have h: "halting pf k" using step_safe [OF assms(1) k] assms(6) by (auto split: if_splits)
  then have "\<not> before_lock pf ?ss k" by (auto simp: before_lock_def halting_def)
  with lock_test_reachable [OF assms(1) procs before assms(5)] obtain l k1 where
    k1: "lock_made pf l k1" and r: "reachable pf k1 k" and dom: "dom (locks k) = {l}" by blast
  have sems: "semaphores k = Map.empty"
  proof -
    have "kinv pf k1" "asem (abs_of k1) = Map.empty"
      using k1 by (auto simp: lock_made_def abs_of_def abs_fun_apply fun_eq_iff)
    from no_semaphores.reach [OF assms(1) this r] show ?thesis
      by (auto simp: abs_of_def abs_fun_apply fun_eq_iff)
  qed
  have none: "queue k ow = []" if "\<forall>m. ow \<noteq> LockQ m \<or> m \<noteq> l" "thread_queue ow" for ow
    using that h sems dom by (cases ow) (auto simp: halting_def queue_def dom_def split: option.splits)
  have "queue k (LockQ l) = []"
    using deadlock_holder [OF assms(1) _ _ _ _ _ procs r assms(6)] k1 none unfolding lock_made_def by fastforce
  then have nobody: "nobody_waits k" using none unfolding nobody_waits_def by metis
  have "status T = BLOCKED \<and> waits_for (frames k t) = None" if T: "threads k t = Some T" for t T
  proof -
    have "status T = BLOCKED" by (rule halting_blocked [OF k h T])
    moreover have False if w: "waits_for (frames k t) = Some ow" for ow
      using kinv_waiting(2) [OF k, of ow t] waits_for_queue [OF w] nobody T w calculation
      by (auto simp: nobody_waits_def thread_queue_def)
    ultimately show ?thesis by fastforce
  qed
  with nobody show ?thesis by blast
qed

theorem lock_test_never_deadlocks_witness:
  "\<exists>k :: IntStatus kernel. step plain_machine k = Inl Halted \<and> printed k \<noteq> [] \<and> nobody_waits k"
proof -
  have p: "\<And>m. Idle plain_machine m = None" "addr_ThreadFinish plain_machine \<noteq> addr_InterruptEnable plain_machine"
    "11 \<noteq> addr_InterruptEnable plain_machine" "11 \<noteq> addr_ThreadFinish plain_machine"
    "12 \<noteq> addr_InterruptEnable plain_machine" "12 \<noteq> addr_ThreadFinish plain_machine"
    "program plain_machine 11 0 = LockThread1 0" "program plain_machine 12 0 = LockThread2 0"
    "\<And>a arg. program plain_machine a arg = test_program 10 11 12 a arg"
    by (simp_all add: plain_machine_def test_program_def)
  have arg: "main_args (tl [''nachos'', ''-q'', ''2'']) 1 = Inr 2"
    by (simp add: second_char_def atoi_def is_space_def is_digit_def)
  from lock_test_run [OF plain_machine_ok p(1-8) start_main(2) arg] obtain n k where
    run: "run plain_machine n (start 2) = (k, Some Halted)" and out: "printed k \<noteq> []" by auto
  obtain r: "reachable plain_machine (start 2) k" and s: "step plain_machine k = Inl Halted"
    using run_stops [OF run] by blast
  from lock_test_never_deadlocks [OF plain_machine_ok p(9) start_main(2) arg r s] s out show ?thesis by blast
qed

end
