(* ===== verification/OrderProps.thy ===== *)
theory OrderProps
  imports SpecOrder NoDeadlock
begin

text \<open>
  Order of service over arbitrary executions: the waiters of semaphores and locks, and the items of
  synchronized lists.
\<close>

text \<open>
  C12: Bounded waiting. Between two states, each \<open>V\<close> or \<open>Release\<close> takes the thread that has waited
  longest off the queue, as long as there is one, and nothing else takes threads off it: the threads
  woken, followed by the queue, are the earlier queue followed by newcomers, so the waiter at
  position \<open>i\<close> is woken by the \<open>i + 1\<close>st wakeup at the latest. (A woken thread tests again when it runs.)
\<close>

theorem waiters_served_in_order:
  assumes "platform_ok pf" and "kinv pf k" and "reachable pf k k'"
  shows "\<exists>es. history k' = history k @ es \<and>
    (\<forall>s. \<exists>woken new. queue k (SemQ s) @ new = woken @ queue k' (SemQ s) \<and>
      length woken \<le> Vs s es \<and> min (length (queue k (SemQ s))) (Vs s es) \<le> length woken) \<and>
    (\<forall>l. \<exists>woken new. queue k (LockQ l) @ new = woken @ queue k' (LockQ l) \<and>
      length woken \<le> Releases l es \<and> min (length (queue k (LockQ l))) (Releases l es) \<le> length woken)"
proof -
  obtain es where es: "history k' = history k @ es"
    using sem_waiters.reach_R [OF assms] by (auto simp: serves_def abs_of_def)
  have "served (queue k (SemQ s)) (Vs s es) (queue k' (SemQ s))" for s
    using sem_waiters.reach_R [OF assms, of s] es by (simp add: serves_def abs_of_def)
  moreover have "served (queue k (LockQ l)) (Releases l es) (queue k' (LockQ l))" for l
    using lock_waiters.reach_R [OF assms, of l] es by (simp add: serves_def abs_of_def)
  ultimately show ?thesis using es unfolding served_def by blast
qed

text \<open>Thread 10 waits for lock 4, which thread 3 holds and releases.\<close>

lemma contention_run:
  "\<exists>k k'. reachable plain_machine (contention [Release Locktest1]) k \<and> step plain_machine k = Inr k' \<and>
    waits_for (frames k 10) = Some (LockQ 4) \<and> map_option status (threads k 10) = Some BLOCKED \<and>
    history k' = history k @ [EvRelease 4 3]"
proof -
  have "\<exists>k. run plain_machine 11 (contention [Release Locktest1]) = (k, None) \<and>
      (\<exists>k'. step plain_machine k = Inr k' \<and> history k' = history k @ [EvRelease 4 3]) \<and>
      waits_for (frames k 10) = Some (LockQ 4) \<and> map_option status (threads k 10) = Some BLOCKED"
    by (simp add: contention_simps)
  then show ?thesis by (blast intro: run_reachable)
qed

theorem waiters_served_in_order_witness:
  "\<exists>(k :: IntStatus kernel) (k' :: IntStatus kernel) woken new. history k' = history k @ [EvRelease 4 3] \<and> woken \<noteq> [] \<and>
    queue k (LockQ 4) @ new = woken @ queue k' (LockQ 4)"
proof -
  obtain k k' where k: "reachable plain_machine (contention [Release Locktest1]) k" "step plain_machine k = Inr k'"
    "waits_for (frames k 10) = Some (LockQ 4)" "map_option status (threads k 10) = Some BLOCKED"
    "history k' = history k @ [EvRelease 4 3]" using contention_run by blast
  have inv: "kinv plain_machine k" by (rule reachable_kinv [OF plain_machine_ok k(1) contention_start(1)])
  have "10 \<in> set (queue k (LockQ 4))"
    using kinv_waiting(2) [OF inv, of "LockQ 4" 10] k(3,4) by auto
  then have q: "0 < length (queue k (LockQ 4))" by (cases "queue k (LockQ 4)") simp_all
  from waiters_served_in_order [OF plain_machine_ok inv step_reachable [OF k(2)]] k(5)
  obtain woken new where w: "queue k (LockQ 4) @ new = woken @ queue k' (LockQ 4)"
    "min (length (queue k (LockQ 4))) (Releases 4 [EvRelease 4 3]) \<le> length woken" by auto
  with q have "woken \<noteq> []" by (cases woken) (auto simp: min_def split: if_splits)
  with w(1) k(5) show ?thesis by blast
qed



end
