(* ===== verification/VarArgs.thy ===== *)
theory VarArgs
  imports Prelude
begin

text \<open>
  The macros of \<open>stdarg-old.h\<close> for machines without a header of their own: walking an argument
  list in memory. An address is a \<open>nat\<close>; \<open>va_arg\<close> gives the address of the object it designates and
  the new value of its list pointer. The compiler's \<open>__builtin_next_arg\<close> is the argument of \<open>va_start\<close>.
\<close>

record va_target =
  sysV68 :: bool
  little_endian :: bool
  sizeof_short :: nat
  sizeof_int :: nat

type_synonym gnuc_va_list = nat

definition va_rounded_size :: "va_target \<Rightarrow> nat \<Rightarrow> nat" where
  "va_rounded_size M size_of_TYPE =
     (if sysV68 M then ((size_of_TYPE + sizeof_short M - 1) div sizeof_short M) * sizeof_short M
      else ((size_of_TYPE + sizeof_int M - 1) div sizeof_int M) * sizeof_int M)"

definition va_start :: "nat \<Rightarrow> gnuc_va_list" where
  "va_start next_arg = next_arg"

text \<open>\<open>sizeof (char)\<close> is 1.\<close>

definition va_arg :: "va_target \<Rightarrow> gnuc_va_list \<Rightarrow> nat \<Rightarrow> nat \<times> gnuc_va_list" where
  "va_arg M AP size_of_TYPE =
     (let AP = AP + va_rounded_size M size_of_TYPE
      in if little_endian M then (AP - va_rounded_size M size_of_TYPE, AP)
         else (AP - (if size_of_TYPE < va_rounded_size M 1 then size_of_TYPE
                     else va_rounded_size M size_of_TYPE), AP))"

definition va_copy :: "gnuc_va_list \<Rightarrow> gnuc_va_list" where
  "va_copy src = src"

section \<open>Argument lists\<close>

text \<open>
  How an argument is passed, given by its bytes: in a whole number of units, small arguments padded
  upward on little-endian machines and downward on big-endian ones.
\<close>

definition va_unit :: "va_target \<Rightarrow> nat" where
  "va_unit M = (if sysV68 M then sizeof_short M else sizeof_int M)"

definition pass_arg :: "va_target \<Rightarrow> 'b \<Rightarrow> 'b list \<Rightarrow> 'b list" where
  "pass_arg M pad arg =
     (let padding = replicate (va_rounded_size M (length arg) - length arg) pad
      in if \<not> little_endian M \<and> length arg < va_unit M then padding @ arg else arg @ padding)"

definition read_object :: "'b list \<Rightarrow> nat \<Rightarrow> nat \<Rightarrow> 'b list" where
  "read_object memory a n = take n (drop a memory)"

text \<open>A function that reads one argument after the other.\<close>

fun va_args :: "va_target \<Rightarrow> 'b list \<Rightarrow> gnuc_va_list \<Rightarrow> nat list \<Rightarrow> 'b list list \<times> gnuc_va_list" where
  "va_args M memory AP [] = ([], AP)"
| "va_args M memory AP (n # ns) =
     (let (a, AP) = va_arg M AP n; (rest, AP) = va_args M memory AP ns
      in (read_object memory a n # rest, AP))"

lemma rounded_size_def: "va_rounded_size M n = ((n + va_unit M - 1) div va_unit M) * va_unit M"
  by (simp add: va_rounded_size_def va_unit_def)

lemma rounded_size_dvd: "va_unit M dvd va_rounded_size M n"
  by (simp add: rounded_size_def)

lemma rounded_size_bounds:
  assumes "0 < va_unit M"
  shows "n \<le> va_rounded_size M n" and "va_rounded_size M n < n + va_unit M"
proof -
  define r where "r = (n + va_unit M - 1) mod va_unit M"
  have "r < va_unit M" using assms by (simp add: r_def)
  moreover have "va_rounded_size M n = n + va_unit M - 1 - r"
    by (simp add: rounded_size_def r_def minus_mod_eq_div_mult)
  ultimately show "n \<le> va_rounded_size M n" "va_rounded_size M n < n + va_unit M" by linarith+
qed

lemma rounded_size_one: "0 < va_unit M \<Longrightarrow> va_rounded_size M (Suc 0) = va_unit M"
  by (simp add: rounded_size_def)

lemma length_pass_arg: "0 < va_unit M \<Longrightarrow> length (pass_arg M pad arg) = va_rounded_size M (length arg)"
  by (simp add: pass_arg_def Let_def rounded_size_bounds)

text \<open>One argument: the macro finds the bytes that were passed and moves on to the next argument.\<close>

lemma va_arg_reads:
  assumes "0 < va_unit M" and "va_arg M (length before) (length arg) = (a, AP)"
  shows "read_object (before @ pass_arg M pad arg @ rest) a (length arg) = arg"
    and "AP = length (before @ pass_arg M pad arg)"
  using assms rounded_size_bounds [OF assms(1), of "length arg"]
  by (auto simp: va_arg_def Let_def read_object_def pass_arg_def rounded_size_one length_pass_arg
      split: if_splits)

text \<open>
  An argument list read with the types it was passed with gives the arguments, whatever comes before
  and behind it, and leaves the pointer at its end.
\<close>

theorem va_args_round_trip:
  assumes "0 < va_unit M"
  shows "va_args M (before @ concat (map (pass_arg M pad) args) @ rest) (va_start (length before)) (map length args) =
    (args, length before + sum_list (map (va_rounded_size M \<circ> length) args))"
proof (induction args arbitrary: before)
  case (Cons arg args)
  obtain a AP where va: "va_arg M (length before) (length arg) = (a, AP)" by fastforce
  note reads = va_arg_reads [OF assms va]
  show ?case
    using Cons [of "before @ pass_arg M pad arg"] reads(1) [of pad "concat (map (pass_arg M pad) args) @ rest"] reads(2) [of pad]
    by (simp add: va va_start_def length_pass_arg [OF assms])
qed (simp add: va_start_def)

end
