(* ===== verification/Spec2Isabelle.thy ===== *)
theory Spec2Isabelle
  imports SynchProps RiscProps SparcProps ListProps BuildProps UserProps OrderProps VarArgs
begin

text \<open>
  The thread system of Nachos (the \<open>threads\<close> assignment): linked lists, threads and
  scheduler, semaphores, locks and synchronized lists, start-up, the two test programs, and the
  context switch of the four hosts. The kernel is modelled as built with \<open>-DTHREADS\<close>; what the other
  builds add to it (\<open>USER_PROGRAM\<close>, \<open>FILESYS\<close>, \<open>NETWORK\<close>) is in theories of its own.

  \<^bold>\<open>The program.\<close> \<open>main\<close> (\<open>main.cc\<close>) calls \<open>Initialize\<close> (\<open>system.cc\<close>), which makes the scheduler and
  the main thread, and runs a test of \<open>threadtest.cc\<close>. \<open>Thread::Fork\<close> puts a new thread on the ready
  list; \<open>Yield\<close> and \<open>Sleep\<close> take the next thread off it and call \<open>Scheduler::Run\<close>, which calls the
  assembly routine \<open>SWITCH\<close> (\<open>switch.s\<close>). \<open>Semaphore::P\<close> and \<open>Lock::Acquire\<close> queue the caller and
  sleep; \<open>V\<close> and \<open>Release\<close> put one waiter back on the ready list. \<open>SynchList\<close> wraps a \<open>List\<close> with a
  lock. Atomicity comes from switching interrupts off.

  \<^bold>\<open>Model of the code.\<close>
  \<^item> \<open>Prelude\<close>: pointers, errors as values, results. A failed \<open>ASSERT\<close>, an access through a bad
    pointer, a bad \<open>delete\<close> and the halt of the machine are distinct errors; every operation
    returns an error or its result.
  \<^item> \<open>NachosList\<close>: \<open>list.h\<close>, \<open>list.cc\<close> on a store of list elements and list objects. The loops are
    \<open>partial_function (option)\<close>, where \<open>None\<close> is "does not return".
  \<^item> \<open>SwitchConstants\<close>: \<open>switch.h\<close>, for the four hosts. \<open>I386Switch\<close>: the i386 part of \<open>switch.s\<close>
    and its preprocessed text \<open>swtch.s\<close>, on a machine with eight 32-bit registers and word memory.
    \<open>RiscSwitch\<close>: the MIPS and PA-RISC parts, on a machine with 32 registers and delay slots; the
    interface \<open>register_switch\<close>, interpreted on both routines. \<open>SparcSwitch\<close>: the SPARC part, on
    register windows and their save areas in memory.
  \<^item> \<open>Kernel\<close>: the record \<open>kernel\<close> holds the global variables of \<open>system.cc\<close>, the objects by
    address, and for each thread its \<open>frames\<close>: the procedure activations it has still to return to,
    which stand for its C stack. \<open>thread.cc\<close> and \<open>scheduler.cc\<close> follow, each operation up to its
    next \<open>SWITCH\<close>; what comes after is a frame (\<open>RunF\<close>, \<open>YieldF\<close>, \<open>SleepF\<close>, ...).
  \<^item> \<open>Synch\<close>: \<open>synch.cc\<close> and \<open>synchlist.cc\<close>. Semaphore values and \<open>held\<close> are 32-bit words.
  \<^item> \<open>Machine\<close>: \<open>step\<close> executes the innermost frame of the running thread. \<open>sys_step\<close> adds what may
    happen while interrupts are on: time slices (\<open>Yield\<close> on return from the timer interrupt) and
    device handlers that call \<open>V\<close>.
  \<^item> \<open>ThreadTest\<close>, \<open>Boot\<close>, \<open>Utility\<close>: \<open>threadtest.cc\<close>; \<open>system.cc\<close> and \<open>main.cc\<close>; \<open>utility.h\<close> and
    \<open>utility.cc\<close>. \<open>VarArgs\<close>: the macros of \<open>stdarg-old.h\<close>.
  \<^item> \<open>Builds\<close>: \<open>system.cc\<close> and \<open>main.cc\<close> for every choice of build flags: the options and commands that
    are read, the objects that are made and deleted.
  \<^item> \<open>UserProgram\<close>: what \<open>USER_PROGRAM\<close> adds to \<open>thread.cc\<close> and \<open>scheduler.cc\<close>: saving and restoring the
    user registers and the address space. The record \<open>user\<close> holds this state beside the kernel's.

  The machine emulation (\<open>interrupt.h\<close>, \<open>timer.h\<close>, \<open>sysdep.h\<close>) is not in the repository. It is the
  parameter \<open>platform\<close> with an arbitrary state; \<open>platform_ok\<close> states the documented behaviour the
  kernel relies on, and \<open>Example\<close> has a machine that satisfies it and the program running on it. The
  same goes for the simulated user machine (\<open>umachine\<close>, \<open>machine_ok\<close>) and the SPARC trap that writes
  register windows to memory (\<open>flush_ok\<close>; \<open>flush_all\<close> is a handler that satisfies it).

  \<^bold>\<open>Lemmas.\<close>
  \<^item> \<open>ListSpec\<close>, \<open>ListQueue\<close>: the pointer structure of each list represents a HOL list (\<open>lists_of\<close>); one
    lemma per operation, termination included; the interfaces \<open>fifo_queues\<close> and \<open>priority_queues\<close>,
    interpreted on the code's operations.
  \<^item> \<open>KernelInv\<close>, \<open>InvSteps\<close>: the invariant \<open>kinv\<close>: a thread's status and frames say on which queue it
    is, once; the running thread, the thread to be destroyed, the stack markers, and interrupts off
    inside the kernel. \<open>KernelSafe\<close>, \<open>StepSafe\<close>, \<open>StepPreserve\<close>: each operation keeps it and fails no
    assertion.
  \<^item> \<open>KernelSpec\<close>, \<open>KernelRefine\<close>: an abstract kernel of queues and statuses, and the refinement of
    \<open>sys_step\<close> to it. \<open>SpecInv\<close>, \<open>SpecSync\<close>, \<open>SpecWakeup\<close>, \<open>SpecZombie\<close>, \<open>SpecFifo\<close>: invariants of the
    abstract kernel, carried to the code by the locale \<open>spec_invariant\<close>: mutual exclusion, the
    counting law, no lost wakeups, threads that are never freed; and the order of dispatches.
    \<open>SpecOrder\<close>: what happens to a queue between two states (the interface \<open>spec_relation\<close>).
  \<^item> \<open>TestRuns\<close>, \<open>CodeSteps\<close>, \<open>LockTestRun\<close>: steps of a thread that runs program code, and the runs of
    the two tests of \<open>threadtest.cc\<close> from \<open>main\<close> to the halt of the machine.
  \<^item> \<open>CriticalSections\<close>: programs whose critical sections are bracketed by \<open>Acquire\<close> and \<open>Release\<close>;
    under every interleaving a thread in its section is the one that holds the lock. \<open>NoDeadlock\<close>:
    when such a program deadlocks, the holder of the lock waits for something else.
  \<^item> \<open>WellTyped\<close>: a type system for programs: statements name objects that exist, threads run typed
    procedures and end by \<open>Finish\<close>. Every operation preserves typing.
  \<^item> \<open>UserState\<close>: the kernel of the \<open>USER_PROGRAM\<close> build makes the steps of the plain one, and
    nothing touches what a thread that waits to be resumed has saved.
  \<^item> \<open>KernelProps\<close>, \<open>ListProps\<close>, \<open>SynchProps\<close>, \<open>ThreadProps\<close>, \<open>SwitchProps\<close>, \<open>RiscProps\<close>,
    \<open>SparcProps\<close>, \<open>OrderProps\<close>, \<open>BootProps\<close>, \<open>BuildProps\<close>, \<open>TypeProps\<close>, \<open>UserProps\<close> and this theory: the
    properties, each with a concrete instance.

  \<^bold>\<open>Bounds and conventions.\<close> Addresses are never reused, so a dangling pointer is always seen; memory
  does not run out. Sort keys are mathematical integers (they are only compared). \<open>history\<close> is a log
  for stating properties that no operation reads. \<open>run\<close> takes a number of steps; statements about
  whole runs assert that some number is enough. \<open>DEBUG\<close> output is not part of the printed text.
  Overflow of \<open>atoi\<close> is undefined in C and is not modelled.

  \<^bold>\<open>Not modelled.\<close> The classes and routines that \<open>USER_PROGRAM\<close>, \<open>FILESYS\<close> and \<open>NETWORK\<close> call and that
  are not in the repository: only the calls are. The rest of \<open>stdarg-old.h\<close>, which is preprocessing,
  and \<open>stdarg-tmp.h\<close>, which renames built-ins of a compiler; \<open>bool.h\<close>; build files, the listing
  \<open>synch.dis\<close> and object files. \<open>switch-old.s\<close> repeats the i386 part of \<open>switch.s\<close>.
\<close>

section \<open>Safety of the thread system\<close>



text \<open>
  C3: In every reachable state a thread is on the ready list, once, exactly when its status is
  \<open>READY\<close>; it is in the queue of a semaphore or lock, once, exactly when it is \<open>BLOCKED\<close> and will
  test that object again when it runs; and only \<open>currentThread\<close> can be \<open>RUNNING\<close>.
\<close>

theorem status_matches_queues:
  assumes "platform_ok pf" and "main pf hardware aS a1 a2 argv = Inr k0" and "reachable pf k0 k"
  shows "distinct (queue k ReadyQ) \<and>
    (\<forall>t. t \<in> set (queue k ReadyQ) \<longleftrightarrow> (\<exists>T. threads k t = Some T \<and> status T = READY)) \<and>
    (\<forall>ow. (\<exists>s. ow = SemQ s) \<or> (\<exists>l. ow = LockQ l) \<longrightarrow> distinct (queue k ow) \<and>
      (\<forall>t. t \<in> set (queue k ow) \<longleftrightarrow>
        (\<exists>T. threads k t = Some T \<and> status T = BLOCKED \<and> waits_for (frames k t) = Some ow))) \<and>
    (\<forall>t T. threads k t = Some T \<longrightarrow> status T = RUNNING \<longrightarrow> t = currentThread k)"
proof -
  have k: "kinv pf k" by (rule reachable_kinv [OF assms(1,3) main_kinv(1) [OF assms(1,2)]])
  have "distinct (queue k ow) \<and> (\<forall>t. t \<in> set (queue k ow) \<longleftrightarrow>
      (\<exists>T. threads k t = Some T \<and> status T = BLOCKED \<and> waits_for (frames k t) = Some ow))"
    if "(\<exists>s. ow = SemQ s) \<or> (\<exists>l. ow = LockQ l)" for ow
  proof -
    have ow: "thread_queue ow" "ow \<noteq> ReadyQ" using that by auto
    show ?thesis using kinv_waiting [OF k ow] by blast
  qed
  then show ?thesis using kinv_placement(1-3) [OF k] by blast
qed

theorem status_matches_queues_witness:
  "distinct (queue (start 1) ReadyQ) \<and> (\<exists>T. threads (start 1) 3 = Some T \<and> status T = RUNNING)"
  using status_matches_queues [OF plain_machine_ok start_main(1) reach_init]
  by (simp add: start_def first_thread_def)



text \<open>
  C2: Refinement. Each step of the kernel, time slices and device interrupts included, is a
  sequence of moves of the abstract kernel: quiet ones, and at most one switch, which is the last.
\<close>

theorem kernel_refines_spec:
  assumes "platform_ok pf" and "kinv pf k" and "sys_step pf k k'"
  shows "kinv pf k' \<and> moves (abs_of k) (abs_of k')"
  using sys_step_kinv [OF assms] sys_step_refines [OF assms] by blast

theorem kernel_refines_spec_witness:
  "\<exists>k' :: IntStatus kernel. moves (abs_of (solo 1 [SemP 6])) (abs_of k') \<and> history k' = [EvP 6 3]"
proof -
  obtain k' where k': "step plain_machine (solo 1 [SemP 6]) = Inr k'" "history k' = [EvP 6 3]"
    by (simp add: run_simps)
  from kernel_refines_spec [OF plain_machine_ok solo_kinv(1) sys_step.thread_step [OF k'(1)]] k'(2)
  show ?thesis by auto
qed

section \<open>Synchronization\<close>

text \<open>
  C5: Mutual exclusion. Between two acquisitions of a lock there is a release of it; and \<open>held\<close>
  is set exactly when the last acquisition has not been followed by a release.
\<close>

theorem lock_mutual_exclusion:
  assumes "platform_ok pf" and "kinv pf k0" and "history k0 = []" and "no_locks_held k0"
    and "reachable pf k0 k"
  shows "(\<forall>xs l t ys u zs. history k = xs @ EvAcquire l t # ys @ EvAcquire l u # zs \<longrightarrow>
      (\<exists>v. EvRelease l v \<in> set ys)) \<and>
    (\<forall>l L. locks k l = Some L \<longrightarrow> (held L = 0 \<longleftrightarrow> holder l (history k) = None))"
proof -
  have a: "exclusive (history k)" "\<And>l. holder l (history k) = None \<longleftrightarrow> (\<forall>v. helds (locks k) l = Some v \<longrightarrow> v = 0)"
    using reachable_locks [OF assms] by (simp_all add: locks_agree_def abs_of_def)
  have "\<exists>v. EvRelease l v \<in> set ys" if "history k = xs @ EvAcquire l t # ys @ EvAcquire l u # zs"
    for xs l t ys u zs using a(1) that exclusive_between by simp
  moreover have "held L = 0 \<longleftrightarrow> holder l (history k) = None" if "locks k l = Some L" for l L
    using a(2) [of l] that by (simp add: abs_fun_apply)
  ultimately show ?thesis by blast
qed

theorem lock_mutual_exclusion_witness:
  "\<exists>(k :: IntStatus kernel) v. history k = [EvAcquire 4 3, EvRelease 4 3, EvAcquire 4 3] \<and>
    EvRelease 4 v \<in> set [EvRelease 4 (3 :: ptr)]"
proof -
  obtain k where k: "reachable plain_machine (solo 0 [Acquire (LockAt 4), Release (LockAt 4), Acquire (LockAt 4)]) k"
    "history k = [EvAcquire 4 3, EvRelease 4 3, EvAcquire 4 3]" using solo_lock_run by blast
  have s: "history (solo 0 ss) = []" "no_locks_held (solo 0 ss)" for ss
    by (simp_all add: solo_def no_locks_held_def)
  have "history k = [] @ EvAcquire 4 3 # [EvRelease 4 3] @ EvAcquire 4 3 # []" using k(2) by simp
  with lock_mutual_exclusion [OF plain_machine_ok solo_kinv(1) s k(1)]
  have "\<exists>v. EvRelease 4 v \<in> set [EvRelease 4 (3 :: ptr)]" by blast
  with k(2) show ?thesis by blast
qed

text \<open>
  C8: Semaphores count. The value is the initial one plus the \<open>V\<close>s less the completed \<open>P\<close>s (modulo
  \<open>2 ^ 32\<close>), and while initial value plus \<open>V\<close>s does not wrap around, the equation holds of the
  numbers themselves: no more \<open>P\<close>s complete than the initial value and the \<open>V\<close>s allow.
\<close>

theorem semaphore_counts:
  assumes "platform_ok pf" and "kinv pf k0" and "history k0 = []" and "semaphores k0 s = Some S0"
    and "reachable pf k0 k"
  shows "\<exists>S. semaphores k s = Some S \<and>
    sem_value S = sem_value S0 + of_nat (Vs s (history k)) - of_nat (Ps s (history k)) \<and>
    (unat (sem_value S0) + Vs s (history k) < 2 ^ 32 \<longrightarrow>
      unat (sem_value S) + Ps s (history k) = unat (sem_value S0) + Vs s (history k))"
  using reachable_counts [OF assms]
  by (auto simp: counts_def balance_def abs_of_def abs_fun_apply split: option.splits)

theorem semaphore_counts_witness:
  "\<exists>(k :: IntStatus kernel) S. history k = [EvP 6 3, EvV 6, EvP 6 3] \<and> semaphores k 6 = Some S \<and>
     unat (sem_value S) + 2 = 1 + 1"
proof -
  obtain k where k: "reachable plain_machine (solo 1 [SemP 6, SemV 6, SemP 6]) k"
    "history k = [EvP 6 3, EvV 6, EvP 6 3]" using solo_sem_run by blast
  have s: "history (solo 1 ss) = []"
    "semaphores (solo 1 ss) 6 = Some \<lparr>sem_name = ''s'', sem_value = 1, sem_queue = 7\<rparr>" for ss
    by (simp_all add: solo_def)
  have "Vs 6 (history k) = 1" "Ps 6 (history k) = 2" using k(2) by (simp_all add: Vs_def Ps_def)
  with semaphore_counts [OF plain_machine_ok solo_kinv(1) s k(1)] obtain S where
    "semaphores k 6 = Some S" "unat (sem_value S) + 2 = 1 + 1" by auto
  with k(2) show ?thesis by blast
qed

text \<open>
  C9: No lost wakeups. When the machine halts because nothing can run, every thread left is
  blocked, every semaphore that threads wait for has value 0, and every lock that threads wait
  for is held.
\<close>

theorem halting_is_deadlock:
  assumes "platform_ok pf" and "kinv pf k0" and "nobody_waits k0" and "reachable pf k0 k"
    and "step pf k = Inl Halted"
  shows "(\<forall>t T. threads k t = Some T \<longrightarrow> status T = BLOCKED) \<and>
    (\<forall>s S. semaphores k s = Some S \<longrightarrow> queue k (SemQ s) \<noteq> [] \<longrightarrow> sem_value S = 0) \<and>
    (\<forall>l L. locks k l = Some L \<longrightarrow> queue k (LockQ l) \<noteq> [] \<longrightarrow> held L \<noteq> 0)"
proof -
  have k: "kinv pf k" by (rule reachable_kinv [OF assms(1,4,2)])
  have h: "halting pf k" using step_safe [OF assms(1) k] assms(5) by (auto split: if_splits)
  have "sem_value S = 0" if "semaphores k s = Some S" "queue k (SemQ s) \<noteq> []" for s S
    using reachable_wakeups(1) [OF assms(1-4), of s] halting_not_woken [OF k h, of "SemQ s"] that
    by (simp add: sem_awake_def abs_of_def abs_fun_apply unat_eq_0)
  moreover have "held L \<noteq> 0" if "locks k l = Some L" "queue k (LockQ l) \<noteq> []" for l L
    using reachable_wakeups(2) [OF assms(1-4), of l] halting_not_woken [OF k h, of "LockQ l"] that
    by (simp add: lock_wakeup_def lock_awake_def abs_of_def abs_fun_apply)
  ultimately show ?thesis using halting_blocked [OF k h] by blast
qed

theorem halting_is_deadlock_witness:
  "\<exists>k. reachable plain_machine (solo 0 [SemP 6]) k \<and> step plain_machine k = Inl Halted \<and>
    (\<forall>s S. semaphores k s = Some S \<longrightarrow> queue k (SemQ s) \<noteq> [] \<longrightarrow> sem_value S = 0)"
proof -
  obtain k where k: "reachable plain_machine (solo 0 [SemP 6]) k" "step plain_machine k = Inl Halted"
    using solo_wait_run by blast
  have "nobody_waits (solo 0 [SemP 6])" by (simp add: nobody_waits_def solo_kinv(2))
  from halting_is_deadlock [OF plain_machine_ok solo_kinv(1) this k] k show ?thesis by blast
qed

section \<open>Scheduling\<close>

text \<open>
  C15: First come, first served. Over any execution, the threads dispatched, in order, followed by
  the final ready list, are the initial ready list followed by the threads that became ready:
  no thread overtakes another, and the thread at position \<open>i\<close> runs after \<open>i\<close> others.
\<close>

theorem ready_list_is_fifo:
  assumes "platform_ok pf" and "kinv pf k" and "execution pf (k # ks)"
  shows "(\<exists>new. dispatches (k # ks) @ queue (last (k # ks)) ReadyQ = queue k ReadyQ @ new) \<and>
    (\<forall>i < length (dispatches (k # ks)). i < length (queue k ReadyQ) \<longrightarrow>
      dispatches (k # ks) ! i = queue k ReadyQ ! i)"
proof -
  obtain new where new: "dispatches (k # ks) @ queue (last (k # ks)) ReadyQ = queue k ReadyQ @ new"
    using execution_fifo [OF assms] by blast
  then have "dispatches (k # ks) ! i = queue k ReadyQ ! i"
    if "i < length (dispatches (k # ks))" "i < length (queue k ReadyQ)" for i
    using that by (metis nth_append)
  with new show ?thesis by blast
qed

theorem ready_list_is_fifo_witness:
  "\<exists>(k' :: IntStatus kernel) new. queue k' ReadyQ = queue (solo 1 [SemP 6]) ReadyQ @ new \<and> history k' = [EvP 6 3]"
proof -
  obtain k' where k': "step plain_machine (solo 1 [SemP 6]) = Inr k'" "history k' = [EvP 6 3]"
    "currentThread k' = 3"
    by (simp add: run_simps)
  have "is_running (solo 1 [SemP 6]) 3" by (simp add: is_running_def solo_def first_thread_def)
  with ready_list_is_fifo [OF plain_machine_ok solo_kinv(1), of 1 "[SemP 6]" "[k']"] k'
  have "\<exists>new. queue k' ReadyQ = queue (solo 1 [SemP 6]) ReadyQ @ new"
    by (simp add: dispatched_def sys_step.thread_step)
  with k'(2) show ?thesis by blast
qed

end
